(* ===== verification/MP_Prelude.thy ===== *)
theory MP_Prelude
  imports Main "HOL-Library.Word"
begin

text \<open>
  Shared vocabulary of the development: the machine types of the C code, the helper
  functions on C strings that several components call, and the lemma collections and generic
  lemmas on lists, words and modular indices that their proofs share.
\<close>

unbundle bit_operations_syntax

subsection \<open>Machine types\<close>

type_synonym byte = "8 word"
type_synonym u16 = "16 word"
type_synonym u32 = "32 word"
type_synonym u64 = "64 word"

text \<open>
  A C \<^verbatim>\<open>int\<close> that is used bitwise is kept as a 32-bit word and read with \<^term>\<open>sint\<close>
  where the code compares it as a signed value.
\<close>

type_synonym c_int = "32 word"

subsection \<open>Lists read through modular indices\<close>

lemma map_upt_Suc_snoc: "map f [0..<Suc n] = map f [0..<n] @ [f n]"
  by simp

lemma map_upt_Suc_cons: "map f [0..<Suc n] = f 0 # map (\<lambda>i. f (Suc i)) [0..<n]"
  by (simp add: upt_conv_Cons map_Suc_upt [symmetric] del: upt_Suc)

text \<open>Two offsets into a ring of \<open>n\<close> slots that are less than \<open>n\<close> apart are different slots.\<close>

lemma mod_add_inj:
  fixes n :: nat
  assumes eq: "(a + i) mod n = (a + j) mod n" and "i < n" and "j < n"
  shows "i = j"
proof -
  have aux: "x = y" if "(a + x) mod n = (a + y) mod n" "x \<le> y" "y < n" for x y
  proof -
    from that(1) have "n dvd (a + y) - (a + x)" by (metis mod_eq_dvd_iff_nat that(2) add_left_mono)
    then have "n dvd y - x" by simp
    with that show ?thesis by (auto dest: dvd_imp_le)
  qed
  show ?thesis using aux [of i j] aux [of j i] assms by (cases "i \<le> j") auto
qed

subsection \<open>Words\<close>

lemma sint_small:
  assumes "unat (w :: 32 word) < 2 ^ 31"
  shows "sint w = int (unat w)"
proof -
  have "int (unat w) < int (2 ^ 31)" using assms by (simp only: of_nat_less_iff)
  then have "uint w < 2 ^ 31" by simp
  moreover have "0 \<le> uint w" by simp
  ultimately have "signed_take_bit 31 (uint w) = uint w"
    by (intro signed_take_bit_int_eq_self) (auto intro: order_trans [of _ 0])
  then show ?thesis by (simp add: sint_uint)
qed

end
