(* ===== verification/Key_Fifo.thy ===== *)
theory Key_Fifo
  imports MP_Prelude
begin

text \<open>
  The key event queue of \<^verbatim>\<open>mp_fifo.c\<close>: a ring of \<^verbatim>\<open>key_fifo_size\<close> integers between
  the drivers, which call \<^verbatim>\<open>mplayer_put_key\<close>, and the input layer, which calls
  \<^verbatim>\<open>mplayer_get_key\<close>. The two counters are 32-bit unsigned integers that only ever grow and
  are reduced modulo the size at each access, so the model keeps them as words. The contract
  is a bounded queue (locale \<open>bounded_queue\<close>), of which the ring is an interpretation.
\<close>

subsection \<open>Constants\<close>

definition MP_KEY_DOWN :: c_int where "MP_KEY_DOWN = push_bit 29 1"
definition MP_NO_REPEAT_KEY :: c_int where "MP_NO_REPEAT_KEY = push_bit 28 1"
definition MP_KEY_RELEASE_ALL :: c_int where "MP_KEY_RELEASE_ALL = push_bit 27 1"
definition MP_INPUT_NOTHING :: c_int where "MP_INPUT_NOTHING = - 3"

definition MOUSE_BASE :: c_int where "MOUSE_BASE = (0x100 + 256) OR MP_NO_REPEAT_KEY"
definition MOUSE_BTN0 :: c_int where "MOUSE_BTN0 = MOUSE_BASE + 0"
definition MOUSE_BTN_LAST :: c_int where "MOUSE_BTN_LAST = MOUSE_BASE + 19"
definition MOUSE_BASE_DBL :: c_int where "MOUSE_BASE_DBL = 0x300 OR MP_NO_REPEAT_KEY"
definition MOUSE_BTN0_DBL :: c_int where "MOUSE_BTN0_DBL = MOUSE_BASE_DBL + 0"
definition MOUSE_BTN_LAST_DBL :: c_int where "MOUSE_BTN_LAST_DBL = MOUSE_BASE_DBL + 19"

lemmas key_consts = MP_KEY_DOWN_def MP_NO_REPEAT_KEY_def MP_KEY_RELEASE_ALL_def
  MP_INPUT_NOTHING_def MOUSE_BASE_def MOUSE_BTN0_def MOUSE_BTN_LAST_def MOUSE_BASE_DBL_def
  MOUSE_BTN0_DBL_def MOUSE_BTN_LAST_DBL_def

subsection \<open>The ring\<close>

text \<open>
  The static variables of the file. \<open>key_fifo_data\<close> is \<^term>\<open>None\<close> while the C pointer is
  NULL. The size is the value of the option \<^verbatim>\<open>key-fifo-size\<close>, which the option table
  restricts to 2..65000.
\<close>

record key_fifo =
  key_fifo_size :: c_int
  key_fifo_data :: "c_int list option"
  key_fifo_read :: u32
  key_fifo_write :: u32
  previous_down_key :: c_int

text \<open>
  \<^verbatim>\<open>malloc\<close> leaves the slots indeterminate; the model fills them with 0, and the refinement
  below shows that no slot is read before it is written.
\<close>

definition key_fifo_alloc :: "key_fifo \<Rightarrow> key_fifo" where
  "key_fifo_alloc f = (case key_fifo_data f of
     None \<Rightarrow> f\<lparr>key_fifo_data := Some (replicate (unat (key_fifo_size f)) 0)\<rparr>
   | Some d \<Rightarrow> f)"

definition key_fifo_store :: "c_int \<Rightarrow> key_fifo \<Rightarrow> key_fifo" where
  "key_fifo_store code f =
     f\<lparr>key_fifo_data := map_option
         (\<lambda>d. d[unat (key_fifo_write f mod key_fifo_size f) := code]) (key_fifo_data f),
       key_fifo_write := key_fifo_write f + 1,
       previous_down_key := (if code AND MP_KEY_DOWN \<noteq> 0 then code AND NOT MP_KEY_DOWN
                             else code AND MP_KEY_RELEASE_ALL)\<rparr>"

definition mplayer_put_key_internal :: "c_int \<Rightarrow> key_fifo \<Rightarrow> key_fifo" where
  "mplayer_put_key_internal code f0 =
     (let fifo_free = key_fifo_read f0 + key_fifo_size f0 - key_fifo_write f0;
          f = key_fifo_alloc f0
      in if fifo_free = 0 then f
         else if code AND MP_KEY_DOWN \<noteq> 0
              \<and> sint fifo_free \<le> sint (signed_drop_bit 1 (key_fifo_size f)) then f
         else if fifo_free = 1 then
           (if previous_down_key f AND MP_KEY_RELEASE_ALL \<noteq> 0 then f
            else key_fifo_store
              ((if code \<noteq> previous_down_key f then 0 else code) OR MP_KEY_RELEASE_ALL) f)
         else key_fifo_store code f)"

definition mplayer_get_key :: "key_fifo \<Rightarrow> c_int \<times> key_fifo" where
  "mplayer_get_key f = (case key_fifo_data f of
     None \<Rightarrow> (MP_INPUT_NOTHING, f)
   | Some d \<Rightarrow>
       if key_fifo_write f = key_fifo_read f then (MP_INPUT_NOTHING, f)
       else (d ! unat (key_fifo_read f mod key_fifo_size f),
             f\<lparr>key_fifo_read := key_fifo_read f + 1\<rparr>))"

definition mplayer_key_fifo_uninit :: "key_fifo \<Rightarrow> key_fifo" where
  "mplayer_key_fifo_uninit f =
     f\<lparr>key_fifo_data := None, key_fifo_read := 0, key_fifo_write := 0, previous_down_key := 0\<rparr>"

subsection \<open>Double clicks\<close>

text \<open>
  \<^verbatim>\<open>mplayer_put_key\<close> with its own static variables; \<open>now\<close> is the value of
  \<^verbatim>\<open>GetTimerMS()\<close> at the call and \<open>doubleclick_time\<close> the option of that name.
\<close>

record key_input =
  fifo :: key_fifo
  doubleclick_time :: u32
  last_key_time0 :: u32
  last_key_time1 :: u32
  last_key0 :: c_int
  last_key1 :: c_int

definition put_double :: "c_int \<Rightarrow> key_fifo \<Rightarrow> key_fifo" where
  "put_double code f =
     (if sint MOUSE_BTN0 \<le> sint code \<and> sint code \<le> sint MOUSE_BTN_LAST
      then mplayer_put_key_internal (code - MOUSE_BTN0 + MOUSE_BTN0_DBL) f else f)"

definition mplayer_put_key :: "u32 \<Rightarrow> c_int \<Rightarrow> key_input \<Rightarrow> key_input" where
  "mplayer_put_key now code k =
     (if doubleclick_time k \<noteq> 0
         \<and> sint MOUSE_BTN0_DBL \<le> sint (code AND NOT MP_KEY_DOWN)
         \<and> sint (code AND NOT MP_KEY_DOWN) \<le> sint MOUSE_BTN_LAST_DBL
      then k
      else let k = k\<lparr>fifo := mplayer_put_key_internal code (fifo k)\<rparr> in
        if code AND MP_KEY_DOWN \<noteq> 0 then
          let code = code AND NOT MP_KEY_DOWN;
              k = k\<lparr>last_key1 := last_key0 k, last_key0 := code,
                    last_key_time1 := last_key_time0 k, last_key_time0 := now\<rparr>
          in if last_key1 k = code \<and> now - last_key_time1 k < doubleclick_time k
             then k\<lparr>fifo := put_double code (fifo k)\<rparr> else k
        else if last_key0 k = code \<and> last_key1 k = code
              \<and> now - last_key_time1 k < doubleclick_time k
             then k\<lparr>fifo := put_double code (fifo k)\<rparr> else k)"

subsection \<open>The invariant and the abstraction to a list\<close>

definition fifo_len :: "key_fifo \<Rightarrow> nat" where
  "fifo_len f = unat (key_fifo_write f - key_fifo_read f)"

definition fifo_cap :: "key_fifo \<Rightarrow> nat" where
  "fifo_cap f = unat (key_fifo_size f)"

definition fifo_slot :: "key_fifo \<Rightarrow> nat \<Rightarrow> nat" where
  "fifo_slot f i = unat ((key_fifo_read f + of_nat i) mod key_fifo_size f)"

definition fifo_abs :: "key_fifo \<Rightarrow> c_int list" where
  "fifo_abs f = (case key_fifo_data f of None \<Rightarrow> []
     | Some d \<Rightarrow> map (\<lambda>i. d ! fifo_slot f i) [0..<fifo_len f])"

text \<open>
  \<open>fifo_budget\<close> is the number of further key events before the write counter passes
  \<open>2 ^ 32\<close>; a size that divides \<open>2 ^ 32\<close> never runs out.
\<close>

definition fifo_seamless :: "key_fifo \<Rightarrow> bool" where
  "fifo_seamless f \<longleftrightarrow> fifo_cap f dvd 2 ^ 32"

definition fifo_budget :: "key_fifo \<Rightarrow> nat" where
  "fifo_budget f = (if fifo_seamless f then 2 ^ 32 else 2 ^ 32 - 1 - unat (key_fifo_write f))"

definition fifo_inv :: "key_fifo \<Rightarrow> bool" where
  "fifo_inv f \<longleftrightarrow> 2 \<le> fifo_cap f \<and> fifo_cap f \<le> 65000
     \<and> fifo_len f \<le> fifo_cap f
     \<and> (fifo_seamless f \<or> key_fifo_read f \<le> key_fifo_write f)
     \<and> (case key_fifo_data f of None \<Rightarrow> key_fifo_write f = key_fifo_read f
          | Some d \<Rightarrow> length d = fifo_cap f)"

lemma fifo_free_eq:
  assumes "fifo_len f \<le> fifo_cap f"
  shows "unat (key_fifo_read f + key_fifo_size f - key_fifo_write f) = fifo_cap f - fifo_len f"
proof -
  have "key_fifo_read f + key_fifo_size f - key_fifo_write f
      = key_fifo_size f - (key_fifo_write f - key_fifo_read f)" by simp
  moreover have "key_fifo_write f - key_fifo_read f \<le> key_fifo_size f"
    using assms by (simp add: fifo_len_def fifo_cap_def word_le_nat_alt)
  ultimately show ?thesis by (simp only: unat_sub fifo_len_def fifo_cap_def)
qed

lemma fifo_slot_lin:
  assumes inv: "fifo_inv f" and i: "i \<le> fifo_len f" and b: "0 < fifo_budget f \<or> i < fifo_len f"
  shows "fifo_slot f i = (unat (key_fifo_read f) + i) mod fifo_cap f"
proof (cases "fifo_seamless f")
  case True
  have "unat (key_fifo_read f + of_nat i :: u32) = (unat (key_fifo_read f) + i) mod 2 ^ 32"
    by (simp add: unat_word_ariths unat_of_nat mod_simps)
  with True show ?thesis
    by (simp add: fifo_slot_def unat_mod fifo_cap_def fifo_seamless_def mod_mod_cancel)
next
  case False
  with inv have rw: "key_fifo_read f \<le> key_fifo_write f" by (simp add: fifo_inv_def)
  then have len: "unat (key_fifo_read f) + fifo_len f = unat (key_fifo_write f)"
    by (simp add: fifo_len_def unat_sub word_le_nat_alt)
  have "unat (key_fifo_write f) < 2 ^ 32" using unsigned_less [of "key_fifo_write f"] by simp
  with len i b False have "unat (key_fifo_read f) + i < 2 ^ 32" by linarith
  then have "unat (key_fifo_read f + of_nat i :: u32) = unat (key_fifo_read f) + i"
    by (simp add: unat_word_ariths unat_of_nat)
  then show ?thesis by (simp add: fifo_slot_def unat_mod fifo_cap_def)
qed


lemma key_fifo_alloc_simps [simp]:
  "key_fifo_size (key_fifo_alloc f) = key_fifo_size f"
  "key_fifo_read (key_fifo_alloc f) = key_fifo_read f"
  "key_fifo_write (key_fifo_alloc f) = key_fifo_write f"
  "previous_down_key (key_fifo_alloc f) = previous_down_key f"
  "fifo_len (key_fifo_alloc f) = fifo_len f"
  "fifo_cap (key_fifo_alloc f) = fifo_cap f"
  "fifo_slot (key_fifo_alloc f) = fifo_slot f"
  "fifo_seamless (key_fifo_alloc f) = fifo_seamless f"
  "fifo_budget (key_fifo_alloc f) = fifo_budget f"
  by (simp_all add: key_fifo_alloc_def fifo_len_def fifo_cap_def fifo_slot_def fun_eq_iff
      fifo_seamless_def fifo_budget_def split: option.splits)

lemma key_fifo_alloc_data: "\<exists>d. key_fifo_data (key_fifo_alloc f) = Some d"
  by (simp add: key_fifo_alloc_def split: option.splits)

lemma key_fifo_alloc_inv: "fifo_inv f \<Longrightarrow> fifo_inv (key_fifo_alloc f)"
  by (auto simp: fifo_inv_def key_fifo_alloc_def fifo_cap_def fifo_len_def fifo_seamless_def
      split: option.splits)

lemma key_fifo_alloc_abs: "fifo_inv f \<Longrightarrow> fifo_abs (key_fifo_alloc f) = fifo_abs f"
  by (auto simp: fifo_inv_def key_fifo_alloc_def fifo_abs_def fifo_len_def fifo_slot_def
      split: option.splits)

lemma fifo_len_Suc:
  assumes "fifo_inv f" and "fifo_len f < fifo_cap f"
  shows "unat (key_fifo_write f + 1 - key_fifo_read f) = Suc (fifo_len f)"
proof -
  have eq: "key_fifo_write f + 1 - key_fifo_read f = (key_fifo_write f - key_fifo_read f) + 1" by simp
  have "Suc (unat (key_fifo_write f - key_fifo_read f)) < 2 ^ 32"
    using assms by (simp add: fifo_inv_def fifo_len_def)
  then show ?thesis unfolding eq fifo_len_def by (simp only: unat_word_ariths) simp
qed

lemma key_fifo_store_simps [simp]:
  "key_fifo_size (key_fifo_store c f) = key_fifo_size f"
  "key_fifo_read (key_fifo_store c f) = key_fifo_read f"
  "key_fifo_write (key_fifo_store c f) = key_fifo_write f + 1"
  "fifo_cap (key_fifo_store c f) = fifo_cap f"
  "fifo_slot (key_fifo_store c f) = fifo_slot f"
  "fifo_seamless (key_fifo_store c f) = fifo_seamless f"
  by (simp_all add: key_fifo_store_def fifo_cap_def fifo_slot_def fun_eq_iff fifo_seamless_def)

lemma key_fifo_store_abs:
  assumes inv: "fifo_inv f" and d: "key_fifo_data f = Some d"
    and room: "fifo_len f < fifo_cap f" and b: "0 < fifo_budget f"
  shows "fifo_abs (key_fifo_store c f) = fifo_abs f @ [c]"
proof -
  let ?l = "fifo_len f"
  have idx: "unat (key_fifo_write f mod key_fifo_size f) = fifo_slot f ?l"
    by (simp add: fifo_slot_def fifo_len_def)
  have lin: "fifo_slot f i = (unat (key_fifo_read f) + i) mod fifo_cap f" if "i \<le> ?l" for i
    using fifo_slot_lin [OF inv that] b by simp
  have diff: "fifo_slot f i \<noteq> fifo_slot f ?l" if "i < ?l" for i
    using that room mod_add_inj [of "unat (key_fifo_read f)" i "fifo_cap f" ?l]
    by (auto simp: lin)
  have ran: "fifo_slot f ?l < length d"
    using inv d by (simp add: lin fifo_inv_def)
  have "fifo_len (key_fifo_store c f) = Suc ?l"
    using fifo_len_Suc [OF inv room] by (simp add: fifo_len_def)
  moreover have "key_fifo_data (key_fifo_store c f) = Some (d[fifo_slot f ?l := c])"
    using d by (simp add: key_fifo_store_def idx)
  ultimately show ?thesis
    using d ran diff [THEN not_sym] by (simp add: fifo_abs_def nth_list_update)
qed

lemma fifo_budget_store:
  "fifo_budget f - 1 \<le> fifo_budget (key_fifo_store c f)"
proof (cases "0 < fifo_budget f")
  case True
  then have "fifo_seamless f \<or> Suc (unat (key_fifo_write f)) < 2 ^ 32"
    by (auto simp: fifo_budget_def split: if_splits)
  then show ?thesis by (auto simp: fifo_budget_def unat_word_ariths)
qed simp

lemma key_fifo_store_inv:
  assumes inv: "fifo_inv f" and d: "key_fifo_data f = Some d"
    and room: "fifo_len f < fifo_cap f" and b: "0 < fifo_budget f"
  shows "fifo_inv (key_fifo_store c f)"
proof -
  have len: "fifo_len (key_fifo_store c f) = Suc (fifo_len f)"
    using fifo_len_Suc [OF inv room] by (simp add: fifo_len_def)
  have "key_fifo_read f \<le> key_fifo_write f + 1" if "\<not> fifo_seamless f"
  proof -
    have "Suc (unat (key_fifo_write f)) < 2 ^ 32"
      using that b by (simp add: fifo_budget_def)
    with inv that show ?thesis by (simp add: fifo_inv_def word_le_nat_alt unat_word_ariths)
  qed
  with inv d room len show ?thesis
    by (auto simp: fifo_inv_def key_fifo_store_def fifo_cap_def fifo_len_def fifo_seamless_def)
qed


subsection \<open>What the queue accepts\<close>

text \<open>
  The list of codes (none or one) that \<^verbatim>\<open>mplayer_put_key_internal\<close> appends, on the
  abstract queue: \<open>cap\<close> slots, \<open>len\<close> of them used.
\<close>

definition fifo_admit :: "nat \<Rightarrow> nat \<Rightarrow> c_int \<Rightarrow> c_int \<Rightarrow> c_int list" where
  "fifo_admit cap len prev code =
     (let free = cap - len in
      if free = 0 then []
      else if code AND MP_KEY_DOWN \<noteq> 0 \<and> free \<le> cap div 2 then []
      else if free = 1 then
        (if prev AND MP_KEY_RELEASE_ALL \<noteq> 0 then []
         else [(if code \<noteq> prev then 0 else code) OR MP_KEY_RELEASE_ALL])
      else [code])"

definition fifo_accept :: "key_fifo \<Rightarrow> c_int \<Rightarrow> c_int list" where
  "fifo_accept f code = fifo_admit (fifo_cap f) (fifo_len f) (previous_down_key f) code"

lemma put_key_cases:
  assumes inv: "fifo_inv f"
  shows "mplayer_put_key_internal code f =
     (case fifo_accept f code of [] \<Rightarrow> key_fifo_alloc f
      | c # cs \<Rightarrow> key_fifo_store c (key_fifo_alloc f))"
proof -
  let ?free = "key_fifo_read f + key_fifo_size f - key_fifo_write f"
  from inv have len: "fifo_len f \<le> fifo_cap f" and cap: "fifo_cap f \<le> 65000"
    by (simp_all add: fifo_inv_def)
  have free: "unat ?free = fifo_cap f - fifo_len f" using fifo_free_eq [OF len] .
  have sfree: "sint ?free = int (fifo_cap f - fifo_len f)"
    using free cap by (subst sint_small) simp_all
  have ssize: "sint (signed_drop_bit 1 (key_fifo_size f)) = int (fifo_cap f div 2)"
    using cap by (simp add: sint_signed_drop_bit_eq sint_small fifo_cap_def drop_bit_Suc zdiv_int)
  have z: "?free = 0 \<longleftrightarrow> fifo_cap f - fifo_len f = 0" using free by (simp add: unat_eq_zero flip: unat_0_iff)
  have o: "?free = 1 \<longleftrightarrow> fifo_cap f - fifo_len f = 1" using free by (metis unat_1 word_unat_eq_iff)
  have le: "sint ?free \<le> sint (signed_drop_bit 1 (key_fifo_size f))
      \<longleftrightarrow> fifo_cap f - fifo_len f \<le> fifo_cap f div 2"
    unfolding sfree ssize by (rule of_nat_le_iff)
  show ?thesis
    unfolding mplayer_put_key_internal_def Let_def fifo_accept_def fifo_admit_def
      key_fifo_alloc_simps le z o by simp
qed

lemma fifo_accept_room: "fifo_accept f code = c # cs \<Longrightarrow> fifo_len f < fifo_cap f \<and> cs = []"
  by (auto simp: fifo_accept_def fifo_admit_def Let_def split: if_splits)

lemma put_key_abs:
  assumes "fifo_inv f" and "0 < fifo_budget f"
  shows "fifo_abs (mplayer_put_key_internal code f) = fifo_abs f @ fifo_accept f code"
proof -
  obtain d where "key_fifo_data (key_fifo_alloc f) = Some d" using key_fifo_alloc_data by blast
  with assms show ?thesis
    using fifo_accept_room [of f code]
    by (auto simp: put_key_cases key_fifo_alloc_abs key_fifo_alloc_inv
        intro: key_fifo_store_abs [THEN trans] split: list.splits)
qed

lemma put_key_inv:
  assumes "fifo_inv f" and "0 < fifo_budget f"
  shows "fifo_inv (mplayer_put_key_internal code f)"
proof -
  obtain d where "key_fifo_data (key_fifo_alloc f) = Some d" using key_fifo_alloc_data by blast
  with assms show ?thesis
    using fifo_accept_room [of f code]
    by (auto simp: put_key_cases key_fifo_alloc_inv intro!: key_fifo_store_inv split: list.splits)
qed

lemma put_key_budget:
  "fifo_inv f \<Longrightarrow> fifo_budget f - 1 \<le> fifo_budget (mplayer_put_key_internal code f)"
  using fifo_budget_store [of "key_fifo_alloc f"]
  by (auto simp: put_key_cases split: list.splits)

lemma fifo_abs_length: "fifo_inv f \<Longrightarrow> length (fifo_abs f) = fifo_len f"
  by (auto simp: fifo_abs_def fifo_inv_def fifo_len_def split: option.splits)

lemma get_key_frame [simp]:
  "key_fifo_size (snd (mplayer_get_key f)) = key_fifo_size f"
  "key_fifo_write (snd (mplayer_get_key f)) = key_fifo_write f"
  "key_fifo_data (snd (mplayer_get_key f)) = key_fifo_data f"
  "previous_down_key (snd (mplayer_get_key f)) = previous_down_key f"
  by (auto simp: mplayer_get_key_def split: option.splits)

lemma get_key_budget: "fifo_budget (snd (mplayer_get_key f)) = fifo_budget f"
  by (simp add: fifo_budget_def fifo_seamless_def fifo_cap_def)

lemma get_key_Nil:
  assumes "fifo_inv f" and "fifo_abs f = []"
  shows "mplayer_get_key f = (MP_INPUT_NOTHING, f)"
proof -
  have "fifo_len f = 0" using fifo_abs_length [OF assms(1)] assms(2) by simp
  then have "key_fifo_write f = key_fifo_read f" by (simp add: fifo_len_def unat_eq_zero)
  then show ?thesis by (simp add: mplayer_get_key_def split: option.splits)
qed

lemma get_key_Cons:
  assumes inv: "fifo_inv f" and abs: "fifo_abs f = x # xs"
  shows "fst (mplayer_get_key f) = x" and "fifo_abs (snd (mplayer_get_key f)) = xs"
    and "fifo_inv (snd (mplayer_get_key f))"
proof -
  let ?g = "f\<lparr>key_fifo_read := key_fifo_read f + 1\<rparr>"
  from abs obtain d where d: "key_fifo_data f = Some d"
    by (auto simp: fifo_abs_def split: option.splits)
  have len: "fifo_len f = Suc (length xs)" using fifo_abs_length [OF inv] abs by simp
  then have pos: "1 \<le> key_fifo_write f - key_fifo_read f"
    by (simp add: fifo_len_def word_le_nat_alt)
  then have ne: "key_fifo_write f \<noteq> key_fifo_read f" by auto
  have get: "mplayer_get_key f = (d ! fifo_slot f 0, ?g)"
    using d ne by (simp add: mplayer_get_key_def fifo_slot_def)
  have glen: "fifo_len ?g = length xs"
  proof -
    have eq: "key_fifo_write f - (key_fifo_read f + 1) = (key_fifo_write f - key_fifo_read f) - 1" by simp
    have "unat (key_fifo_write f - (key_fifo_read f + 1)) = unat (key_fifo_write f - key_fifo_read f) - 1"
      unfolding eq using pos by (subst unat_sub) simp_all
    with len show ?thesis by (simp add: fifo_len_def)
  qed
  have gslot: "fifo_slot ?g i = fifo_slot f (Suc i)" for i
    by (simp add: fifo_slot_def add.assoc)
  have map: "x # xs = d ! fifo_slot f 0 # map (\<lambda>i. d ! fifo_slot f (Suc i)) [0..<length xs]"
    using abs d len by (simp add: fifo_abs_def map_upt_Suc_cons del: upt_Suc)
  show "fst (mplayer_get_key f) = x" using get map by simp
  show "fifo_abs (snd (mplayer_get_key f)) = xs"
    using get map d glen by (simp add: fifo_abs_def gslot)
  have "key_fifo_read f + 1 \<le> key_fifo_write f" if "\<not> fifo_seamless f"
  proof -
    have rw: "key_fifo_read f \<le> key_fifo_write f" using inv that by (simp add: fifo_inv_def)
    with ne have "key_fifo_read f < key_fifo_write f" by simp
    then show ?thesis by (simp add: inc_le)
  qed
  with get inv d glen len show "fifo_inv (snd (mplayer_get_key f))"
    by (auto simp: fifo_inv_def fifo_cap_def fifo_seamless_def)
qed


subsection \<open>The contract: a bounded queue\<close>

datatype 'a queue_op = Put 'a | Get

text \<open>
  Running a sequence of operations; \<open>q_returned\<close> collects what was taken from a non-empty
  queue and \<open>q_accepted\<close> what the queue let in.
\<close>

fun q_exec :: "('a \<Rightarrow> 's \<Rightarrow> 's) \<Rightarrow> ('s \<Rightarrow> 'a \<times> 's) \<Rightarrow> 'a queue_op list \<Rightarrow> 's \<Rightarrow> 's" where
  "q_exec put get [] s = s"
| "q_exec put get (Put x # ops) s = q_exec put get ops (put x s)"
| "q_exec put get (Get # ops) s = q_exec put get ops (snd (get s))"

fun q_returned :: "('s \<Rightarrow> 'a list) \<Rightarrow> ('a \<Rightarrow> 's \<Rightarrow> 's) \<Rightarrow> ('s \<Rightarrow> 'a \<times> 's)
    \<Rightarrow> 'a queue_op list \<Rightarrow> 's \<Rightarrow> 'a list" where
  "q_returned qlist put get [] s = []"
| "q_returned qlist put get (Put x # ops) s = q_returned qlist put get ops (put x s)"
| "q_returned qlist put get (Get # ops) s =
     (if qlist s = [] then [] else [fst (get s)]) @ q_returned qlist put get ops (snd (get s))"

fun q_accepted :: "('s \<Rightarrow> 'a \<Rightarrow> 'a list) \<Rightarrow> ('a \<Rightarrow> 's \<Rightarrow> 's) \<Rightarrow> ('s \<Rightarrow> 'a \<times> 's)
    \<Rightarrow> 'a queue_op list \<Rightarrow> 's \<Rightarrow> 'a list" where
  "q_accepted accept put get [] s = []"
| "q_accepted accept put get (Put x # ops) s =
     accept s x @ q_accepted accept put get ops (put x s)"
| "q_accepted accept put get (Get # ops) s = q_accepted accept put get ops (snd (get s))"

locale bounded_queue =
  fixes inv :: "'s \<Rightarrow> bool"
    and qlist :: "'s \<Rightarrow> 'a list"
    and budget :: "'s \<Rightarrow> nat"
    and accept :: "'s \<Rightarrow> 'a \<Rightarrow> 'a list"
    and put :: "'a \<Rightarrow> 's \<Rightarrow> 's"
    and get :: "'s \<Rightarrow> 'a \<times> 's"
    and nothing :: 'a
  assumes put_abs: "inv s \<Longrightarrow> 0 < budget s \<Longrightarrow> qlist (put x s) = qlist s @ accept s x"
    and put_inv: "inv s \<Longrightarrow> 0 < budget s \<Longrightarrow> inv (put x s)"
    and put_budget: "inv s \<Longrightarrow> budget s - 1 \<le> budget (put x s)"
    and get_empty: "inv s \<Longrightarrow> qlist s = [] \<Longrightarrow> get s = (nothing, s)"
    and get_val: "inv s \<Longrightarrow> qlist s = y # ys \<Longrightarrow> fst (get s) = y"
    and get_abs: "inv s \<Longrightarrow> qlist s = y # ys \<Longrightarrow> qlist (snd (get s)) = ys"
    and get_inv: "inv s \<Longrightarrow> qlist s = y # ys \<Longrightarrow> inv (snd (get s))"
    and get_budget: "budget (snd (get s)) = budget s"
begin

lemma get_keeps: "inv s \<Longrightarrow> inv (snd (get s))"
  by (cases "qlist s") (auto simp: get_empty intro: get_inv)

lemma run_order:
  "inv s \<Longrightarrow> length ops \<le> budget s \<Longrightarrow>
   inv (q_exec put get ops s) \<and>
   q_returned qlist put get ops s @ qlist (q_exec put get ops s)
     = qlist s @ q_accepted accept put get ops s"
proof (induction ops arbitrary: s)
  case Nil
  then show ?case by simp
next
  case (Cons op ops)
  show ?case
  proof (cases op)
    case (Put x)
    have "inv (put x s)" "length ops \<le> budget (put x s)"
      using Cons.prems put_budget [of s x] by (auto intro: put_inv)
    with Cons.IH [of "put x s"] Cons.prems Put show ?thesis by (simp add: put_abs)
  next
    case Get
    have "inv (snd (get s))" "length ops \<le> budget (snd (get s))"
      using Cons.prems by (simp_all add: get_keeps get_budget)
    with Cons.IH [of "snd (get s)"] Cons.prems Get show ?thesis
      by (cases "qlist s") (auto simp: get_empty get_val get_abs)
  qed
qed

lemma run_keeps:
  assumes "inv s" and "length ops \<le> budget s" and "P s"
    and "\<And>s x. inv s \<Longrightarrow> 0 < budget s \<Longrightarrow> P s \<Longrightarrow> P (put x s)"
    and "\<And>s. inv s \<Longrightarrow> P s \<Longrightarrow> P (snd (get s))"
  shows "P (q_exec put get ops s)"
  using assms(1-3)
proof (induction ops arbitrary: s)
  case Nil
  then show ?case by simp
next
  case (Cons op ops)
  show ?case
  proof (cases op)
    case (Put x)
    have "inv (put x s)" "length ops \<le> budget (put x s)" "P (put x s)"
      using Cons.prems put_budget [of s x] by (auto intro: put_inv assms(4))
    with Cons.IH Put show ?thesis by simp
  next
    case Get
    with Cons show ?thesis by (simp add: get_keeps get_budget assms(5))
  qed
qed

end

interpretation key_queue: bounded_queue fifo_inv fifo_abs fifo_budget fifo_accept
  mplayer_put_key_internal mplayer_get_key MP_INPUT_NOTHING
  by unfold_locales
    (auto simp: put_key_abs put_key_inv put_key_budget [simplified] get_key_Nil get_key_Cons get_key_budget)


subsection \<open>Properties of the key queue\<close>

lemma admit_full_release:
  assumes "fifo_accept f code = [c]" and "Suc (fifo_len f) = fifo_cap f"
  shows "c AND MP_KEY_RELEASE_ALL \<noteq> 0"
proof -
  have "c = (if code \<noteq> previous_down_key f then 0 else code) OR MP_KEY_RELEASE_ALL"
    using assms by (auto simp: fifo_accept_def fifo_admit_def Let_def split: if_splits)
  then have "c AND MP_KEY_RELEASE_ALL = MP_KEY_RELEASE_ALL" by (simp add: word_ao_absorbs)
  then show ?thesis by (simp add: MP_KEY_RELEASE_ALL_def)
qed

definition fifo_last_release :: "key_fifo \<Rightarrow> bool" where
  "fifo_last_release f \<longleftrightarrow>
     (fifo_len f = fifo_cap f \<longrightarrow> last (fifo_abs f) AND MP_KEY_RELEASE_ALL \<noteq> 0)"

lemma put_key_cap: "fifo_inv f \<Longrightarrow> fifo_cap (mplayer_put_key_internal code f) = fifo_cap f"
  by (simp add: put_key_cases split: list.splits)

lemma get_key_cap: "fifo_cap (snd (mplayer_get_key f)) = fifo_cap f"
  by (simp add: fifo_cap_def)

lemma put_key_last_release:
  assumes inv: "fifo_inv f" and b: "0 < fifo_budget f" and lr: "fifo_last_release f"
  shows "fifo_last_release (mplayer_put_key_internal code f)"
proof (cases "fifo_accept f code")
  case Nil
  with inv lr show ?thesis by (simp add: put_key_cases fifo_last_release_def key_fifo_alloc_abs)
next
  case (Cons c cs)
  then have room: "fifo_len f < fifo_cap f" and cs: "cs = []" using fifo_accept_room by auto
  have abs: "fifo_abs (mplayer_put_key_internal code f) = fifo_abs f @ [c]"
    using put_key_abs [OF inv b] Cons cs by simp
  then have len: "fifo_len (mplayer_put_key_internal code f) = Suc (fifo_len f)"
    using fifo_abs_length [OF put_key_inv [OF inv b, of code]] fifo_abs_length [OF inv] by simp
  show ?thesis
    using len put_key_cap [OF inv, of code] admit_full_release [of f code c] Cons cs abs by (simp add: fifo_last_release_def)
qed

lemma get_key_last_release:
  assumes inv: "fifo_inv f" and lr: "fifo_last_release f"
  shows "fifo_last_release (snd (mplayer_get_key f))"
proof (cases "fifo_abs f")
  case Nil
  with inv lr show ?thesis by (simp add: get_key_Nil)
next
  case (Cons x xs)
  have "fifo_len (snd (mplayer_get_key f)) = length xs"
    using get_key_Cons [OF inv Cons] fifo_abs_length by metis
  moreover have "Suc (length xs) \<le> fifo_cap f"
    using inv Cons fifo_abs_length [OF inv] by (simp add: fifo_inv_def)
  ultimately show ?thesis by (simp add: fifo_last_release_def fifo_cap_def)
qed

lemma uninit_inv:
  "2 \<le> fifo_cap f \<Longrightarrow> fifo_cap f \<le> 65000 \<Longrightarrow> fifo_inv (mplayer_key_fifo_uninit f)"
  by (simp add: fifo_inv_def mplayer_key_fifo_uninit_def fifo_cap_def fifo_len_def)

lemma uninit_abs: "fifo_abs (mplayer_key_fifo_uninit f) = []"
  by (simp add: fifo_abs_def mplayer_key_fifo_uninit_def)

lemma uninit_budget: "2 ^ 32 - 1 \<le> fifo_budget (mplayer_key_fifo_uninit f)"
  by (simp add: fifo_budget_def mplayer_key_fifo_uninit_def)

lemma uninit_last_release:
  "2 \<le> fifo_cap f \<Longrightarrow> fifo_last_release (mplayer_key_fifo_uninit f)"
  by (simp add: fifo_last_release_def mplayer_key_fifo_uninit_def fifo_len_def fifo_cap_def)

definition key_fifo_start :: "c_int \<Rightarrow> key_fifo" where
  "key_fifo_start sz = mplayer_key_fifo_uninit
     \<lparr>key_fifo_size = sz, key_fifo_data = None, key_fifo_read = 0, key_fifo_write = 0,
      previous_down_key = 0\<rparr>"

lemma start_cap [simp]: "fifo_cap (key_fifo_start sz) = unat sz"
  by (simp add: key_fifo_start_def mplayer_key_fifo_uninit_def fifo_cap_def)

lemma start_facts:
  assumes "2 \<le> unat sz" and "unat sz \<le> 65000"
  shows "fifo_inv (key_fifo_start sz)" "fifo_abs (key_fifo_start sz) = []"
    "2 ^ 32 - 1 \<le> fifo_budget (key_fifo_start sz)" "fifo_last_release (key_fifo_start sz)"
  using assms uninit_budget
  by (simp_all only: key_fifo_start_def, auto intro!: uninit_inv uninit_last_release
      simp: uninit_abs fifo_cap_def)

text \<open>
  C2. Between initialisation and the 4294967295th key event, the ring is a first-in first-out queue:
  whatever the drivers and the input layer do, the codes taken out, followed by the codes
  still queued, are exactly the codes that were let in, in order.
\<close>

theorem key_fifo_order:
  assumes "2 \<le> unat sz" and "unat sz \<le> 65000" and "length ops < 2 ^ 32"
  shows "q_returned fifo_abs mplayer_put_key_internal mplayer_get_key ops (key_fifo_start sz)
         @ fifo_abs (q_exec mplayer_put_key_internal mplayer_get_key ops (key_fifo_start sz))
       = q_accepted fifo_accept mplayer_put_key_internal mplayer_get_key ops (key_fifo_start sz)"
  using key_queue.run_order [of "key_fifo_start sz" ops] start_facts [OF assms(1,2)] assms(3)
  by simp

theorem key_fifo_order_witness:
  "q_returned fifo_abs mplayer_put_key_internal mplayer_get_key
       [Put 65, Put 66, Get] (key_fifo_start 7)
     @ fifo_abs (q_exec mplayer_put_key_internal mplayer_get_key
       [Put 65, Put 66, Get] (key_fifo_start 7)) = [65, 66]"
proof -
  have "q_accepted fifo_accept mplayer_put_key_internal mplayer_get_key
       [Put 65, Put 66, Get] (key_fifo_start 7) = [65, 66]"
    by code_simp
  then show ?thesis using key_fifo_order [of 7 "[Put 65, Put 66, Get]"] by simp
qed

text \<open>
  The last free slot is only ever filled by an event that resets the key state: in every
  state the queue can reach, a full queue ends in a code with \<^verbatim>\<open>MP_KEY_RELEASE_ALL\<close> set.
\<close>

theorem full_fifo_ends_in_release_all:
  assumes "2 \<le> unat sz" and "unat sz \<le> 65000" and "length ops < 2 ^ 32"
    and "f = q_exec mplayer_put_key_internal mplayer_get_key ops (key_fifo_start sz)"
    and "length (fifo_abs f) = unat sz"
  shows "last (fifo_abs f) AND MP_KEY_RELEASE_ALL \<noteq> 0"
proof -
  let ?P = "\<lambda>f. fifo_last_release f \<and> fifo_cap f = unat sz"
  note st = start_facts [OF assms(1,2)]
  have "?P f" unfolding assms(4)
    using st assms(3)
    by (intro key_queue.run_keeps [where P = ?P])
      (auto intro: put_key_last_release get_key_last_release simp: put_key_cap get_key_cap)
  moreover have "fifo_inv f"
    using key_queue.run_order [OF st(1), of ops] st(3) assms(3,4) by simp
  ultimately show ?thesis
    using assms(5) fifo_abs_length [of f] by (simp add: fifo_last_release_def)
qed

theorem full_fifo_ends_in_release_all_witness:
  "last (fifo_abs (q_exec mplayer_put_key_internal mplayer_get_key
     [Put 65, Put 66] (key_fifo_start 2))) AND MP_KEY_RELEASE_ALL \<noteq> 0"
proof (rule full_fifo_ends_in_release_all [of 2 "[Put 65, Put 66]", OF _ _ _ refl])
  show "length (fifo_abs (q_exec mplayer_put_key_internal mplayer_get_key
     [Put 65, Put 66] (key_fifo_start 2))) = unat (2 :: 32 word)" by code_simp
qed simp_all



text \<open>The state after \<open>n\<close> key events that were each read at once.\<close>

definition key_fifo_rounds :: "nat \<Rightarrow> key_fifo \<Rightarrow> key_fifo" where
  "key_fifo_rounds n = q_exec mplayer_put_key_internal mplayer_get_key
     (concat (replicate n [Put 65, Get]))"

lemma key_fifo_round:
  assumes "key_fifo_size f = 7" and "key_fifo_read f = w" and "key_fifo_write f = w"
    and "previous_down_key f = 0" and "\<forall>d. key_fifo_data f = Some d \<longrightarrow> length d = 7"
  shows "\<exists>d. length d = 7 \<and> snd (mplayer_get_key (mplayer_put_key_internal 65 f))
    = \<lparr>key_fifo_size = 7, key_fifo_data = Some d, key_fifo_read = w + 1,
       key_fifo_write = w + 1, previous_down_key = 0\<rparr>"
proof -
  have len: "fifo_len f = 0" and cap: "fifo_cap f = 7"
    using assms by (simp_all add: fifo_len_def fifo_cap_def)
  have inv: "fifo_inv f" using assms len cap by (auto simp: fifo_inv_def split: option.splits)
  have down: "(65 :: c_int) AND MP_KEY_DOWN = 0" "(65 :: c_int) AND MP_KEY_RELEASE_ALL = 0"
    by code_simp+
  have put: "mplayer_put_key_internal 65 f = key_fifo_store 65 (key_fifo_alloc f)"
    using inv down by (simp add: put_key_cases fifo_accept_def fifo_admit_def len cap)
  obtain d where d: "key_fifo_alloc f = \<lparr>key_fifo_size = 7, key_fifo_data = Some d,
      key_fifo_read = w, key_fifo_write = w, previous_down_key = 0\<rparr>" "length d = 7"
    using assms by (cases f; cases "key_fifo_data f") (auto simp: key_fifo_alloc_def)
  show ?thesis
    using d down by (simp add: put mplayer_get_key_def key_fifo_store_def)
qed

lemma q_exec_append:
  "q_exec put get (xs @ ys) s = q_exec put get ys (q_exec put get xs s)"
  by (induction put get xs s rule: q_exec.induct) simp_all

lemma key_fifo_rounds_state:
  "\<exists>d. length d = 7 \<and> key_fifo_rounds (Suc n) (key_fifo_start 7)
    = \<lparr>key_fifo_size = 7, key_fifo_data = Some d, key_fifo_read = of_nat (Suc n),
       key_fifo_write = of_nat (Suc n), previous_down_key = 0\<rparr>"
proof (induction n)
  case 0
  show ?case
    using key_fifo_round [of "key_fifo_start 7" 0]
    by (simp add: key_fifo_rounds_def key_fifo_start_def mplayer_key_fifo_uninit_def)
next
  case (Suc n)
  then obtain d where d: "length d = 7" "key_fifo_rounds (Suc n) (key_fifo_start 7)
    = \<lparr>key_fifo_size = 7, key_fifo_data = Some d, key_fifo_read = of_nat (Suc n),
       key_fifo_write = of_nat (Suc n), previous_down_key = 0\<rparr>" by blast
  have "replicate (Suc (Suc n)) x = replicate (Suc n) x @ [x]" for x :: "c_int queue_op list"
    by (simp add: replicate_append_same)
  then have step: "key_fifo_rounds (Suc (Suc n)) (key_fifo_start 7)
    = snd (mplayer_get_key (mplayer_put_key_internal 65 (key_fifo_rounds (Suc n) (key_fifo_start 7))))"
    by (simp only: key_fifo_rounds_def concat_append q_exec_append) simp
  show ?case
    unfolding step d(2)
    using key_fifo_round [of "\<lparr>key_fifo_size = 7, key_fifo_data = Some d,
      key_fifo_read = of_nat (Suc n), key_fifo_write = of_nat (Suc n), previous_down_key = 0\<rparr>"
      "of_nat (Suc n)"] d(1) by (simp add: algebra_simps)
qed

lemma list7_cases: "length d = 7 \<Longrightarrow> \<exists>a b c e f g h. d = [a, b, c, e, f, g, h]"
  by (simp add: length_Suc_conv eval_nat_numeral) auto

text \<open>
  The counters are reduced modulo a size that need not divide \<open>2 ^ 32\<close>: with the default
  size 7, after 4294967292 events that were each read at once, six more key events are not
  returned in order. The first one read is the fifth one sent.
\<close>

theorem key_fifo_counter_wrap_reorders:
  "\<exists>ops. q_exec mplayer_put_key_internal mplayer_get_key ops (key_fifo_start 7)
       = key_fifo_rounds 4294967292 (key_fifo_start 7)
     \<and> fifo_abs (key_fifo_rounds 4294967292 (key_fifo_start 7)) = []
     \<and> fst (mplayer_get_key (q_exec mplayer_put_key_internal mplayer_get_key
          (ops @ map Put [1, 2, 3, 4, 5, 6]) (key_fifo_start 7))) = 5"
proof -
  let ?ops = "concat (replicate 4294967292 [Put 65, Get]) :: c_int queue_op list"
  let ?f = "key_fifo_rounds 4294967292 (key_fifo_start 7)"
  obtain d where "length d = 7" and f: "?f
    = \<lparr>key_fifo_size = 7, key_fifo_data = Some d, key_fifo_read = 4294967292,
       key_fifo_write = 4294967292, previous_down_key = 0\<rparr>"
    using key_fifo_rounds_state [of 4294967291] by auto
  moreover obtain a b c e g h i where "d = [a, b, c, e, g, h, i]"
    using list7_cases [OF \<open>length d = 7\<close>] by blast
  ultimately have "fst (mplayer_get_key (q_exec mplayer_put_key_internal mplayer_get_key
      (map Put [1, 2, 3, 4, 5, 6]) ?f)) = 5"
    by (simp add: mplayer_put_key_internal_def key_fifo_alloc_def key_fifo_store_def Let_def
        mplayer_get_key_def MP_KEY_DOWN_def MP_KEY_RELEASE_ALL_def)
  moreover have "fifo_abs ?f = []" using f by (simp add: fifo_abs_def fifo_len_def)
  moreover have "q_exec mplayer_put_key_internal mplayer_get_key ?ops (key_fifo_start 7) = ?f"
    by (simp only: key_fifo_rounds_def)
  ultimately show ?thesis by (intro exI [of _ ?ops]) (simp only: q_exec_append simp_thms)
qed


subsection \<open>Double clicks\<close>

lemma or_and_not_down:
  "b AND MP_KEY_DOWN = 0 \<Longrightarrow> (b OR MP_KEY_DOWN) AND NOT MP_KEY_DOWN = b"
  "b AND MP_KEY_DOWN = 0 \<Longrightarrow> b AND NOT MP_KEY_DOWN = b"
  by (auto intro!: bit_word_eqI simp: bit_simps bit_eq_iff)

lemma MP_KEY_DOWN_nonzero [simp]: "MP_KEY_DOWN \<noteq> 0"
  by (simp add: MP_KEY_DOWN_def)

definition is_mouse_button :: "c_int \<Rightarrow> bool" where
  "is_mouse_button b \<longleftrightarrow> b AND MP_KEY_DOWN = 0
     \<and> sint MOUSE_BTN0 \<le> sint b \<and> sint b \<le> sint MOUSE_BTN_LAST"

lemma mouse_button_not_dbl: "is_mouse_button b \<Longrightarrow> \<not> sint MOUSE_BTN0_DBL \<le> sint b"
proof -
  have "sint MOUSE_BTN_LAST < sint MOUSE_BTN0_DBL" by (simp add: key_consts)
  then show "is_mouse_button b \<Longrightarrow> \<not> sint MOUSE_BTN0_DBL \<le> sint b"
    by (simp add: is_mouse_button_def)
qed

lemma put_key_press:
  assumes "is_mouse_button b"
  shows "mplayer_put_key now (b OR MP_KEY_DOWN) k =
    k\<lparr>fifo := (if last_key0 k = b \<and> now - last_key_time0 k < doubleclick_time k
              then mplayer_put_key_internal (b - MOUSE_BTN0 + MOUSE_BTN0_DBL) else id)
              (mplayer_put_key_internal (b OR MP_KEY_DOWN) (fifo k)),
      last_key1 := last_key0 k, last_key0 := b,
      last_key_time1 := last_key_time0 k, last_key_time0 := now\<rparr>"
  using assms mouse_button_not_dbl [OF assms]
  by (simp add: mplayer_put_key_def put_double_def is_mouse_button_def or_and_not_down
      Let_def)

lemma put_key_release:
  assumes "is_mouse_button b"
  shows "mplayer_put_key now b k =
    k\<lparr>fifo := (if last_key0 k = b \<and> last_key1 k = b \<and> now - last_key_time1 k < doubleclick_time k
              then mplayer_put_key_internal (b - MOUSE_BTN0 + MOUSE_BTN0_DBL) else id)
              (mplayer_put_key_internal b (fifo k))\<rparr>"
  using assms mouse_button_not_dbl [OF assms]
  by (simp add: mplayer_put_key_def put_double_def is_mouse_button_def or_and_not_down Let_def)

text \<open>
  Two clicks on one mouse button: besides the four events themselves the queue is sent a
  double-click event with the second press if that press came within \<open>doubleclick_time\<close> of
  the first one, and again with the second release if the release still did.
\<close>

theorem doubleclick_events:
  assumes "is_mouse_button b" and "last_key0 k \<noteq> b" and "d = doubleclick_time k"
  shows "fifo (mplayer_put_key t3 b (mplayer_put_key t2 (b OR MP_KEY_DOWN)
           (mplayer_put_key t1 b (mplayer_put_key t0 (b OR MP_KEY_DOWN) k))))
       = fold mplayer_put_key_internal
           ([b OR MP_KEY_DOWN, b, b OR MP_KEY_DOWN]
            @ (if t2 - t0 < d then [b - MOUSE_BTN0 + MOUSE_BTN0_DBL] else [])
            @ [b] @ (if t3 - t0 < d then [b - MOUSE_BTN0 + MOUSE_BTN0_DBL] else []))
           (fifo k)"
  using assms by (simp add: put_key_press put_key_release)

theorem doubleclick_events_witness:
  "fifo (mplayer_put_key 300 MOUSE_BTN0 (mplayer_put_key 250 (MOUSE_BTN0 OR MP_KEY_DOWN)
     (mplayer_put_key 180 MOUSE_BTN0 (mplayer_put_key 100 (MOUSE_BTN0 OR MP_KEY_DOWN)
       \<lparr>fifo = key_fifo_start 7, doubleclick_time = 300, last_key_time0 = 0,
        last_key_time1 = 0, last_key0 = 0, last_key1 = 0\<rparr>))))
   = fold mplayer_put_key_internal
       [MOUSE_BTN0 OR MP_KEY_DOWN, MOUSE_BTN0, MOUSE_BTN0 OR MP_KEY_DOWN, MOUSE_BTN0_DBL,
        MOUSE_BTN0, MOUSE_BTN0_DBL] (key_fifo_start 7)"
proof -
  let ?k = "\<lparr>fifo = key_fifo_start 7, doubleclick_time = 300, last_key_time0 = 0,
        last_key_time1 = 0, last_key0 = 0, last_key1 = 0\<rparr>"
  have "is_mouse_button MOUSE_BTN0" "last_key0 ?k \<noteq> MOUSE_BTN0"
    by (simp_all add: is_mouse_button_def key_consts)
  from doubleclick_events [OF this, of 300 300 250 180 100]
  show ?thesis by simp
qed

end
