(* ===== verification/C_String.thy ===== *)
theory C_String
  imports MP_Prelude
begin

text \<open>
  C strings as the components use them: character classes, case-insensitive comparison
  (\<^verbatim>\<open>av_strcasecmp\<close> of FFmpeg's libavutil), searching, decimal output and input, each with
  the lemmas that the parsers share. Characters are bytes; the locale is the C locale.
\<close>

subsection \<open>C strings\<close>

text \<open>
  A C string is the list of its characters before the terminating NUL. \<open>c_str\<close> is what
  later calls see of a buffer that the code filled, possibly with a NUL in the middle.
\<close>

definition c_str :: "string \<Rightarrow> string" where
  "c_str s = takeWhile (\<lambda>c. c \<noteq> CHR 0x00) s"

definition in_range :: "char \<Rightarrow> char \<Rightarrow> char \<Rightarrow> bool" where
  "in_range a b c \<longleftrightarrow> (of_char a :: nat) \<le> of_char c \<and> (of_char c :: nat) \<le> of_char b"

definition c_isdigit :: "char \<Rightarrow> bool" where
  "c_isdigit c \<longleftrightarrow> in_range CHR ''0'' CHR ''9'' c"

definition c_toupper :: "char \<Rightarrow> char" where
  "c_toupper c = (if in_range CHR ''a'' CHR ''z'' c then char_of ((of_char c :: nat) - 32) else c)"

definition c_tolower :: "char \<Rightarrow> char" where
  "c_tolower c = (if in_range CHR ''A'' CHR ''Z'' c then char_of ((of_char c :: nat) + 32) else c)"

text \<open>\<^verbatim>\<open>av_strcasecmp\<close> as an equality test, and \<^verbatim>\<open>av_strncasecmp\<close> on the first \<open>n\<close> characters.\<close>

definition strcaseeq :: "string \<Rightarrow> string \<Rightarrow> bool" where
  "strcaseeq s t \<longleftrightarrow> map c_tolower s = map c_tolower t"

definition strncaseeq :: "nat \<Rightarrow> string \<Rightarrow> string \<Rightarrow> bool" where
  "strncaseeq n s t \<longleftrightarrow> map c_tolower (take n s) = map c_tolower (take n t)"

text \<open>\<^verbatim>\<open>strstr\<close> and \<^verbatim>\<open>strchr\<close>: the offset of the first occurrence.\<close>

fun is_prefix :: "'a list \<Rightarrow> 'a list \<Rightarrow> bool" where
  "is_prefix [] s = True"
| "is_prefix (p # ps) (c # s) = (p = c \<and> is_prefix ps s)"
| "is_prefix (p # ps) [] = False"

fun strstr :: "string \<Rightarrow> string \<Rightarrow> nat option" where
  "strstr [] needle = (if needle = [] then Some 0 else None)"
| "strstr (c # s) needle =
     (if is_prefix needle (c # s) then Some 0 else map_option Suc (strstr s needle))"

definition strstr_from :: "string \<Rightarrow> nat \<Rightarrow> string \<Rightarrow> nat option" where
  "strstr_from s off needle = map_option (\<lambda>k. off + k) (strstr (drop off s) needle)"

fun strrchr :: "string \<Rightarrow> char \<Rightarrow> nat option" where
  "strrchr [] c = None"
| "strrchr (x # s) c = (case strrchr s c of Some k \<Rightarrow> Some (Suc k)
     | None \<Rightarrow> if x = c then Some 0 else None)"

text \<open>Decimal output (\<^verbatim>\<open>%d\<close>) and input (\<^verbatim>\<open>atoi\<close>, with the 64-bit \<^verbatim>\<open>long\<close> it goes through).\<close>

definition digit_char :: "nat \<Rightarrow> char" where
  "digit_char d = char_of (48 + d)"

fun show_nat :: "nat \<Rightarrow> string" where
  "show_nat n = (if n < 10 then [digit_char n] else show_nat (n div 10) @ [digit_char (n mod 10)])"

declare show_nat.simps [simp del]

definition show_int :: "int \<Rightarrow> string" where
  "show_int i = (if i < 0 then CHR ''-'' # show_nat (nat (- i)) else show_nat (nat i))"

definition digit_val :: "char \<Rightarrow> nat" where
  "digit_val c = of_char c - 48"

fun read_digits :: "string \<Rightarrow> nat \<Rightarrow> nat" where
  "read_digits [] acc = acc"
| "read_digits (c # s) acc = (if c_isdigit c then read_digits s (10 * acc + digit_val c) else acc)"

definition c_isspace :: "char \<Rightarrow> bool" where
  "c_isspace c \<longleftrightarrow> c = CHR '' '' \<or> in_range CHR 0x09 CHR 0x0D c"

definition clamp_long :: "int \<Rightarrow> int" where
  "clamp_long i = max (- (2 ^ 63)) (min (2 ^ 63 - 1) i)"

definition atoi :: "string \<Rightarrow> c_int" where
  "atoi s = (case dropWhile c_isspace s of
       [] \<Rightarrow> 0
     | c # r \<Rightarrow> word_of_int (clamp_long
         (if c = CHR ''-'' then - int (read_digits r 0)
          else if c = CHR ''+'' then int (read_digits r 0)
          else int (read_digits (c # r) 0))))"

subsection \<open>Lemmas\<close>

lemma is_prefix_append: "is_prefix p s \<longleftrightarrow> (\<exists>r. s = p @ r)"
  by (induction p s rule: is_prefix.induct) auto

lemma strstr_Some:
  "strstr s needle = Some k \<Longrightarrow> \<exists>r. drop k s = needle @ r \<and> k \<le> length s"
  by (induction s arbitrary: k) (auto simp: is_prefix_append split: if_splits)

lemma strstr_None_iff: "strstr s needle = None \<longleftrightarrow> (\<forall>xs ys. s \<noteq> xs @ needle @ ys)"
proof (induction s)
  case Nil
  then show ?case by auto
next
  case (Cons c s)
  show ?case
  proof
    assume L: "strstr (c # s) needle = None"
    then have "\<not> is_prefix needle (c # s)" "\<forall>xs ys. s \<noteq> xs @ needle @ ys"
      using Cons by (auto split: if_splits)
    then show "\<forall>xs ys. c # s \<noteq> xs @ needle @ ys"
      by (auto simp: is_prefix_append Cons_eq_append_conv)
  next
    assume R: "\<forall>xs ys. c # s \<noteq> xs @ needle @ ys"
    have "\<not> is_prefix needle (c # s)"
      using R [rule_format, of "[]"] by (auto simp: is_prefix_append)
    moreover have "\<forall>xs ys. s \<noteq> xs @ needle @ ys" using R by (metis append_Cons)
    ultimately show "strstr (c # s) needle = None" using Cons by simp
  qed
qed

lemma strstr_single_None: "strstr s [c] = None \<longleftrightarrow> c \<notin> set s"
  by (induction s) auto

lemma strstr_single_append: "c \<notin> set xs \<Longrightarrow> strstr (xs @ c # ys) [c] = Some (length xs)"
  by (induction xs) auto

lemma strstr_skip:
  assumes "n # ns = needle" and "n \<notin> set xs"
  shows "strstr (xs @ ys) needle = map_option (\<lambda>k. length xs + k) (strstr ys needle)"
  using assms by (cases "strstr ys needle"; induction xs) auto

lemma strcaseeq_refl [simp]: "strcaseeq s s"
  by (simp add: strcaseeq_def)

lemma read_digits_append:
  "\<forall>c \<in> set ds. c_isdigit c \<Longrightarrow> read_digits (ds @ rest) acc = read_digits rest (read_digits ds acc)"
  by (induction ds arbitrary: acc) auto

lemma digit_char_props:
  assumes "d < 10"
  shows "c_isdigit (digit_char d)" and "digit_val (digit_char d) = d"
    and "\<not> c_isspace (digit_char d)" and "digit_char d \<noteq> CHR ''-''" and "digit_char d \<noteq> CHR ''+''"
proof -
  have "list_all (\<lambda>d. c_isdigit (digit_char d) \<and> digit_val (digit_char d) = d
      \<and> \<not> c_isspace (digit_char d) \<and> digit_char d \<noteq> CHR ''-'' \<and> digit_char d \<noteq> CHR ''+'')
    [0..<10]" by code_simp
  with assms show "c_isdigit (digit_char d)" and "digit_val (digit_char d) = d"
    and "\<not> c_isspace (digit_char d)" and "digit_char d \<noteq> CHR ''-''" and "digit_char d \<noteq> CHR ''+''"
    by (auto simp: list_all_iff)
qed

lemma show_nat_digits: "\<forall>c \<in> set (show_nat n). c_isdigit c"
  by (induction n rule: show_nat.induct) (subst show_nat.simps, auto simp: digit_char_props)

lemma show_nat_nonempty: "show_nat n \<noteq> []"
  by (subst show_nat.simps) simp

lemma read_show_nat: "read_digits (show_nat n) 0 = n"
proof (induction n rule: show_nat.induct)
  case (1 n)
  show ?case
  proof (cases "n < 10")
    case True
    then show ?thesis by (subst show_nat.simps) (simp add: digit_char_props)
  next
    case False
    with 1 show ?thesis
      by (subst show_nat.simps) (simp add: read_digits_append show_nat_digits digit_char_props)
  qed
qed

lemma read_digits_stop: "s = [] \<or> \<not> c_isdigit (hd s) \<Longrightarrow> read_digits s acc = acc"
  by (cases s) auto

lemma digit_not_space: "c_isdigit c \<Longrightarrow> \<not> c_isspace c \<and> c \<noteq> CHR ''-'' \<and> c \<noteq> CHR ''+''"
  by (auto simp: c_isdigit_def c_isspace_def in_range_def)

text \<open>\<^verbatim>\<open>atoi\<close> reads back what \<^verbatim>\<open>%d\<close> printed, whatever non-digit follows.\<close>

lemma atoi_show_nat:
  assumes "n < 2 ^ 31" and "rest = [] \<or> \<not> c_isdigit (hd rest)"
  shows "atoi (show_nat n @ rest) = of_nat n"
proof -
  obtain c r where cr: "show_nat n = c # r" using show_nat_nonempty by (cases "show_nat n") auto
  then have dig: "c_isdigit c" using show_nat_digits [of n] by simp
  have "read_digits (show_nat n @ rest) 0 = n"
    using assms(2) by (simp add: read_digits_append show_nat_digits read_show_nat read_digits_stop)
  moreover have "clamp_long (int n) = int n" using assms(1) by (simp add: clamp_long_def)
  ultimately show ?thesis
    using dig digit_not_space [OF dig] cr by (simp add: atoi_def)
qed

end
