(* ===== verification/Url.thy ===== *)
theory Url
  imports C_String
begin

text \<open>
  URL handling of \<^verbatim>\<open>stream/url.c\<close>: percent escaping and unescaping, the parser
  \<^verbatim>\<open>url_new\<close> with its IPv6, port and credential rules, proxy URLs and redirects. Pointers
  into the escaped URL are offsets; allocation failure is not modelled.
\<close>

subsection \<open>Unescaping and escaping\<close>

definition is_hex :: "char \<Rightarrow> bool" where
  "is_hex c \<longleftrightarrow> in_range CHR ''0'' CHR ''9'' (c_toupper c) \<or> in_range CHR ''A'' CHR ''F'' (c_toupper c)"

definition hex_val :: "char \<Rightarrow> nat" where
  "hex_val c = (if in_range CHR ''0'' CHR ''9'' (c_toupper c) then of_char (c_toupper c) - 48
                else of_char (c_toupper c) - 55)"

fun url_unescape_string :: "string \<Rightarrow> string" where
  "url_unescape_string (c # c1 # c2 # rest) =
     (if c = CHR ''%'' \<and> is_hex c1 \<and> is_hex c2
      then char_of (16 * hex_val c1 + hex_val c2) # url_unescape_string rest
      else c # url_unescape_string (c1 # c2 # rest))"
| "url_unescape_string [c, c1] = [c, c1]"
| "url_unescape_string [c] = [c]"
| "url_unescape_string [] = []"

definition is_alnum :: "char \<Rightarrow> bool" where
  "is_alnum c \<longleftrightarrow> in_range CHR ''A'' CHR ''Z'' c \<or> in_range CHR ''a'' CHR ''z'' c
     \<or> in_range CHR ''0'' CHR ''9'' c"

definition hex_digit :: "nat \<Rightarrow> char" where
  "hex_digit n = (if n < 10 then char_of (n + 48) else char_of (n + 55))"

text \<open>Whether the character starts an escape sequence: two more characters follow, both hex digits.\<close>

definition starts_escape :: "char \<Rightarrow> string \<Rightarrow> bool" where
  "starts_escape c rest \<longleftrightarrow> c = CHR ''%'' \<and>
     (case rest of c1 # c2 # _ \<Rightarrow> is_hex c1 \<and> is_hex c2 | _ \<Rightarrow> False)"

fun url_escape_string_part :: "string \<Rightarrow> string" where
  "url_escape_string_part [] = []"
| "url_escape_string_part (c # rest) =
     (if is_alnum c then [c]
      else if starts_escape c rest then [c]
      else [CHR ''%'', hex_digit (of_char c div 16), hex_digit (of_char c mod 16)])
     @ url_escape_string_part rest"

definition url_reserved :: "char \<Rightarrow> bool" where
  "url_reserved c \<longleftrightarrow> c \<in> set ''-_.!~*'' \<or> c = CHR 0x27 \<or> c \<in> set ''();/?:@&=+$,''"

text \<open>
  The loop of \<^verbatim>\<open>url_escape_string\<close> after the IPv6 prefix: reserved characters are copied,
  each run of other characters is unescaped and escaped again.
\<close>

function url_escape_body :: "string \<Rightarrow> string" where
  "url_escape_body [] = []"
| "url_escape_body (c # rest) =
     (if url_reserved c then c # url_escape_body rest
      else url_escape_string_part (c_str (url_unescape_string
             (takeWhile (\<lambda>x. \<not> url_reserved x) (c # rest))))
           @ url_escape_body (dropWhile (\<lambda>x. \<not> url_reserved x) (c # rest)))"
  by pat_completeness auto
termination
  by (relation "measure length") (auto simp: le_imp_less_Suc length_dropWhile_le)

text \<open>The length of the IPv6 authority that is copied unchanged, 0 if there is none.\<close>

definition ipv6_skip :: "string \<Rightarrow> nat" where
  "ipv6_skip s = (case strstr s ''://['' of None \<Rightarrow> 0
     | Some k \<Rightarrow> (case strstr_from s (k + 4) '']'' of None \<Rightarrow> 0
        | Some j \<Rightarrow> (case drop (j + 1) s of [] \<Rightarrow> j + 1
            | x # _ \<Rightarrow> if x = CHR ''/'' \<or> x = CHR '':'' then j + 1 else 0)))"

definition url_escape_string :: "string \<Rightarrow> string" where
  "url_escape_string s = take (ipv6_skip s) s @ url_escape_body (drop (ipv6_skip s) s)"

subsection \<open>Parsing\<close>

record url_t =
  url :: string
  noauth_url :: string
  protocol :: string
  hostname :: string
  ufile :: string
  port :: u32
  username :: "string option"
  password :: "string option"

text \<open>
  The result of \<^verbatim>\<open>url_new\<close>. \<open>Url_Undefined\<close> is the branch for \<^verbatim>\<open>sip:\<close> URLs, in which the
  code subtracts pointers into two different buffers.
\<close>

datatype url_result = Url_NULL | Url_Undefined | Url_Ok url_t

definition get_noauth_url :: "url_t \<Rightarrow> string" where
  "get_noauth_url u =
     (if port u \<noteq> 0
      then protocol u @ ''://'' @ hostname u @ '':'' @ show_int (sint (port u)) @ ufile u
      else protocol u @ ''://'' @ hostname u @ ufile u)"

definition get_http_proxy_url :: "url_t \<Rightarrow> string \<Rightarrow> string" where
  "get_http_proxy_url proxy host_url =
     (case username proxy of
       Some user \<Rightarrow> ''http_proxy://'' @ user @ '':''
         @ (case password proxy of Some pw \<Rightarrow> pw | None \<Rightarrow> []) @ ''@''
         @ hostname proxy @ '':'' @ show_int (sint (port proxy)) @ ''/'' @ host_url
     | None \<Rightarrow> ''http_proxy://'' @ hostname proxy @ '':''
         @ show_int (sint (port proxy)) @ ''/'' @ host_url)"

text \<open>
  Credentials: what follows offset \<open>p\<close>, up to a \<^verbatim>\<open>@\<close> that no \<^verbatim>\<open>/\<close> precedes. The result is
  the user name, the password and the offset where the host starts.
\<close>

definition url_credentials :: "string \<Rightarrow> nat \<Rightarrow> string option \<times> string option \<times> nat" where
  "url_credentials s p =
     (let ptr2 = strstr_from s p ''@'';
          ptr3 = strstr_from s p ''/'';
          ptr2 = (case (ptr3, ptr2) of (Some k3, Some k2) \<Rightarrow> if k3 < k2 then None else Some k2
                  | _ \<Rightarrow> ptr2)
      in case ptr2 of None \<Rightarrow> (None, None, p)
         | Some k2 \<Rightarrow>
           let user = take (k2 - p) (drop p s) in
           (case strstr_from s p '':'' of
              Some k3 \<Rightarrow>
                if k3 < k2 then
                  (Some (c_str (url_unescape_string (take (k3 - p) user))),
                   Some (c_str (url_unescape_string (take (k2 - k3 - 1) (drop (k3 + 1) s)))),
                   k2 + 1)
                else (Some (c_str (url_unescape_string user)), None, k2 + 1)
            | None \<Rightarrow> (Some (c_str (url_unescape_string user)), None, k2 + 1)))"

text \<open>
  Host and port from offset \<open>p\<close>: the host name spans \<open>[pos1, pos2)\<close>. The last component is the
  offset from which the path is searched.
\<close>

definition url_authority :: "string \<Rightarrow> nat \<Rightarrow> nat \<times> nat \<times> u32" where
  "url_authority s p =
     (let b2 = strstr_from s p ''['';
          b3 = strstr_from s p '']'';
          b4 = strstr_from s p ''/'';
          v6addr = (case (b2, b3) of (Some k2, Some k3) \<Rightarrow>
                      k2 < k3 \<and> (case b4 of None \<Rightarrow> True | Some k4 \<Rightarrow> k4 > k3)
                    | _ \<Rightarrow> False);
          pos1 = (if v6addr then p + 1 else p);
          ptr2 = strstr_from s (if v6addr then the b3 else p) '':'';
          ptr3 = strstr_from s pos1 ''/'';
          ptr2 = (case (ptr3, ptr2) of (Some k3, Some k2) \<Rightarrow> if k3 < k2 then None else Some k2
                  | _ \<Rightarrow> ptr2);
          pos2 = (case ptr2 of
                    Some k2 \<Rightarrow> k2
                  | None \<Rightarrow> (case ptr3 of None \<Rightarrow> length s | Some k3 \<Rightarrow> k3));
          prt = (case ptr2 of Some k2 \<Rightarrow> atoi (drop (k2 + 1) s) | None \<Rightarrow> 0)
      in (pos1, if v6addr then pos2 - 1 else pos2, prt))"

definition url_path :: "string \<Rightarrow> nat \<Rightarrow> string" where
  "url_path s pos1 = (case strstr_from s pos1 ''/'' of
     Some k \<Rightarrow> if length (drop k s) > 1 then drop k s else ''/''
   | None \<Rightarrow> ''/'')"

definition SIZE_MAX :: int where "SIZE_MAX = 2 ^ 64 - 1"

text \<open>The parser after the protocol has been found at offset \<open>p\<close> and \<open>jump\<close> characters skipped.\<close>

definition url_parse_rest :: "string \<Rightarrow> nat \<Rightarrow> nat \<Rightarrow> url_t" where
  "url_parse_rest s p jump =
     (let (user, pw, start) = url_credentials s (p + jump);
          (pos1, pos2, prt) = url_authority s start;
          u = \<lparr>url = s, noauth_url = [], protocol = take p s,
               hostname = take (pos2 - pos1) (drop pos1 s), ufile = url_path s pos1,
               port = prt, username = user, password = pw\<rparr>
      in u\<lparr>noauth_url := get_noauth_url u\<rparr>)"

definition url_new :: "string \<Rightarrow> url_result" where
  "url_new u =
     (if int (length u) > SIZE_MAX div 3 - 1 then Url_NULL
      else let s = url_escape_string u in
        case strstr s ''://'' of
          Some p \<Rightarrow> Url_Ok (url_parse_rest s p 3)
        | None \<Rightarrow> if strstr s ''sip:'' = Some 0 then Url_Undefined else Url_NULL)"

subsection \<open>Proxies and redirects\<close>

definition is_proxy :: "url_t \<Rightarrow> bool" where
  "is_proxy u \<longleftrightarrow> strcaseeq (protocol u) ''http_proxy'' \<and> strstr (ufile u) ''://'' \<noteq> None"

text \<open>
  \<^term>\<open>None\<close> is the call that dereferences the result of a failed \<^verbatim>\<open>url_new\<close>.
\<close>

definition url_is_protocol :: "url_t \<Rightarrow> string \<Rightarrow> bool option" where
  "url_is_protocol u proto =
     (if is_proxy u then
        (case url_new (drop 1 (ufile u)) of
           Url_Ok tmp \<Rightarrow> Some (strcaseeq (protocol tmp) proto)
         | _ \<Rightarrow> None)
      else Some (strcaseeq (protocol u) proto))"

definition url_set_protocol :: "url_t \<Rightarrow> string \<Rightarrow> url_t" where
  "url_set_protocol u proto =
     (if is_proxy u then
        (let dst = drop 1 (ufile u) in
         case strstr dst ''://'' of
           Some oldlen \<Rightarrow>
             if length proto \<noteq> oldlen then u
             else u\<lparr>ufile := take 1 (ufile u) @ proto @ drop (length proto) dst\<rparr>
         | None \<Rightarrow> u)
      else u\<lparr>protocol := proto\<rparr>)"

text \<open>The new URL of a redirect, before a proxy is put in front of it again.\<close>

definition redirect_target :: "string \<Rightarrow> string \<Rightarrow> string" where
  "redirect_target oldurl redir =
     (if CHR ''/'' \<notin> set redir \<or> (redir \<noteq> [] \<and> hd redir = CHR ''/'') then
        (let (tmp, redir') =
           (if redir \<noteq> [] \<and> hd redir = CHR ''/''
            then ((case strstr oldurl ''://'' of None \<Rightarrow> None
                   | Some k \<Rightarrow> strstr_from oldurl (k + 3) ''/''), tl redir)
            else (strrchr oldurl CHR ''/'', redir))
         in (case tmp of Some k \<Rightarrow> take (k + 1) oldurl | None \<Rightarrow> oldurl) @ redir')
      else redir)"

definition url_redirect :: "url_t \<Rightarrow> string \<Rightarrow> url_result" where
  "url_redirect u redir =
     (let proxy = is_proxy u;
          newurl = redirect_target (if proxy then drop 1 (ufile u) else url u) redir
      in url_new (if proxy then get_http_proxy_url u newurl else newurl))"

subsection \<open>Characters\<close>

lemma nibbles: "of_char c div 16 < (16 :: nat)" "of_char c mod 16 < (16 :: nat)"
  by (simp_all add: less_mult_imp_div_less)

lemma hex_digit_props:
  assumes "n < 16"
  shows "is_hex (hex_digit n)" and "hex_val (hex_digit n) = n" and "is_alnum (hex_digit n)"
proof -
  let ?m = "if n < 10 then n + 48 else n + 55"
  have d: "hex_digit n = char_of ?m" by (simp add: hex_digit_def)
  have m: "of_char (hex_digit n) = ?m" using assms by (simp add: d)
  have "c_toupper (hex_digit n) = hex_digit n"
    using assms by (simp add: c_toupper_def in_range_def m)
  then show "is_hex (hex_digit n)" and "hex_val (hex_digit n) = n" and "is_alnum (hex_digit n)"
    using assms by (auto simp: is_hex_def hex_val_def is_alnum_def in_range_def m)
qed

lemma is_hex_alnum: "is_hex c \<Longrightarrow> is_alnum c"
  by (auto simp: is_hex_def is_alnum_def c_toupper_def in_range_def split: if_splits)

lemma reserved_not_alnum: "url_reserved c \<Longrightarrow> \<not> is_alnum c"
proof -
  have "\<forall>c \<in> set ''-_.!~*''. \<not> is_alnum c" "\<forall>c \<in> set ''();/?:@&=+$,''. \<not> is_alnum c"
    "\<not> is_alnum CHR 0x27" by code_simp+
  then show "url_reserved c \<Longrightarrow> \<not> is_alnum c" unfolding url_reserved_def by blast
qed

lemma alnum_not_special:
  "is_alnum c \<Longrightarrow> c \<noteq> CHR ''%'' \<and> \<not> url_reserved c \<and> c \<noteq> CHR 0x00 \<and> c \<noteq> CHR ''['' \<and> c \<noteq> CHR '']''"
  using reserved_not_alnum [of c] by (auto simp: is_alnum_def in_range_def)

lemma reserved_not_special:
  "url_reserved c \<Longrightarrow> c \<noteq> CHR ''%'' \<and> \<not> is_alnum c \<and> \<not> is_hex c \<and> c \<noteq> CHR 0x00 \<and> c \<noteq> CHR ''['' \<and> c \<noteq> CHR '']''"
  using reserved_not_alnum [of c] is_hex_alnum [of c] by (auto simp: url_reserved_def)

lemma reserved_chars [simp]:
  "url_reserved CHR '':''" "url_reserved CHR ''/''" "url_reserved CHR ''@''"
  by (simp_all add: url_reserved_def)

subsection \<open>Unescaping\<close>

lemma url_unescape_plain:
  "\<not> starts_escape c s \<Longrightarrow> url_unescape_string (c # s) = c # url_unescape_string s"
  by (cases s rule: url_unescape_string.cases) (auto simp: starts_escape_def)

lemma url_unescape_nonpct: "c \<noteq> CHR ''%'' \<Longrightarrow> url_unescape_string (c # s) = c # url_unescape_string s"
  by (rule url_unescape_plain) (simp add: starts_escape_def)

lemma url_unescape_no_pct: "CHR ''%'' \<notin> set s \<Longrightarrow> url_unescape_string s = s"
  by (induction s) (auto simp: url_unescape_nonpct)

lemma url_unescape_append:
  assumes "ys = [] \<or> url_reserved (hd ys)"
  shows "url_unescape_string (xs @ ys) = url_unescape_string xs @ url_unescape_string ys"
proof (cases ys)
  case (Cons r zs)
  with assms have r: "r \<noteq> CHR ''%''" "\<not> is_hex r" using reserved_not_special by auto
  show ?thesis unfolding Cons
  proof (induction xs rule: url_unescape_string.induct)
    case (1 c c1 c2 rest)
    then show ?case by auto
  next
    case (2 c c1)
    then show ?case
      using r by (cases zs) (auto simp: url_unescape_nonpct [of r] url_unescape_plain starts_escape_def)
  next
    case (3 c)
    then show ?case using r by (simp add: url_unescape_plain starts_escape_def split: list.splits)
  next
    case 4
    then show ?case by simp
  qed
qed simp

text \<open>Escaping a part loses nothing: unescaping either string gives the same.\<close>

lemma url_unescape_escape_part:
  "url_unescape_string (url_escape_string_part s) = url_unescape_string s"
proof (induction s)
  case Nil
  then show ?case by simp
next
  case (Cons c rest)
  consider "is_alnum c" | "\<not> is_alnum c" "starts_escape c rest" | "\<not> is_alnum c" "\<not> starts_escape c rest"
    by blast
  then show ?case
  proof cases
    case 1
    then show ?thesis using Cons alnum_not_special [of c] by (simp add: url_unescape_nonpct)
  next
    case 2
    then obtain c1 c2 r where r: "rest = c1 # c2 # r" "is_hex c1" "is_hex c2" "c = CHR ''%''"
      by (auto simp: starts_escape_def split: list.splits)
    have "is_alnum c1" "is_alnum c2" using r is_hex_alnum by auto
    with Cons r 2 show ?thesis using alnum_not_special [of c1] alnum_not_special [of c2]
      by (simp add: url_unescape_nonpct)
  next
    case 3
    show ?thesis using 3 Cons
      by (simp add: hex_digit_props nibbles url_unescape_plain [OF 3(2)])
  qed
qed

lemma url_escape_part_chars:
  "c \<in> set (url_escape_string_part s) \<Longrightarrow> is_alnum c \<or> c = CHR ''%''"
proof (induction s)
  case (Cons x rest)
  then show ?case by (auto simp: hex_digit_props nibbles starts_escape_def split: if_splits)
qed simp

lemma url_escape_part_alnum: "\<forall>c \<in> set s. is_alnum c \<Longrightarrow> url_escape_string_part s = s"
  by (induction s) auto

lemma c_str_id: "CHR 0x00 \<notin> set s \<Longrightarrow> c_str s = s"
  by (auto simp: c_str_def takeWhile_eq_all_conv)


subsection \<open>The escaping loop\<close>

abbreviation plain_run :: "string \<Rightarrow> string" where
  "plain_run s \<equiv> takeWhile (\<lambda>x. \<not> url_reserved x) s"

abbreviation after_run :: "string \<Rightarrow> string" where
  "after_run s \<equiv> dropWhile (\<lambda>x. \<not> url_reserved x) s"

lemma after_run_head: "after_run s = [] \<or> url_reserved (hd (after_run s))"
  by (metis hd_dropWhile)

lemma url_escape_body_reserved: "url_reserved r \<Longrightarrow> url_escape_body (r # s) = r # url_escape_body s"
  by simp

lemma url_escape_body_run:
  "s \<noteq> [] \<Longrightarrow> \<not> url_reserved (hd s) \<Longrightarrow> url_escape_body s =
     url_escape_string_part (c_str (url_unescape_string (plain_run s))) @ url_escape_body (after_run s)"
  by (cases s) auto

lemma url_escape_body_head:
  "s = [] \<or> url_reserved (hd s) \<Longrightarrow> url_escape_body s = [] \<or> url_reserved (hd (url_escape_body s))"
  by (cases s) auto

declare url_escape_body.simps(2) [simp del]

lemma url_escape_body_chars:
  "c \<in> set (url_escape_body s) \<Longrightarrow> is_alnum c \<or> url_reserved c \<or> c = CHR ''%''"
proof (induction s rule: url_escape_body.induct)
  case (2 x rest)
  show ?case
  proof (cases "url_reserved x")
    case True
    with 2 show ?thesis by (auto simp: url_escape_body_reserved)
  next
    case False
    then have "c \<in> set (url_escape_string_part (c_str (url_unescape_string (plain_run (x # rest)))))
        \<or> c \<in> set (url_escape_body (after_run (x # rest)))"
      using 2(3) by (simp add: url_escape_body_run del: takeWhile.simps dropWhile.simps)
    then show ?thesis using 2(2) [OF False] url_escape_part_chars by blast
  qed
qed simp

lemma url_escape_body_append:
  "ys = [] \<or> url_reserved (hd ys) \<Longrightarrow>
   url_escape_body (xs @ ys) = url_escape_body xs @ url_escape_body ys"
proof (induction xs rule: url_escape_body.induct)
  case 1
  then show ?case by simp
next
  case (2 x rest)
  show ?case
  proof (cases "url_reserved x")
    case True
    with 2 show ?thesis by (simp add: url_escape_body_reserved)
  next
    case False
    show ?thesis
    proof (cases "\<forall>z \<in> set (x # rest). \<not> url_reserved z")
      case True
      then have a: "plain_run (x # rest @ ys) = x # rest" "after_run (x # rest @ ys) = ys"
        using 2(3) by (cases ys; auto simp: takeWhile_append dropWhile_append)+
      have b: "plain_run (x # rest) = x # rest" "after_run (x # rest) = []"
        using True by (auto simp: takeWhile_eq_all_conv)
      have "url_escape_body (x # rest @ ys)
          = url_escape_string_part (c_str (url_unescape_string (x # rest))) @ url_escape_body ys"
        using url_escape_body_run [of "x # rest @ ys"] False unfolding a by simp
      moreover have "url_escape_body (x # rest)
          = url_escape_string_part (c_str (url_unescape_string (x # rest)))"
        using url_escape_body_run [of "x # rest"] False unfolding b by simp
      ultimately show ?thesis by simp
    next
      case ex: False
      then have "plain_run (x # rest @ ys) = plain_run (x # rest)"
        "after_run (x # rest @ ys) = after_run (x # rest) @ ys"
        using False by (auto simp: takeWhile_append dropWhile_append)
      with False 2 show ?thesis
        by (simp add: url_escape_body_run del: takeWhile.simps dropWhile.simps)
    qed
  qed
qed

text \<open>Strings of unreserved letters and digits and of reserved characters are left alone.\<close>

lemma url_escape_body_id:
  "\<forall>c \<in> set s. is_alnum c \<or> url_reserved c \<Longrightarrow> url_escape_body s = s"
proof (induction s rule: url_escape_body.induct)
  case 1
  then show ?case by simp
next
  case (2 x rest)
  show ?case
  proof (cases "url_reserved x")
    case True
    with 2 show ?thesis by (simp add: url_escape_body_reserved)
  next
    case False
    let ?u = "plain_run (x # rest)"
    have u: "\<forall>c \<in> set ?u. is_alnum c" using 2(3) by (metis set_takeWhileD)
    then have "CHR ''%'' \<notin> set ?u" "CHR 0x00 \<notin> set ?u" using alnum_not_special by blast+
    with u have "url_escape_string_part (c_str (url_unescape_string ?u)) = ?u"
      by (simp add: url_unescape_no_pct c_str_id url_escape_part_alnum)
    moreover have "url_escape_body (after_run (x # rest)) = after_run (x # rest)"
      using 2 False by (metis set_dropWhileD)
    ultimately show ?thesis
      using False by (simp add: url_escape_body_run del: takeWhile.simps dropWhile.simps)
  qed
qed


subsection \<open>Properties of the escaping\<close>

text \<open>The strings that carry no escaped percent sign and no NUL.\<close>

definition clean_url :: "string \<Rightarrow> bool" where
  "clean_url s \<longleftrightarrow> CHR ''%'' \<notin> set (url_unescape_string s) \<and> CHR 0x00 \<notin> set (url_unescape_string s)"

lemma clean_url_append:
  assumes "ys = [] \<or> url_reserved (hd ys)"
  shows "clean_url (xs @ ys) \<longleftrightarrow> clean_url xs \<and> clean_url ys"
  using url_unescape_append [OF assms] by (auto simp: clean_url_def)

lemma clean_url_reserved: "url_reserved r \<Longrightarrow> clean_url (r # s) \<longleftrightarrow> clean_url s"
  using reserved_not_special [of r] by (auto simp: clean_url_def url_unescape_nonpct)

lemma url_run_split: "plain_run s @ after_run s = s"
  by simp

lemma url_escape_part_stable:
  assumes "c_str u = u" and "url_unescape_string u = u"
  shows "url_escape_body (url_escape_string_part u) = url_escape_string_part u"
proof (cases "url_escape_string_part u")
  case (Cons y ys)
  have nr: "\<forall>c \<in> set (url_escape_string_part u). \<not> url_reserved c"
    using url_escape_part_chars alnum_not_special reserved_not_special by blast
  then have run: "plain_run (url_escape_string_part u) = url_escape_string_part u"
    "after_run (url_escape_string_part u) = []"
    by (auto simp: takeWhile_eq_all_conv)
  have "c_str (url_unescape_string (url_escape_string_part u)) = u"
    using assms by (simp add: url_unescape_escape_part)
  moreover have "url_escape_string_part u \<noteq> []" "\<not> url_reserved (hd (url_escape_string_part u))"
    using nr Cons by simp_all
  ultimately show ?thesis
    using url_escape_body_run [of "url_escape_string_part u"]
    by (simp only: run url_escape_body.simps append_Nil2 simp_thms)
qed simp

lemma url_escape_body_lossless:
  "clean_url s \<Longrightarrow> url_unescape_string (url_escape_body s) = url_unescape_string s
     \<and> url_escape_body (url_escape_body s) = url_escape_body s"
proof (induction s rule: url_escape_body.induct)
  case 1
  then show ?case by simp
next
  case (2 x rest)
  show ?case
  proof (cases "url_reserved x")
    case True
    with 2 show ?thesis
      using reserved_not_special [OF True]
      by (simp add: url_escape_body_reserved clean_url_reserved url_unescape_nonpct)
  next
    case False
    let ?s = "x # rest" let ?t = "after_run ?s"
    let ?u = "url_unescape_string (plain_run ?s)" let ?p = "url_escape_string_part ?u"
    have t: "?t = [] \<or> url_reserved (hd ?t)" by (rule after_run_head)
    note cl = clean_url_append [OF t, of "plain_run ?s", unfolded url_run_split]
    have cu: "clean_url (plain_run ?s)" "clean_url ?t" using 2(3) cl by blast+
    have u: "c_str ?u = ?u" "url_unescape_string ?u = ?u"
      using cu(1) by (auto simp: clean_url_def c_str_id url_unescape_no_pct)
    note IH = 2(2) [OF False cu(2)]
    have body: "url_escape_body ?s = ?p @ url_escape_body ?t"
      using url_escape_body_run [of ?s] False by (simp only: u list.sel) simp
    have bt: "url_escape_body ?t = [] \<or> url_reserved (hd (url_escape_body ?t))"
      by (rule url_escape_body_head [OF t])
    have up: "url_unescape_string ?p = ?u" using u(2) by (simp add: url_unescape_escape_part)
    have "url_unescape_string (url_escape_body ?s) = url_unescape_string ?s"
      using url_unescape_append [OF bt] url_unescape_append [OF t, of "plain_run ?s"] IH up
      unfolding body url_run_split by metis
    moreover have "url_escape_body ?p = ?p" using u by (rule url_escape_part_stable)
    then have "url_escape_body (url_escape_body ?s) = url_escape_body ?s"
      unfolding body using url_escape_body_append [OF bt] IH by metis
    ultimately show ?thesis by blast
  qed
qed

lemma no_bracket_no_ipv6: "CHR ''['' \<notin> set s \<Longrightarrow> ipv6_skip s = 0"
proof -
  assume a: "CHR ''['' \<notin> set s"
  have "strstr s ''://['' = None" using a by (auto simp: strstr_None_iff)
  then show ?thesis by (simp add: ipv6_skip_def)
qed

lemma escape_body_no_bracket: "CHR ''['' \<notin> set (url_escape_body s)"
  using url_escape_body_chars [of "CHR ''[''" s] alnum_not_special reserved_not_special by blast


text \<open>
  C28. On a URL whose decoded text has no percent sign and no NUL, and no IPv6 authority, escaping
  changes nothing but the spelling: the decoded text stays the same, and escaping the result
  again returns it unchanged.
\<close>

theorem url_escape_lossless:
  assumes "clean_url s" and "ipv6_skip s = 0"
  shows "url_unescape_string (url_escape_string s) = url_unescape_string s
    \<and> url_escape_string (url_escape_string s) = url_escape_string s"
  using url_escape_body_lossless [OF assms(1)] assms(2)
    no_bracket_no_ipv6 [OF escape_body_no_bracket, of s]
  by (simp_all add: url_escape_string_def)

subsection \<open>The parser on well-formed URLs\<close>

definition alnum_str :: "string \<Rightarrow> bool" where
  "alnum_str s \<longleftrightarrow> (\<forall>c \<in> set s. is_alnum c)"

definition host_str :: "string \<Rightarrow> bool" where
  "host_str s \<longleftrightarrow> (\<forall>c \<in> set s. is_alnum c \<or> c \<in> set ''.-_'')"

definition path_str :: "string \<Rightarrow> bool" where
  "path_str s \<longleftrightarrow> s \<noteq> [] \<and> hd s = CHR ''/'' \<and> (\<forall>c \<in> set s. is_alnum c \<or> url_reserved c)"

definition cred_ok :: "(string \<times> string) option \<Rightarrow> bool" where
  "cred_ok cred \<longleftrightarrow> (case cred of None \<Rightarrow> True | Some (u, w) \<Rightarrow> alnum_str u \<and> alnum_str w)"

definition cred_str :: "(string \<times> string) option \<Rightarrow> string" where
  "cred_str cred = (case cred of None \<Rightarrow> [] | Some (u, w) \<Rightarrow> u @ '':'' @ w @ ''@'')"

definition url_render :: "string \<Rightarrow> (string \<times> string) option \<Rightarrow> string \<Rightarrow> nat \<Rightarrow> string \<Rightarrow> string" where
  "url_render proto cred host n path = proto @ ''://''
     @ cred_str cred @ host @ '':'' @ show_nat n @ path"

lemma alnum_str_plain:
  assumes "alnum_str s"
  shows "CHR '':'' \<notin> set s" "CHR ''/'' \<notin> set s" "CHR ''@'' \<notin> set s" "CHR ''['' \<notin> set s"
    "CHR '']'' \<notin> set s" "c_str (url_unescape_string s) = s"
proof -
  have n: "c \<notin> set s" if "url_reserved c" for c
    using assms that reserved_not_alnum by (auto simp: alnum_str_def)
  show "CHR '':'' \<notin> set s" "CHR ''/'' \<notin> set s" "CHR ''@'' \<notin> set s" using n by auto
  show "CHR ''['' \<notin> set s" "CHR '']'' \<notin> set s" using assms alnum_not_special by (auto simp: alnum_str_def)
  have "CHR ''%'' \<notin> set s" "CHR 0x00 \<notin> set s"
    using assms alnum_not_special by (auto simp: alnum_str_def)
  then show "c_str (url_unescape_string s) = s" by (simp add: url_unescape_no_pct c_str_id)
qed

lemma host_str_plain:
  assumes "host_str s"
  shows "CHR '':'' \<notin> set s" "CHR ''/'' \<notin> set s" "CHR ''@'' \<notin> set s" "CHR ''['' \<notin> set s"
proof -
  have "\<not> is_alnum CHR '':''" "\<not> is_alnum CHR ''/''" "\<not> is_alnum CHR ''@''" "\<not> is_alnum CHR ''[''"
    by (simp_all add: is_alnum_def in_range_def)
  with assms show "CHR '':'' \<notin> set s" "CHR ''/'' \<notin> set s" "CHR ''@'' \<notin> set s" "CHR ''['' \<notin> set s"
    by (auto simp: host_str_def)
qed

lemma show_nat_alnum: "alnum_str (show_nat n)"
  using show_nat_digits by (auto simp: alnum_str_def is_alnum_def c_isdigit_def)

lemma path_not_digit: "path_str s \<Longrightarrow> s = [] \<or> \<not> c_isdigit (hd s)"
  by (auto simp: path_str_def c_isdigit_def in_range_def)

lemma path_no_bracket: "path_str s \<Longrightarrow> CHR ''['' \<notin> set s"
  using alnum_not_special reserved_not_special by (auto simp: path_str_def)

lemma strstr_single_skip:
  "c \<notin> set xs \<Longrightarrow> strstr (xs @ ys) [c] = map_option (\<lambda>k. length xs + k) (strstr ys [c])"
  by (rule strstr_skip [of c "[]"]) simp_all

lemma strstr_path: "path_str s \<Longrightarrow> strstr s ''/'' = Some 0"
  by (cases s) (auto simp: path_str_def)

lemma strstr_path_at: "path_str s \<Longrightarrow> strstr s ''@'' = Some k \<Longrightarrow> 0 < k"
  by (cases s) (auto simp: path_str_def)

definition url_safe :: "string \<Rightarrow> bool" where
  "url_safe s \<longleftrightarrow> (\<forall>c \<in> set s. is_alnum c \<or> url_reserved c)"

lemma url_safe_append [simp]: "url_safe (xs @ ys) \<longleftrightarrow> url_safe xs \<and> url_safe ys"
  by (auto simp: url_safe_def)

lemma url_safe_parts:
  "alnum_str s \<Longrightarrow> url_safe s" "host_str s \<Longrightarrow> url_safe s" "path_str s \<Longrightarrow> url_safe s"
  "url_safe ''://''" "url_safe '':''" "cred_ok cred \<Longrightarrow> url_safe (cred_str cred)"
proof -
  have "\<forall>c \<in> set ''.-_''. url_reserved c" by (simp add: url_reserved_def)
  then show "host_str s \<Longrightarrow> url_safe s" unfolding host_str_def url_safe_def by blast
  show "alnum_str s \<Longrightarrow> url_safe s" "path_str s \<Longrightarrow> url_safe s"
    by (auto simp: alnum_str_def path_str_def url_safe_def)
  show "url_safe ''://''" "url_safe '':''" "cred_ok cred \<Longrightarrow> url_safe (cred_str cred)"
    by (auto simp: url_safe_def cred_str_def cred_ok_def alnum_str_def split: option.splits)
qed

lemma url_render_id:
  assumes "alnum_str proto" and "cred_ok cred" and "host_str host" and "path_str path"
  shows "url_escape_string (url_render proto cred host n path) = url_render proto cred host n path"
proof -
  let ?s = "url_render proto cred host n path"
  have safe: "url_safe ?s"
    unfolding url_render_def url_safe_append using assms show_nat_alnum [of n] url_safe_parts by blast
  then have "CHR ''['' \<notin> set ?s"
    using alnum_not_special reserved_not_special unfolding url_safe_def by blast
  with safe show ?thesis
    by (simp add: url_escape_string_def no_bracket_no_ipv6 url_escape_body_id url_safe_def)
qed

lemma drop_add: "drop (p + n) s = drop n (drop p s)"
  by (simp add: add.commute)

lemma url_authority_plain:
  assumes d: "drop p s = host @ '':'' @ show_nat n @ path" and p: "p \<le> length s"
    and "host_str host" and "path_str path" and "n < 2 ^ 31"
  shows "url_authority s p = (p, p + length host, of_nat n)" and "url_path s p = path"
proof -
  note h = host_str_plain [OF assms(3)] and m = alnum_str_plain [OF show_nat_alnum [of n]]
  have colon: "strstr_from s p '':'' = Some (p + length host)"
    by (simp add: strstr_from_def d strstr_single_skip h)
  have slash: "strstr_from s p ''/'' = Some (p + (length host + (1 + length (show_nat n))))"
    using h m assms(4) by (simp add: strstr_from_def d strstr_single_skip strstr_path)
  have brack: "strstr_from s p ''['' = None"
    using h m path_no_bracket [OF assms(4)]
    by (simp add: strstr_from_def d strstr_single_skip strstr_single_None)
  have "drop (p + length host + 1) s = show_nat n @ path"
    unfolding drop_add d by simp
  then have port: "atoi (drop (p + length host + 1) s) = of_nat n"
    using atoi_show_nat [OF assms(5) path_not_digit [OF assms(4)]] by simp
  show "url_authority s p = (p, p + length host, of_nat n)"
    using port by (simp add: url_authority_def Let_def brack colon slash)
  have "drop (p + (length host + (1 + length (show_nat n)))) s = path"
    unfolding drop_add d by simp
  then show "url_path s p = path"
    using assms(4) by (cases path) (auto simp: url_path_def slash path_str_def)
qed

lemma url_credentials_plain:
  assumes d: "drop p s = cred_str cred @ host @ '':'' @ show_nat n @ path"
    and c: "cred_ok cred" and "host_str host" and "path_str path"
  shows "url_credentials s p = (map_option fst cred, map_option snd cred, p + length (cred_str cred))"
proof (cases cred)
  note h = host_str_plain [OF assms(3)] and m = alnum_str_plain [OF show_nat_alnum [of n]]
  case None
  then have slash: "strstr_from s p ''/'' = Some (p + (length host + (1 + length (show_nat n))))"
    using d h m assms(4) by (simp add: strstr_from_def strstr_single_skip strstr_path cred_str_def)
  have at: "strstr_from s p ''@''
      = map_option (\<lambda>k. p + (length host + (1 + (length (show_nat n) + k)))) (strstr path ''@'')"
    using d h m None
    by (simp add: strstr_from_def strstr_single_skip option.map_comp comp_def cred_str_def)
  show ?thesis
    using None strstr_path_at [OF assms(4)]
    by (cases "strstr path ''@''") (auto simp: url_credentials_def slash at cred_str_def)
next
  note h = host_str_plain [OF assms(3)] and m = alnum_str_plain [OF show_nat_alnum [of n]]
  case (Some uw)
  then obtain u w where uw: "cred = Some (u, w)" by (cases uw) auto
  with c have u: "alnum_str u" and w: "alnum_str w" by (simp_all add: cred_ok_def)
  note u = alnum_str_plain [OF u] and w = alnum_str_plain [OF w]
  have d': "drop p s = u @ '':'' @ w @ ''@'' @ host @ '':'' @ show_nat n @ path"
    using d uw by (simp add: cred_str_def)
  have at: "strstr_from s p ''@'' = Some (p + (length u + (1 + length w)))"
    using u w by (simp add: strstr_from_def d' strstr_single_skip)
  have colon: "strstr_from s p '':'' = Some (p + length u)"
    using u by (simp add: strstr_from_def d' strstr_single_skip)
  have slash: "\<exists>k. strstr_from s p ''/'' = Some k \<and> p + (length u + (1 + length w)) < k"
    using u w h m assms(4) by (simp add: strstr_from_def d' strstr_single_skip strstr_path)
  have "drop (p + length u + 1) s = w @ ''@'' @ host @ '':'' @ show_nat n @ path"
    unfolding drop_add d' by simp
  then show ?thesis
    using slash u w by (auto simp: url_credentials_def at colon d' uw cred_str_def Let_def)
qed

text \<open>
  C22. The parser inverts rendering: a URL put together from a protocol, optional credentials, a
  host, a port and a path is split into exactly these parts.
\<close>

theorem url_new_render:
  assumes "alnum_str proto" and "cred_ok cred" and "host_str host" and "path_str path"
    and "0 < n" and "n < 2 ^ 31"
    and "length (url_render proto cred host n path) < 2 ^ 32"
  shows "\<exists>u. url_new (url_render proto cred host n path) = Url_Ok u
    \<and> protocol u = proto \<and> username u = map_option fst cred \<and> password u = map_option snd cred
    \<and> hostname u = host \<and> port u = of_nat n \<and> ufile u = path
    \<and> url u = url_render proto cred host n path
    \<and> noauth_url u = url_render proto None host n path"
proof -
  let ?s = "url_render proto cred host n path" let ?p = "length proto + 3"
  let ?q = "?p + length (cred_str cred)"
  have sl: "strstr ?s ''://'' = Some (length proto)"
    using alnum_str_plain(1) [OF assms(1)] strstr_skip [of "CHR '':''" "''//''" "''://''" proto]
    by (simp add: url_render_def)
  have dp: "drop ?p ?s = cred_str cred @ host @ '':'' @ show_nat n @ path"
    unfolding drop_add url_render_def by simp
  have dq: "drop ?q ?s = host @ '':'' @ show_nat n @ path"
    unfolding drop_add [of ?p] dp by simp
  have "?q \<le> length ?s" by (simp add: url_render_def)
  note auth = url_authority_plain [OF dq this assms(3,4,6)]
  note cr = url_credentials_plain [OF dp assms(2,3,4)]
  have "of_nat n \<noteq> (0 :: u32)" "sint (of_nat n :: u32) = int n"
    using assms(5,6) sint_small [of "of_nat n"] by (auto simp: unat_of_nat simp flip: unat_eq_zero)
  moreover have "take (length proto) ?s = proto" by (simp add: url_render_def)
  ultimately show ?thesis
    using assms(6,7) url_render_id [OF assms(1-4), of n]
    by (simp add: url_new_def SIZE_MAX_def sl url_parse_rest_def cr auth dq get_noauth_url_def
        show_int_def url_render_def [of _ None] cred_str_def [of None])
qed

subsection \<open>Proxy URLs\<close>

lemma url_unescape_length: "length (url_unescape_string s) \<le> length s"
  by (induction s rule: url_unescape_string.induct) auto

lemma url_escape_part_length: "length (url_escape_string_part s) \<le> 3 * length s"
  by (induction s) auto

lemma url_escape_body_length: "length (url_escape_body s) \<le> 3 * length s"
proof (induction s rule: url_escape_body.induct)
  case (2 x rest)
  show ?case
  proof (cases "url_reserved x")
    case True
    with 2 show ?thesis by (simp add: url_escape_body_reserved)
  next
    case False
    let ?s = "x # rest"
    let ?u = "c_str (url_unescape_string (plain_run ?s))"
    have "length ?u \<le> length (url_unescape_string (plain_run ?s))"
      unfolding c_str_def by (rule length_takeWhile_le)
    then have "length ?u \<le> length (plain_run ?s)"
      using url_unescape_length [of "plain_run ?s"] by simp
    then have "length (url_escape_string_part ?u) \<le> 3 * length (plain_run ?s)"
      using url_escape_part_length [of ?u] by simp
    moreover have "length (plain_run ?s) + length (after_run ?s) = length ?s"
      by (metis length_append url_run_split)
    moreover have "length (url_escape_body ?s)
        = length (url_escape_string_part ?u) + length (url_escape_body (after_run ?s))"
      using url_escape_body_run [of ?s] False by simp
    ultimately show ?thesis using 2(2) [OF False] by linarith
  qed
qed simp

lemma url_escape_length: "length (url_escape_string s) \<le> 3 * length s"
  using url_escape_body_length [of "drop (ipv6_skip s) s"]
  by (simp add: url_escape_string_def)

lemma ipv6_skip_prefix:
  assumes "ipv6_skip s \<noteq> 0"
  shows "\<exists>xs ys. take (ipv6_skip s) s = xs @ ''://'' @ ys"
proof -
  obtain k j where k: "strstr s ''://['' = Some k"
    and j: "strstr_from s (k + 4) '']'' = Some j" and skip: "ipv6_skip s = j + 1"
    using assms by (auto simp: ipv6_skip_def split: option.splits list.splits if_splits)
  from strstr_Some [OF k] obtain r where r: "drop k s = ''://['' @ r" "k \<le> length s" by blast
  have "k + 4 \<le> j" using j by (auto simp: strstr_from_def)
  then have "take (ipv6_skip s) s = take k s @ take (j + 1 - k) (drop k s)"
    unfolding skip by (metis add_leD1 le_add_diff_inverse take_add trans_le_add1)
  also have "\<dots> = take k s @ ''://'' @ take (j - 2 - k) (''['' @ r)"
    using \<open>k + 4 \<le> j\<close> r(1) by (simp add: take_Cons')
  finally show ?thesis by blast
qed

lemma url_escape_keeps_scheme:
  assumes "strstr s ''://'' \<noteq> None"
  shows "strstr (url_escape_string s) ''://'' \<noteq> None"
proof -
  obtain xs ys where s: "s = xs @ ''://'' @ ys"
    using assms unfolding strstr_None_iff by blast
  have "\<exists>as bs. url_escape_string s = as @ ''://'' @ bs"
  proof (cases "ipv6_skip s = 0")
    case True
    have "url_escape_body s = url_escape_body xs @ ''://'' @ url_escape_body ys"
      unfolding s by (subst url_escape_body_append) (simp_all add: url_escape_body_reserved)
    with True show ?thesis by (auto simp: url_escape_string_def)
  next
    case False
    obtain as bs where "take (ipv6_skip s) s = as @ ''://'' @ bs"
      using ipv6_skip_prefix [OF False] by blast
    then have "url_escape_string s
        = as @ ''://'' @ (bs @ url_escape_body (drop (ipv6_skip s) s))"
      by (simp add: url_escape_string_def)
    then show ?thesis by blast
  qed
  then show ?thesis unfolding strstr_None_iff by blast
qed

lemma url_path_slash: "\<exists>r. url_path s p = CHR ''/'' # r \<and> length r \<le> length s"
proof (cases "strstr_from s p ''/''")
  case None
  then show ?thesis by (simp add: url_path_def)
next
  case (Some k)
  then obtain i where i: "strstr (drop p s) ''/'' = Some i" and k: "k = p + i"
    by (auto simp: strstr_from_def)
  from strstr_Some [OF i] obtain r where "drop k s = CHR ''/'' # r"
    unfolding k drop_add by auto
  moreover from this have "length r \<le> length s" by (metis length_drop length_Cons diff_le_self le_SucI Suc_le_mono le_trans)
  ultimately show ?thesis using Some by (auto simp: url_path_def)
qed

text \<open>
  Asking a parsed URL for its protocol never dereferences a failed parse: where the URL is
  that of a proxy, the URL after the proxy parses again.
\<close>

theorem url_is_protocol_defined:
  assumes "url_new s = Url_Ok u" and "length s < 2 ^ 32"
  shows "url_is_protocol u proto \<noteq> None"
proof (cases "is_proxy u")
  case True
  obtain p where u: "u = url_parse_rest (url_escape_string s) p 3"
    using assms(1) by (auto simp: url_new_def Let_def split: if_splits option.splits)
  then obtain pos where "ufile u = url_path (url_escape_string s) pos"
    by (auto simp: url_parse_rest_def split: prod.splits)
  then obtain r where r: "ufile u = CHR ''/'' # r" and "length r \<le> length (url_escape_string s)"
    using url_path_slash by metis
  then have "length r < 3 * 2 ^ 32" using assms(2) url_escape_length [of s] by linarith
  moreover have "strstr r ''://'' \<noteq> None" using True r by (simp add: is_proxy_def)
  from url_escape_keeps_scheme [OF this]
  obtain q where "strstr (url_escape_string r) ''://'' = Some q" by auto
  ultimately have "url_new r = Url_Ok (url_parse_rest (url_escape_string r) q 3)"
    by (simp add: url_new_def SIZE_MAX_def)
  then show ?thesis using True r by (simp add: url_is_protocol_def)
qed (simp add: url_is_protocol_def)

subsection \<open>Bounds\<close>

lemma strstr_from_bounds:
  "strstr_from s p needle = Some k \<Longrightarrow> p \<le> length s \<Longrightarrow> needle \<noteq> [] \<Longrightarrow> p \<le> k \<and> k < length s"
proof -
  assume a: "strstr_from s p needle = Some k" "p \<le> length s" "needle \<noteq> []"
  then obtain i where i: "strstr (drop p s) needle = Some i" "k = p + i"
    by (auto simp: strstr_from_def)
  from strstr_Some [OF i(1)] obtain r where "drop i (drop p s) = needle @ r" by blast
  with a(3) have "drop i (drop p s) \<noteq> []" by auto
  then show ?thesis using i a by simp
qed

lemma strstr_single_nth:
  "strstr s [x] = Some k \<longleftrightarrow> k < length s \<and> s ! k = x \<and> (\<forall>i<k. s ! i \<noteq> x)"
proof (induction s arbitrary: k)
  case (Cons c s)
  show ?case
    by (cases k) (auto simp: Cons.IH nth_Cons' less_Suc_eq_0_disj)
qed simp

lemma strstr_from_single:
  "strstr_from s p [x] = Some k \<longleftrightarrow> p \<le> k \<and> k < length s \<and> s ! k = x \<and> (\<forall>i. p \<le> i \<and> i < k \<longrightarrow> s ! i \<noteq> x)"
proof
  assume "strstr_from s p [x] = Some k"
  then obtain j where j: "strstr (drop p s) [x] = Some j" "k = p + j" by (auto simp: strstr_from_def)
  have "s ! i \<noteq> x" if "p \<le> i" "i < k" for i
  proof -
    have "i - p < j" using that j(2) by simp
    with j(1) have "drop p s ! (i - p) \<noteq> x" unfolding strstr_single_nth by blast
    moreover have "i \<le> length s" using that j by (auto simp: strstr_single_nth)
    ultimately show ?thesis using that by simp
  qed
  then show "p \<le> k \<and> k < length s \<and> s ! k = x \<and> (\<forall>i. p \<le> i \<and> i < k \<longrightarrow> s ! i \<noteq> x)"
    using j by (auto simp: strstr_single_nth)
next
  assume "p \<le> k \<and> k < length s \<and> s ! k = x \<and> (\<forall>i. p \<le> i \<and> i < k \<longrightarrow> s ! i \<noteq> x)"
  then have "strstr (drop p s) [x] = Some (k - p)" by (auto simp: strstr_single_nth)
  with \<open>p \<le> k \<and> _\<close> show "strstr_from s p [x] = Some k" by (simp add: strstr_from_def)
qed

lemma strstr_from_single_later:
  assumes "strstr_from s q [x] = Some c" and "p \<le> q"
  shows "\<exists>k. strstr_from s p [x] = Some k \<and> k \<le> c"
proof (cases "strstr_from s p [x]")
  case None
  then have "x \<notin> set (drop p s)" by (simp add: strstr_from_def strstr_single_None)
  moreover have "s ! c \<in> set (drop p s)"
    using assms by (auto simp: strstr_from_single in_set_conv_nth intro!: exI [of _ "c - p"])
  ultimately show ?thesis using assms by (simp add: strstr_from_single)
next
  case (Some k)
  then have "k \<le> c" using assms by (metis le_trans not_le strstr_from_single)
  with Some show ?thesis by simp
qed

text \<open>
  The host name copy stays inside the URL: whatever brackets, colons and slashes the URL
  has, the computed host span does not end before it starts nor past the string.
\<close>

theorem url_authority_bounds:
  assumes "p \<le> length s" and "url_authority s p = (pos1, pos2, prt)"
  shows "p \<le> pos1 \<and> pos1 \<le> pos2 \<and> pos2 \<le> length s"
proof (cases "\<exists>k2 k3. strstr_from s p ''['' = Some k2 \<and> strstr_from s p '']'' = Some k3 \<and> k2 < k3
    \<and> (case strstr_from s p ''/'' of None \<Rightarrow> True | Some k4 \<Rightarrow> k4 > k3)")
  case True
  then obtain k2 k3 where k: "strstr_from s p ''['' = Some k2" "strstr_from s p '']'' = Some k3" "k2 < k3"
    and sl: "case strstr_from s p ''/'' of None \<Rightarrow> True | Some k4 \<Rightarrow> k4 > k3" by blast
  have b: "p \<le> k2" "k3 < length s" using k by (auto simp: strstr_from_single)
  have colon: "k3 < c \<and> c < length s" if "strstr_from s k3 '':'' = Some c" for c
  proof -
    from that k(2) have "c \<noteq> k3" by (auto simp: strstr_from_single)
    with that show ?thesis by (auto simp: strstr_from_single)
  qed
  have slash: "k3 < c \<and> c < length s" if "strstr_from s (p + 1) ''/'' = Some c" for c
  proof -
    have "\<exists>k. strstr_from s p ''/'' = Some k \<and> k \<le> c"
      using strstr_from_single_later [OF that, of p] by simp
    then obtain k where "strstr_from s p ''/'' = Some k" "k \<le> c" by blast
    with sl have "k3 < c" by simp
    with that show ?thesis by (simp add: strstr_from_single)
  qed
  show ?thesis using assms k sl b colon slash
    by (auto simp: url_authority_def Let_def split: option.splits if_splits)
next
  case False
  have f: "p \<le> c \<and> c \<le> length s" if "strstr_from s p [x] = Some c" for c x
    using that by (simp add: strstr_from_single)
  have no: "(case (strstr_from s p ''['', strstr_from s p '']'') of (Some k2, Some k3) \<Rightarrow>
      k2 < k3 \<and> (case strstr_from s p ''/'' of None \<Rightarrow> True | Some k4 \<Rightarrow> k4 > k3) | _ \<Rightarrow> False) = False"
    using False by (auto split: option.splits)
  show ?thesis using assms f
    unfolding url_authority_def Let_def no by (auto split: option.splits if_splits)
qed

theorem url_authority_bounds_witness:
  "(7::nat) \<le> 8 \<and> (8::nat) \<le> 11 \<and> 11 \<le> length ''http://[::1]:80/''"
  by (rule url_authority_bounds [of 7 "''http://[::1]:80/''" 8 11 80]) code_simp+

theorem url_escape_lossless_witness:
  "url_unescape_string (url_escape_string ''http://h/a b%20c'') = url_unescape_string ''http://h/a b%20c''
    \<and> url_escape_string (url_escape_string ''http://h/a b%20c'') = url_escape_string ''http://h/a b%20c''"
  by (rule url_escape_lossless) code_simp+

theorem url_new_render_witness:
  "\<exists>u. url_new (url_render ''http'' (Some (''me'', ''pw'')) ''a.org'' 80 ''/x'') = Url_Ok u
    \<and> protocol u = ''http'' \<and> username u = map_option fst (Some (''me'', ''pw''))
    \<and> password u = map_option snd (Some (''me'', ''pw''))
    \<and> hostname u = ''a.org'' \<and> port u = of_nat 80 \<and> ufile u = ''/x''
    \<and> url u = url_render ''http'' (Some (''me'', ''pw'')) ''a.org'' 80 ''/x''
    \<and> noauth_url u = url_render ''http'' None ''a.org'' 80 ''/x''"
proof (rule url_new_render)
  show "length (url_render ''http'' (Some (''me'', ''pw'')) ''a.org'' 80 ''/x'') < 2 ^ 32"
    by (simp add: url_render_def cred_str_def show_nat.simps)
  show "alnum_str ''http''" "cred_ok (Some (''me'', ''pw''))" "host_str ''a.org''" "path_str ''/x''"
    by code_simp+
qed simp_all

theorem url_is_protocol_defined_witness:
  "url_is_protocol (url_parse_rest ''http_proxy://p:80/http://h/'' 10 3) ''http'' \<noteq> None"
proof (rule url_is_protocol_defined [of "''http_proxy://p:80/http://h/''"])
  have "url_escape_string ''http_proxy://p:80/http://h/'' = ''http_proxy://p:80/http://h/''"
    by code_simp
  moreover have "strstr ''http_proxy://p:80/http://h/'' ''://'' = Some 10" by simp
  ultimately show "url_new ''http_proxy://p:80/http://h/''
      = Url_Ok (url_parse_rest ''http_proxy://p:80/http://h/'' 10 3)"
    by (simp add: url_new_def SIZE_MAX_def eval_nat_numeral)
qed simp

subsection \<open>Redirects\<close>

lemma take_after_scheme: "take (4 + n) (a # b # c # s) = a # b # c # take (Suc n) s"
proof -
  have "4 + n = Suc (Suc (Suc (Suc n)))" by simp
  then show ?thesis by (simp only: take_Suc_Cons)
qed

lemma strrchr_None: "c \<notin> set s \<Longrightarrow> strrchr s c = None"
  by (induction s) auto

lemma strrchr_last: "c \<notin> set ys \<Longrightarrow> strrchr (xs @ c # ys) c = Some (length xs)"
  by (induction xs) (auto simp: strrchr_None)

text \<open>
  A redirect with a relative name replaces the last path component of the URL, and a redirect
  with an absolute path keeps exactly the scheme and the authority, provided the URL has a
  path; a redirect to another server is taken as it is.
\<close>

theorem redirect_target_cases:
  assumes "CHR ''/'' \<notin> set leaf" and "CHR ''/'' \<notin> set name"
    and "CHR '':'' \<notin> set proto" and "CHR ''/'' \<notin> set auth"
    and "CHR ''/'' \<in> set abs_url" and "hd abs_url \<noteq> CHR ''/''"
  shows "redirect_target (base @ ''/'' @ leaf) name = base @ ''/'' @ name
    \<and> redirect_target (proto @ ''://'' @ auth @ ''/'' @ path) (''/'' @ rest) = proto @ ''://'' @ auth @ ''/'' @ rest
    \<and> redirect_target old abs_url = abs_url"
proof (intro conjI)
  show "redirect_target (base @ ''/'' @ leaf) name = base @ ''/'' @ name"
    using assms(1,2) by (cases name) (auto simp: redirect_target_def strrchr_last)
  have "strstr (proto @ ''://'' @ auth @ ''/'' @ path) ''://'' = Some (length proto)"
    using assms(3) by (subst strstr_skip) auto
  moreover have "strstr (auth @ ''/'' @ path) ''/'' = Some (length auth)"
    using assms(4) by (simp add: strstr_single_append)
  moreover have "drop (length proto + 3) (proto @ ''://'' @ auth @ ''/'' @ path) = auth @ ''/'' @ path"
    by simp
  moreover have "take (length proto + 3 + length auth + 1) (proto @ ''://'' @ auth @ ''/'' @ path)
      = proto @ ''://'' @ auth @ ''/''"
    by (simp add: take_after_scheme)
  ultimately show "redirect_target (proto @ ''://'' @ auth @ ''/'' @ path) (''/'' @ rest)
      = proto @ ''://'' @ auth @ ''/'' @ rest"
    by (simp add: redirect_target_def strstr_from_def take_after_scheme)
  show "redirect_target old abs_url = abs_url"
    using assms(5,6) by (cases abs_url) (auto simp: redirect_target_def)
qed

theorem redirect_target_cases_witness:
  "redirect_target (''http://h/a'' @ ''/'' @ ''b'') ''c'' = ''http://h/a'' @ ''/'' @ ''c''
    \<and> redirect_target (''http'' @ ''://'' @ ''h'' @ ''/'' @ ''a/b'') (''/'' @ ''x'') = ''http'' @ ''://'' @ ''h'' @ ''/'' @ ''x''
    \<and> redirect_target ''http://h/a'' ''ftp://g'' = ''ftp://g''"
  by (rule redirect_target_cases) simp_all


end
