(* ===== verification/Subopt.thy ===== *)
theory Subopt
  imports C_String
begin

text \<open>
  The suboption parser of \<^verbatim>\<open>subopt-helper.c\<close>, which drivers and filters use for strings
  like \<^verbatim>\<open>dev=hw:no_sync:name=%5%a:b:c\<close>. Pointers into the parsed string are offsets; the
  variables that the options point to are cells of a store, so that two options may share one.
  \<^verbatim>\<open>strtod\<close> is a parameter: it returns the value and the number of characters it consumed.
\<close>

subsection \<open>\<^verbatim>\<open>strtol\<close> with base 0\<close>

definition digit_of :: "char \<Rightarrow> nat" where
  "digit_of c = (if c_isdigit c then of_char c - 48
     else if in_range CHR ''A'' CHR ''Z'' (c_toupper c) then of_char (c_toupper c) - 55 else 36)"

definition read_base :: "nat \<Rightarrow> string \<Rightarrow> nat \<times> nat" where
  "read_base b s = (let ds = takeWhile (\<lambda>c. digit_of c < b) s
     in (foldl (\<lambda>acc c. acc * b + digit_of c) 0 ds, length ds))"

text \<open>The magnitude and its length, after blanks and sign.\<close>

definition strtol_magnitude :: "string \<Rightarrow> nat \<times> nat" where
  "strtol_magnitude s = (case s of
     c # x # h # r \<Rightarrow>
       if c = CHR ''0'' \<and> c_toupper x = CHR ''X'' \<and> digit_of h < 16
       then (case read_base 16 (h # r) of (v, n) \<Rightarrow> (v, n + 2))
       else read_base (if c = CHR ''0'' then 8 else 10) s
   | c # r \<Rightarrow> read_base (if c = CHR ''0'' then 8 else 10) s
   | [] \<Rightarrow> (0, 0))"

text \<open>The value and the number of characters consumed, 0 if nothing was converted.\<close>

definition strtol0 :: "string \<Rightarrow> int \<times> nat" where
  "strtol0 s =
     (let ws = length (takeWhile c_isspace s);
          t = drop ws s;
          sg = (case t of c # _ \<Rightarrow> if c = CHR ''-'' \<or> c = CHR ''+'' then 1 else 0 | [] \<Rightarrow> 0);
          (v, n) = strtol_magnitude (drop sg t)
      in if n = 0 then (0, 0)
         else (clamp_long (if sg = 1 \<and> hd t = CHR ''-'' then - int v else int v), ws + sg + n))"

subsection \<open>Arguments\<close>

definition char_at :: "string \<Rightarrow> nat \<Rightarrow> char" where
  "char_at s i = (if i < length s then s ! i else CHR 0x00)"

datatype opt_type = OPT_ARG_BOOL | OPT_ARG_INT | OPT_ARG_STR | OPT_ARG_MSTRZ | OPT_ARG_FLOAT

text \<open>\<^verbatim>\<open>strarg_t\<close>: a length and a position inside the parsed string.\<close>

record strarg_t =
  len :: nat
  str_pos :: nat

datatype 'f opt_val = V_int c_int | V_str strarg_t | V_mstrz "string option" | V_float 'f

record 'f opt_t =
  name :: string
  type :: opt_type
  valp :: nat
  test :: "('f opt_val \<Rightarrow> bool) option"

text \<open>
  The parsers of the three kinds of argument, from offset \<open>p\<close> of the string. The first result is
  what they store, the second the offset they return, \<^term>\<open>None\<close> for NULL.
\<close>

definition parse_int :: "string \<Rightarrow> nat \<Rightarrow> c_int \<times> nat option" where
  "parse_int s p = (case strtol0 (drop p s) of (v, n) \<Rightarrow>
     (word_of_int v, if n = 0 then None else Some (p + n)))"

definition parse_float :: "(string \<Rightarrow> 'f \<times> nat) \<Rightarrow> string \<Rightarrow> nat \<Rightarrow> 'f \<times> nat option" where
  "parse_float strtod s p = (case strtod (drop p s) of (v, n) \<Rightarrow>
     (v, if n = 0 then None else Some (p + n)))"

definition INT_MAX :: int where "INT_MAX = 2 ^ 31 - 1"

definition QUOTE_CHAR :: char where "QUOTE_CHAR = CHR ''%''"

definition parse_str_unquoted :: "nat \<Rightarrow> nat \<Rightarrow> (strarg_t \<times> nat) option" where
  "parse_str_unquoted p m =
     (if m = p \<or> int m - int p > INT_MAX then None else Some (\<lparr>len = m - p, str_pos = p\<rparr>, m))"

definition parse_str :: "string \<Rightarrow> nat \<Rightarrow> (strarg_t \<times> nat) option" where
  "parse_str s p =
     (if char_at s p = QUOTE_CHAR then
        (case strtol0 (drop (p + 1) s) of (v, n) \<Rightarrow>
           let l = sint (word_of_int v :: c_int); q = p + 1 + n in
           if char_at s q \<noteq> QUOTE_CHAR \<or> l < 0 \<or> l > int (length s) - int q - 1 then None
           else parse_str_unquoted (q + 1) (q + 1 + nat l))
      else if char_at s p = CHR 0x22 then
        (case strstr_from s (p + 1) [CHR 0x22] of
           None \<Rightarrow> None
         | Some m \<Rightarrow> Some (\<lparr>len = m - (p + 1), str_pos = p + 1\<rparr>, m + 1))
      else parse_str_unquoted p (case strstr_from s p '':'' of Some m \<Rightarrow> m | None \<Rightarrow> length s))"

subsection \<open>The parser\<close>

type_synonym 'f opt_store = "nat \<Rightarrow> 'f opt_val"

text \<open>The length of the option name at \<open>p\<close>: up to the nearest of the two delimiters.\<close>

definition subopt_len :: "string \<Rightarrow> nat \<Rightarrow> nat" where
  "subopt_len s p =
     (let delim = strstr_from s p '':''; arg_delim = strstr_from s p ''='';
          delim = (case (delim, arg_delim) of
                     (Some d, Some a) \<Rightarrow> if d > a then Some a else Some d
                   | (None, _) \<Rightarrow> arg_delim
                   | _ \<Rightarrow> delim)
      in case delim of Some d \<Rightarrow> d - p | None \<Rightarrow> length s - p)"

text \<open>The switch on the type: the new store and \<open>last\<close>.\<close>

definition subopt_value ::
  "(string \<Rightarrow> 'f \<times> nat) \<Rightarrow> 'f opt_t \<Rightarrow> string \<Rightarrow> nat \<Rightarrow> 'f opt_store \<Rightarrow> 'f opt_store \<times> nat option" where
  "subopt_value strtod o1 s p st = (case type o1 of
     OPT_ARG_INT \<Rightarrow> (case parse_int s p of (v, nxt) \<Rightarrow> (st(valp o1 := V_int v), nxt))
   | OPT_ARG_STR \<Rightarrow> (case parse_str s p of
        Some (a, q) \<Rightarrow> (st(valp o1 := V_str a), Some q) | None \<Rightarrow> (st, None))
   | OPT_ARG_MSTRZ \<Rightarrow> (case parse_str s p of
        Some (a, q) \<Rightarrow> (st(valp o1 := V_mstrz (if len a > 0 then Some (take (len a) (drop (str_pos a) s))
                                               else None)), Some q)
      | None \<Rightarrow> (st(valp o1 := V_mstrz None), None))
   | OPT_ARG_FLOAT \<Rightarrow> (case parse_float strtod s p of (v, nxt) \<Rightarrow> (st(valp o1 := V_float v), nxt))
   | OPT_ARG_BOOL \<Rightarrow> (st, None))"

text \<open>An option whose name is at \<open>p\<close>: the error flag, the position and the store.\<close>

definition subopt_arg ::
  "(string \<Rightarrow> 'f \<times> nat) \<Rightarrow> 'f opt_t \<Rightarrow> string \<Rightarrow> nat \<Rightarrow> 'f opt_store \<Rightarrow> bool \<times> nat \<times> 'f opt_store" where
  "subopt_arg strtod o1 s p st =
     (let p1 = p + length (name o1) in
      if type o1 = OPT_ARG_BOOL then (False, p1, st(valp o1 := V_int 1))
      else if char_at s p1 \<noteq> CHR ''='' then (True, p1, st)
      else (case subopt_value strtod o1 s (p1 + 1) st of
          (st', None) \<Rightarrow> (True, p1 + 1, st')
        | (st', Some nxt) \<Rightarrow>
            if (case test o1 of Some t \<Rightarrow> \<not> t (st' (valp o1)) | None \<Rightarrow> False) then (True, p1 + 1, st')
            else (False, nxt, st')))"

text \<open>The inner loop over the options.\<close>

fun subopt_find ::
  "(string \<Rightarrow> 'f \<times> nat) \<Rightarrow> 'f opt_t list \<Rightarrow> string \<Rightarrow> nat \<Rightarrow> 'f opt_store \<Rightarrow> bool \<times> nat \<times> 'f opt_store" where
  "subopt_find strtod [] s p st = (False, p, st)"
| "subopt_find strtod (o1 # os) s p st =
     (if subopt_len s p = length (name o1) then
        (if is_prefix (name o1) (drop p s) then subopt_arg strtod o1 s p st
         else subopt_find strtod os s p st)
      else if subopt_len s p = length (name o1) + 2 \<and> type o1 = OPT_ARG_BOOL
              \<and> is_prefix ''no'' (drop p s) \<and> is_prefix (name o1) (drop (p + 2) s)
      then (False, p + length (name o1) + 2, st(valp o1 := V_int 0))
      else subopt_find strtod os s p st)"

text \<open>
  The outer loop. The result is the value of \<^verbatim>\<open>subopt_parse\<close> (0 or -1), the position that the
  error message marks and the store.
\<close>

lemma parse_str_span:
  assumes "p \<le> length s" and "parse_str s p = Some (a, q)"
  shows "p < q \<and> q \<le> length s \<and> p \<le> str_pos a \<and> str_pos a + len a \<le> q"
proof -
  have at: "char_at s i \<noteq> QUOTE_CHAR \<or> i < length s" for i
    by (auto simp: char_at_def QUOTE_CHAR_def)
  have find: "p \<le> k \<and> k < length s" if "strstr (drop p s) [c] = Some j" "k = p + j" for p k j c
  proof -
    from strstr_Some [OF that(1)] have "drop k s \<noteq> []" unfolding that(2) by (auto simp: add.commute)
    with that(2) show ?thesis by simp
  qed
  show ?thesis
  proof (cases "char_at s p = QUOTE_CHAR")
    case True
    obtain v n where vn: "strtol0 (drop (Suc p) s) = (v, n)" by fastforce
    show ?thesis using assms True vn at [of "Suc (p + n)"]
      by (auto simp: parse_str_def parse_str_unquoted_def Let_def split: if_splits)
  next
    case False
    show ?thesis
    proof (cases "char_at s p = CHR 0x22")
      case True
      then show ?thesis using False assms
        by (fastforce simp: parse_str_def strstr_from_def split: option.splits dest: find)
    next
      case q: False
      show ?thesis
      proof (cases "strstr (drop p s) '':''")
        case None
        then show ?thesis using False q assms
          by (auto simp: parse_str_def strstr_from_def parse_str_unquoted_def split: if_splits)
      next
        case (Some j)
        then show ?thesis using False q assms find [OF Some refl]
          by (auto simp: parse_str_def strstr_from_def parse_str_unquoted_def split: if_splits)
      qed
    qed
  qed
qed

lemma subopt_value_advances:
  assumes "p \<le> length s" and "subopt_value strtod o1 s p st = (st', Some l)"
  shows "p < l"
  using assms parse_str_span [OF assms(1)]
  by (auto simp: subopt_value_def parse_int_def parse_float_def
      split: opt_type.splits option.splits prod.splits if_splits)

lemma subopt_arg_advances:
  assumes "subopt_arg strtod o1 s p st = (e, q, st')"
  shows "p + length (name o1) \<le> q"
proof -
  have "char_at s i = CHR ''='' \<Longrightarrow> i + 1 \<le> length s" for i by (auto simp: char_at_def split: if_splits)
  then show ?thesis using assms subopt_value_advances [of "p + length (name o1) + 1" s strtod o1 st]
    by (fastforce simp: subopt_arg_def Let_def split: prod.splits option.splits if_splits)
qed

lemma subopt_find_advances: "subopt_find strtod os s p st = (e, q, st') \<Longrightarrow> p \<le> q"
  by (induction os) (auto split: if_splits dest: subopt_arg_advances)

function subopt_loop ::
  "(string \<Rightarrow> 'f \<times> nat) \<Rightarrow> 'f opt_t list \<Rightarrow> string \<Rightarrow> nat \<Rightarrow> 'f opt_store \<Rightarrow> int \<times> nat \<times> 'f opt_store" where
  "subopt_loop strtod opts s p st =
     (if p \<ge> length s then (0, p, st)
      else case subopt_find strtod opts s p st of (err, q, st') \<Rightarrow>
        if err then (-1, q, st')
        else if char_at s q = CHR '':'' then subopt_loop strtod opts s (q + 1) st'
        else if q < length s then (-1, q, st')
        else (0, q, st'))"
  by pat_completeness auto
termination
  by (relation "measure (\<lambda>(strtod, opts, s, p, st). length s - p)")
    (auto dest!: subopt_find_advances [OF sym])

declare subopt_loop.simps [simp del]

definition subopt_parse ::
  "(string \<Rightarrow> 'f \<times> nat) \<Rightarrow> string option \<Rightarrow> 'f opt_t list \<Rightarrow> 'f opt_store \<Rightarrow> int \<times> nat \<times> 'f opt_store" where
  "subopt_parse strtod s opts st = (case s of
     Some s \<Rightarrow> subopt_loop strtod opts s 0 st | None \<Rightarrow> (0, 0, st))"

subsection \<open>Test functions and comparison\<close>

definition int_non_neg :: "'f opt_val \<Rightarrow> bool" where
  "int_non_neg v = (case v of V_int i \<Rightarrow> sint i \<ge> 0 | _ \<Rightarrow> False)"

definition int_pos :: "'f opt_val \<Rightarrow> bool" where
  "int_pos v = (case v of V_int i \<Rightarrow> sint i > 0 | _ \<Rightarrow> False)"

text \<open>\<^verbatim>\<open>strncmp\<close> as the difference of the first characters that differ.\<close>

fun strncmp :: "nat \<Rightarrow> string \<Rightarrow> string \<Rightarrow> int" where
  "strncmp 0 s t = 0"
| "strncmp (Suc n) [] [] = 0"
| "strncmp (Suc n) (c # s) [] = of_char c"
| "strncmp (Suc n) [] (d # t) = - of_char d"
| "strncmp (Suc n) (c # s) (d # t) = (if c = d then strncmp n s t else of_char c - of_char d)"

definition strargcmp :: "string \<Rightarrow> strarg_t \<Rightarrow> string \<Rightarrow> int" where
  "strargcmp s arg t =
     (let res = strncmp (len arg) (drop (str_pos arg) s) t
      in if res = 0 \<and> len arg \<noteq> length t then int (len arg) - int (length t) else res)"

definition strargcasecmp :: "string \<Rightarrow> strarg_t \<Rightarrow> string \<Rightarrow> int" where
  "strargcasecmp s arg t =
     (let res = strncmp (len arg) (map c_tolower (drop (str_pos arg) s)) (map c_tolower t)
      in if res = 0 \<and> len arg \<noteq> length t then int (len arg) - int (length t) else res)"

subsection \<open>Which cells a parse changes\<close>

definition val_inside :: "string \<Rightarrow> 'f opt_val \<Rightarrow> bool" where
  "val_inside s v = (case v of V_str a \<Rightarrow> str_pos a + len a \<le> length s | _ \<Rightarrow> True)"

definition store_ok :: "'f opt_t list \<Rightarrow> string \<Rightarrow> 'f opt_store \<Rightarrow> 'f opt_store \<Rightarrow> bool" where
  "store_ok opts s st st' \<longleftrightarrow> (\<forall>l. (l \<notin> valp ` set opts \<longrightarrow> st' l = st l)
     \<and> (val_inside s (st l) \<longrightarrow> val_inside s (st' l)))"

lemma store_ok_refl [simp]: "store_ok opts s st st"
  by (simp add: store_ok_def)

lemma store_ok_trans: "store_ok opts s st st' \<Longrightarrow> store_ok opts s st' st'' \<Longrightarrow> store_ok opts s st st''"
  by (simp add: store_ok_def)

lemma store_ok_upd:
  "o1 \<in> set opts \<Longrightarrow> val_inside s v \<Longrightarrow> store_ok opts s st (st(valp o1 := v))"
  by (auto simp: store_ok_def)

lemma subopt_value_store_ok:
  assumes "p \<le> length s" and "o1 \<in> set opts"
  shows "store_ok opts s st (fst (subopt_value strtod o1 s p st))"
  using assms parse_str_span [OF assms(1)]
  by (auto simp: subopt_value_def val_inside_def intro!: store_ok_upd
      split: opt_type.splits option.splits prod.splits)

lemma subopt_arg_store_ok:
  assumes "o1 \<in> set opts" and "subopt_arg strtod o1 s p st = (e, q, st')"
  shows "store_ok opts s st st'"
proof -
  have "char_at s i = CHR ''='' \<Longrightarrow> i + 1 \<le> length s" for i by (auto simp: char_at_def split: if_splits)
  then show ?thesis
    using assms subopt_value_store_ok [of "p + length (name o1) + 1" s o1 opts st strtod]
      store_ok_upd [OF assms(1), of s "V_int 1" st]
    by (fastforce simp: subopt_arg_def Let_def val_inside_def split: prod.splits option.splits if_splits)
qed

lemma subopt_find_store_ok:
  assumes "subopt_find strtod os s p st = (e, q, st')" and "set os \<subseteq> set opts"
  shows "store_ok opts s st st'"
  using assms
proof (induction os)
  case (Cons o1 os)
  have "store_ok opts s st (st(valp o1 := V_int 0))"
    using Cons.prems by (intro store_ok_upd) (auto simp: val_inside_def)
  with Cons show ?case by (auto split: if_splits dest: subopt_arg_store_ok [rotated])
qed simp

text \<open>
  Whatever the string, the parser writes only to the variables of its options, and every
  string argument it stores is a span inside the parsed string.
\<close>

theorem subopt_parse_frame:
  assumes "subopt_parse strtod (Some s) opts st = (r, q, st')"
  shows "\<forall>l. (l \<notin> valp ` set opts \<longrightarrow> st' l = st l) \<and> (val_inside s (st l) \<longrightarrow> val_inside s (st' l))"
proof -
  have "store_ok opts s st st'" if "subopt_loop strtod opts s p st = (r, q, st')" for p
    using that
  proof (induction strtod opts s p st rule: subopt_loop.induct)
    case (1 strtod opts s p st)
    obtain e q1 st1 where f: "subopt_find strtod opts s p st = (e, q1, st1)" by (metis prod_cases3)
    note ok = subopt_find_store_ok [OF f order_refl]
    show ?case
    proof (cases "p \<ge> length s")
      case True
      then show ?thesis using "1.prems" by (simp add: subopt_loop.simps [of strtod opts s p])
    next
      case False
      then show ?thesis
        using "1.prems" "1.IH" [OF False f [symmetric] refl] ok f
        by (auto simp: subopt_loop.simps [of strtod opts s p] split: if_splits intro: store_ok_trans)
    qed
  qed
  then show ?thesis using assms by (auto simp: subopt_parse_def store_ok_def)
qed

subsection \<open>Reading rendered numbers\<close>

lemma digit_of_digit: "c_isdigit c \<Longrightarrow> digit_of c = digit_val c \<and> digit_val c < 10"
  by (auto simp: digit_of_def digit_val_def c_isdigit_def in_range_def)

lemma foldl_digits: "\<forall>c \<in> set ds. c_isdigit c \<Longrightarrow>
    foldl (\<lambda>acc c. acc * 10 + digit_of c) a ds = read_digits ds a"
  by (induction ds arbitrary: a) (auto simp: digit_of_digit mult.commute)

lemma read_base_digits:
  assumes "\<forall>c \<in> set ds. c_isdigit c" and "rest = [] \<or> \<not> digit_of (hd rest) < 10"
  shows "read_base 10 (ds @ rest) = (read_digits ds 0, length ds)"
proof -
  have "takeWhile (\<lambda>c. digit_of c < 10) (ds @ rest) = ds"
    using assms by (subst takeWhile_append2) (auto simp: digit_of_digit takeWhile_eq_Nil_iff)
  then show ?thesis using foldl_digits [OF assms(1)] by (simp add: read_base_def Let_def)
qed

lemma show_nat_first: "0 < n \<Longrightarrow> hd (show_nat n) \<noteq> CHR ''0''"
proof (induction n rule: show_nat.induct)
  case (1 n)
  have "0 < d \<Longrightarrow> d < 10 \<Longrightarrow> digit_char d \<noteq> CHR ''0''" for d
    using digit_char_props(2) [of d] by (auto simp: digit_val_def)
  with 1 show ?case
    by (subst show_nat.simps) (auto simp: hd_append show_nat_nonempty)
qed

lemma strtol_magnitude_show:
  assumes "rest = [] \<or> \<not> digit_of (hd rest) < 10 \<and> c_toupper (hd rest) \<noteq> CHR ''X''"
  shows "strtol_magnitude (show_nat n @ rest) = (n, length (show_nat n))"
proof (cases "n = 0")
  case True
  have z: "show_nat 0 = ''0''" by (subst show_nat.simps) code_simp
  have "takeWhile (\<lambda>c. digit_of c < 8) (''0'' @ rest) = ''0''"
    using assms by (cases rest) (auto simp: digit_of_def c_isdigit_def in_range_def)
  then have "read_base 8 (''0'' @ rest) = (0, 1)"
    by (simp add: read_base_def digit_of_def c_isdigit_def in_range_def)
  then show ?thesis using assms unfolding True z
    by (auto simp: strtol_magnitude_def split: list.splits)
next
  case False
  obtain c r where cr: "show_nat n = c # r" using show_nat_nonempty by (cases "show_nat n") auto
  then have c0: "c \<noteq> CHR ''0''" using show_nat_first [of n] False by simp
  have "read_base 10 (show_nat n @ rest) = (n, length (show_nat n))"
    using assms by (subst read_base_digits) (auto simp: show_nat_digits read_show_nat)
  with c0 show ?thesis unfolding cr by (auto simp: strtol_magnitude_def split: list.splits)
qed

lemma strtol0_show:
  assumes "rest = [] \<or> \<not> digit_of (hd rest) < 10 \<and> c_toupper (hd rest) \<noteq> CHR ''X''"
    and "- (2 ^ 31) \<le> z" and "z < 2 ^ 31"
  shows "strtol0 (show_int z @ rest) = (z, length (show_int z))"
proof -
  have cl: "clamp_long z = z" using assms(2,3) by (simp add: clamp_long_def)
  show ?thesis
  proof (cases "z < 0")
    case True
    then show ?thesis using strtol_magnitude_show [OF assms(1), of "nat (- z)"] cl
      by (simp add: strtol0_def show_int_def c_isspace_def in_range_def show_nat_nonempty)
  next
    case False
    obtain c r where cr: "show_nat (nat z) = c # r"
      using show_nat_nonempty by (cases "show_nat (nat z)") auto
    then have "c_isdigit c" using show_nat_digits [of "nat z"] by simp
    from digit_not_space [OF this] False show ?thesis
      using strtol_magnitude_show [OF assms(1), of "nat z"] cl cr
      by (simp add: strtol0_def show_int_def)
  qed
qed

subsection \<open>Rendering options\<close>

datatype setting = Set_bool bool | Set_int int | Set_text string

definition setting_word :: "'f opt_t \<Rightarrow> setting \<Rightarrow> string" where
  "setting_word o1 v = (if v = Set_bool False then ''no'' @ name o1 else name o1)"

definition setting_arg :: "setting \<Rightarrow> string" where
  "setting_arg v = (case v of Set_bool b \<Rightarrow> [] | Set_int z \<Rightarrow> ''='' @ show_int z
     | Set_text t \<Rightarrow> ''=%'' @ show_nat (length t) @ ''%'' @ t)"

definition setting_val :: "setting \<Rightarrow> 'f opt_val" where
  "setting_val v = (case v of Set_bool b \<Rightarrow> V_int (if b then 1 else 0) | Set_int z \<Rightarrow> V_int (word_of_int z)
     | Set_text t \<Rightarrow> V_mstrz (Some t))"

definition setting_ok :: "'f opt_t list \<Rightarrow> 'f opt_t \<times> setting \<Rightarrow> bool" where
  "setting_ok opts x = (case x of (o1, v) \<Rightarrow> o1 \<in> set opts
     \<and> (case v of Set_bool b \<Rightarrow> type o1 = OPT_ARG_BOOL
         | Set_int z \<Rightarrow> type o1 = OPT_ARG_INT \<and> - (2 ^ 31) \<le> z \<and> z < 2 ^ 31
         | Set_text t \<Rightarrow> type o1 = OPT_ARG_MSTRZ \<and> t \<noteq> [] \<and> int (length t) < 2 ^ 31)
     \<and> (type o1 = OPT_ARG_BOOL \<or> (case test o1 of Some t \<Rightarrow> t (setting_val v) | None \<Rightarrow> True)))"

definition render_setting :: "'f opt_t \<times> setting \<Rightarrow> string" where
  "render_setting x = setting_word (fst x) (snd x) @ setting_arg (snd x)"

fun render_settings :: "('f opt_t \<times> setting) list \<Rightarrow> string" where
  "render_settings [] = []"
| "render_settings [x] = render_setting x"
| "render_settings (x # y # xs) = render_setting x @ '':'' @ render_settings (y # xs)"

definition apply_setting :: "'f opt_t \<times> setting \<Rightarrow> 'f opt_store \<Rightarrow> 'f opt_store" where
  "apply_setting x st = st(valp (fst x) := setting_val (snd x))"

definition names_ok :: "'f opt_t list \<Rightarrow> bool" where
  "names_ok opts \<longleftrightarrow> distinct (map name opts)
     \<and> (\<forall>o1 \<in> set opts. CHR '':'' \<notin> set (name o1) \<and> CHR ''='' \<notin> set (name o1) \<and> name o1 \<noteq> []
          \<and> (type o1 = OPT_ARG_BOOL \<longrightarrow> ''no'' @ name o1 \<notin> set (map name opts)))"

lemma strstr_single_skip_to:
  "c \<notin> set w \<Longrightarrow> strstr (w @ r) [c] = map_option (\<lambda>k. length w + k) (strstr r [c])"
  by (rule strstr_skip [of c "[]"]) simp_all

lemma subopt_len_word:
  assumes d: "drop p s = w @ r" and "CHR '':'' \<notin> set w" and "CHR ''='' \<notin> set w"
    and "r = [] \<or> hd r = CHR '':'' \<or> hd r = CHR ''=''"
  shows "subopt_len s p = length w"
proof -
  have len: "r = [] \<Longrightarrow> length s - p = length w"
    using arg_cong [OF d, of length] by simp
  have "strstr w '':'' = None" "strstr w ''='' = None" using assms(2,3) by (simp_all add: strstr_single_None)
  then show ?thesis using assms(4) len
    by (cases r) (auto simp: subopt_len_def strstr_from_def d strstr_single_skip_to assms(2,3)
        split: option.splits)
qed

lemma find_name:
  assumes "distinct (map name os)" and "o1 \<in> set os"
    and "subopt_len s p = length (name o1)" and "drop p s = name o1 @ r"
    and "\<forall>o2 \<in> set os. type o2 = OPT_ARG_BOOL \<longrightarrow> ''no'' @ name o2 \<noteq> name o1"
  shows "subopt_find strtod os s p st = subopt_arg strtod o1 s p st"
  using assms(1,2,5)
proof (induction os)
  case (Cons o2 os)
  show ?case
  proof (cases "o2 = o1")
    case True
    then show ?thesis using assms(3,4) by (simp add: is_prefix_append)
  next
    case False
    then have o1: "o1 \<in> set os" using Cons.prems by simp
    then have ne: "name o2 \<noteq> name o1" using Cons.prems(1) by (metis distinct.simps(2) image_eqI list.simps(9) list.set_map)
    have "\<not> (length (name o1) = length (name o2) \<and> is_prefix (name o2) (drop p s))"
      using ne assms(4) by (auto simp: is_prefix_append)
    moreover have "\<not> (length (name o1) = length (name o2) + 2 \<and> type o2 = OPT_ARG_BOOL
        \<and> is_prefix ''no'' (drop p s) \<and> is_prefix (name o2) (drop (p + 2) s))"
    proof
      assume a: "length (name o1) = length (name o2) + 2 \<and> type o2 = OPT_ARG_BOOL
        \<and> is_prefix ''no'' (drop p s) \<and> is_prefix (name o2) (drop (p + 2) s)"
      then obtain r1 where r1: "drop p s = ''no'' @ r1" by (auto simp: is_prefix_append)
      then have "drop (p + 2) s = r1" by (metis add.commute append_eq_conv_conj drop_drop length_Cons list.size(3) numeral_2_eq_2)
      with a obtain r2 where "r1 = name o2 @ r2" by (auto simp: is_prefix_append)
      with r1 a have "take (length (name o1)) (drop p s) = ''no'' @ name o2" by simp
      then have "name o1 = ''no'' @ name o2" unfolding assms(4) by simp
      then show False using Cons.prems(3) a by simp
    qed
    ultimately show ?thesis using Cons.IH Cons.prems o1 assms(3) by auto
  qed
qed simp


lemma find_no:
  assumes "distinct (map name os)" and "o1 \<in> set os" and "type o1 = OPT_ARG_BOOL"
    and "subopt_len s p = length (name o1) + 2" and "drop p s = ''no'' @ name o1 @ r"
    and "\<forall>o2 \<in> set os. name o2 \<noteq> ''no'' @ name o1"
  shows "subopt_find strtod os s p st = (False, p + length (name o1) + 2, st(valp o1 := V_int 0))"
  using assms(1,2,6)
proof (induction os)
  case (Cons o2 os)
  have d2: "drop (p + 2) s = name o1 @ r"
    using arg_cong [OF assms(5), of "drop 2"] by (simp add: add.commute)
  show ?case
  proof (cases "o2 = o1")
    case True
    then show ?thesis using assms(3-5) d2 by (simp add: is_prefix_append fun_upd_def)
  next
    case False
    then have o1: "o1 \<in> set os" using Cons.prems by simp
    then have ne: "name o2 \<noteq> name o1" using Cons.prems(1) by (metis distinct.simps(2) image_eqI list.simps(9) list.set_map)
    have "\<not> (length (name o1) + 2 = length (name o2) \<and> is_prefix (name o2) (drop p s))"
    proof
      assume a: "length (name o1) + 2 = length (name o2) \<and> is_prefix (name o2) (drop p s)"
      then obtain r1 where "drop p s = name o2 @ r1" by (auto simp: is_prefix_append)
      with a have "take (length (name o2)) (drop p s) = name o2" by simp
      moreover have "take (length (name o2)) (drop p s) = ''no'' @ name o1"
        using a unfolding assms(5) by (simp flip: conjunct1 [OF a])
      ultimately show False using Cons.prems(3) by simp
    qed
    moreover have "\<not> (length (name o1) = length (name o2) \<and> is_prefix (name o2) (drop (p + 2) s))"
      using ne unfolding d2 by (auto simp: is_prefix_append)
    ultimately show ?thesis using Cons.IH Cons.prems o1 assms(4) by auto
  qed
qed simp

lemma char_at_drop: "drop p s = c # r \<Longrightarrow> char_at s p = c"
  by (metis char_at_def drop_all hd_drop_conv_nth list.sel(1) list.simps(3) not_less)

lemma drop_shift: "drop p s = xs @ ys \<Longrightarrow> drop (p + length xs) s = ys"
  by (metis add.commute append_eq_conv_conj drop_drop)

lemma parse_int_shown:
  assumes "drop p s = show_int z @ rest" and "rest = [] \<or> hd rest = CHR '':''"
    and "- (2 ^ 31) \<le> z" and "z < 2 ^ 31"
  shows "parse_int s p = (word_of_int z, Some (p + length (show_int z)))"
proof -
  have "rest = [] \<or> \<not> digit_of (hd rest) < 10 \<and> c_toupper (hd rest) \<noteq> CHR ''X''"
    using assms(2) by (auto simp: digit_of_def c_isdigit_def c_toupper_def in_range_def)
  from strtol0_show [OF this assms(3,4)] show ?thesis
    using assms(1) by (auto simp: parse_int_def show_int_def show_nat_nonempty)
qed

lemma parse_str_quoted:
  assumes "drop p s = ''%'' @ show_nat (length t) @ ''%'' @ t @ rest" and "t \<noteq> []"
    and "int (length t) < 2 ^ 31"
  shows "\<exists>a. parse_str s p = Some (a, p + length (show_nat (length t)) + 2 + length t)
     \<and> len a = length t \<and> drop (str_pos a) s = t @ rest"
proof -
  let ?n = "show_nat (length t)"
  have d1: "drop (Suc p) s = ?n @ ''%'' @ t @ rest"
    using drop_shift [of p s "''%''"] assms(1) by simp
  have d2: "drop (Suc p + length ?n) s = ''%'' @ t @ rest" by (rule drop_shift [OF d1])
  have d3: "drop (Suc (Suc p + length ?n)) s = t @ rest"
    using drop_shift [of "Suc p + length ?n" s "''%''"] d2 by simp
  have "digit_of CHR ''%'' = 36" by code_simp
  moreover have "c_toupper CHR ''%'' \<noteq> CHR ''X''" by code_simp
  ultimately have "strtol0 (show_int (int (length t)) @ ''%'' @ t @ rest)
      = (int (length t), length (show_int (int (length t))))"
    using assms(3) by (intro strtol0_show) simp_all
  then have v: "strtol0 (drop (Suc p) s) = (int (length t), length ?n)"
    unfolding d1 by (simp add: show_int_def)
  have l: "sint (word_of_int (int (length t)) :: c_int) = int (length t)"
    using assms(3) sint_small [of "of_nat (length t)"] by (simp add: unat_of_nat)
  have "int (length s) - int (Suc p + length ?n) - 1 = int (length (t @ rest))"
    using arg_cong [OF d2, of length] by simp
  moreover have "int (length t) \<le> INT_MAX" using assms(3) by (simp add: INT_MAX_def)
  ultimately show ?thesis
    using char_at_drop [of p s] char_at_drop [of "Suc p + length ?n" s] d2 d3 assms(1,2) v l
    by (simp add: parse_str_def parse_str_unquoted_def QUOTE_CHAR_def Let_def)
qed

lemma subopt_find_setting:
  assumes names: "names_ok opts" and ok: "setting_ok opts (o1, v)"
    and d: "drop p s = render_setting (o1, v) @ rest" and rest: "rest = [] \<or> hd rest = CHR '':''"
  shows "subopt_find strtod opts s p st
    = (False, p + length (render_setting (o1, v)), apply_setting (o1, v) st)"
proof -
  have o1: "o1 \<in> set opts" and dist: "distinct (map name opts)"
    and plain: "CHR '':'' \<notin> set (setting_word o1 v)" "CHR ''='' \<notin> set (setting_word o1 v)"
    using names ok by (auto simp: names_ok_def setting_ok_def setting_word_def)
  have dw: "drop p s = setting_word o1 v @ setting_arg v @ rest"
    using d by (simp add: render_setting_def)
  have "setting_arg v @ rest = [] \<or> hd (setting_arg v @ rest) = CHR '':'' \<or> hd (setting_arg v @ rest) = CHR ''=''"
    using rest by (cases v) (auto simp: setting_arg_def)
  note len = subopt_len_word [OF dw plain this]
  show ?thesis
  proof (cases "v = Set_bool False")
    case True
    then have b: "type o1 = OPT_ARG_BOOL" using ok by (simp add: setting_ok_def)
    then have "''no'' @ name o1 \<notin> name ` set opts"
      using names o1 unfolding names_ok_def by simp
    then have "\<forall>o2 \<in> set opts. name o2 \<noteq> ''no'' @ name o1" by (metis image_eqI)
    from find_no [OF dist o1 b _ _ this, of s p rest strtod st] show ?thesis
      using len dw True by (simp add: setting_word_def setting_arg_def render_setting_def
          apply_setting_def setting_val_def)
  next
    case False
    then have w: "setting_word o1 v = name o1" by (simp add: setting_word_def)
    have "\<forall>o2 \<in> set opts. type o2 = OPT_ARG_BOOL \<longrightarrow> ''no'' @ name o2 \<noteq> name o1"
      using names o1 by (force simp: names_ok_def)
    from find_name [OF dist o1 _ _ this, of s p "setting_arg v @ rest" strtod st]
    have f: "subopt_find strtod opts s p st = subopt_arg strtod o1 s p st"
      using len dw w by simp
    have d1: "drop (p + length (name o1)) s = setting_arg v @ rest"
      using drop_shift [OF dw] w by simp
    show ?thesis
    proof (cases v)
      case (Set_bool b)
      then show ?thesis using False ok f
        by (simp add: setting_ok_def subopt_arg_def Let_def setting_arg_def render_setting_def setting_word_def
            apply_setting_def setting_val_def)
    next
      case (Set_int z)
      have "drop (p + length (name o1) + 1) s = show_int z @ rest"
        using drop_shift [of "p + length (name o1)" s "''=''"] d1 Set_int by (simp add: setting_arg_def)
      from parse_int_shown [OF this rest] have
        "parse_int s (p + length (name o1) + 1)
          = (word_of_int z, Some (p + length (name o1) + 1 + length (show_int z)))"
        using ok Set_int by (simp add: setting_ok_def)
      moreover have "char_at s (p + length (name o1)) = CHR ''=''"
        using char_at_drop d1 Set_int by (simp add: setting_arg_def)
      ultimately show ?thesis using ok f Set_int
        by (auto simp: setting_ok_def subopt_arg_def Let_def setting_arg_def render_setting_def setting_word_def
            apply_setting_def setting_val_def subopt_value_def split: option.splits)
    next
      case (Set_text t)
      have "drop (p + length (name o1) + 1) s = ''%'' @ show_nat (length t) @ ''%'' @ t @ rest"
        using drop_shift [of "p + length (name o1)" s "''=''"] d1 Set_text by (simp add: setting_arg_def)
      from parse_str_quoted [OF this] obtain a where
        "parse_str s (p + length (name o1) + 1)
          = Some (a, p + length (name o1) + 1 + length (show_nat (length t)) + 2 + length t)"
        "len a = length t" "drop (str_pos a) s = t @ rest"
        using ok Set_text by (auto simp: setting_ok_def)
      moreover have "char_at s (p + length (name o1)) = CHR ''=''"
        using char_at_drop d1 Set_text by (simp add: setting_arg_def)
      ultimately show ?thesis using ok f Set_text
        by (auto simp: setting_ok_def subopt_arg_def Let_def setting_arg_def render_setting_def setting_word_def
            apply_setting_def setting_val_def subopt_value_def split: option.splits)
    qed
  qed
qed

lemma render_setting_nonempty: "names_ok opts \<Longrightarrow> setting_ok opts x \<Longrightarrow> render_setting x \<noteq> []"
  by (cases x) (auto simp: names_ok_def setting_ok_def render_setting_def setting_word_def)

lemma subopt_loop_render:
  assumes "names_ok opts" and "\<forall>x \<in> set xs. setting_ok opts x" and "drop p s = render_settings xs"
    and "p \<le> length s"
  shows "subopt_loop strtod opts s p st = (0, length s, fold apply_setting xs st)"
  using assms(2-4)
proof (induction xs arbitrary: p st rule: render_settings.induct)
  case 1
  then show ?case by (simp add: subopt_loop.simps [of _ _ _ p])
next
  case (2 x)
  have ne: "render_setting x \<noteq> []" using render_setting_nonempty [OF assms(1), of x] 2 by simp
  then have "p < length s" using 2 by (metis drop_all not_less render_settings.simps(2))
  moreover have "subopt_find strtod opts s p st = (False, p + length (render_setting x), apply_setting x st)"
    using subopt_find_setting [of opts "fst x" "snd x" p s "[]"] assms(1) 2 by simp
  moreover have "p + length (render_setting x) = length s"
    using length_drop [of p s] 2 by simp
  ultimately show ?case by (simp add: subopt_loop.simps [of _ _ _ p] char_at_def)
next
  case (3 x y xs)
  let ?q = "p + length (render_setting x)"
  have d: "drop p s = render_setting x @ '':'' @ render_settings (y # xs)" using 3(3) by simp
  then have dq: "drop ?q s = '':'' @ render_settings (y # xs)" by (rule drop_shift)
  then have c: "char_at s ?q = CHR '':''" using char_at_drop by simp
  have q: "?q < length s" using dq by (cases "?q < length s") auto
  have "subopt_find strtod opts s p st = (False, ?q, apply_setting x st)"
    using subopt_find_setting [of opts "fst x" "snd x" p s "'':'' @ render_settings (y # xs)"]
      assms(1) 3(2) d by simp
  moreover have "drop (?q + 1) s = render_settings (y # xs)"
    using drop_shift [of ?q s "'':''"] dq by simp
  ultimately show ?case using 3(1) [of "?q + 1" "apply_setting x st"] 3(2) c q
    by (simp add: subopt_loop.simps [of _ _ _ p])
qed

text \<open>
  C23. The parser inverts rendering: a list of settings written as flags, \<^verbatim>\<open>no\<close>-flags, decimal
  numbers and length-quoted strings is parsed without error, to the end of the string, into
  exactly these values, later settings of a variable overriding earlier ones.
\<close>

theorem subopt_parse_render:
  assumes "names_ok opts" and "\<forall>x \<in> set xs. setting_ok opts x"
  shows "subopt_parse strtod (Some (render_settings xs)) opts st
    = (0, length (render_settings xs), fold apply_setting xs st)"
  using subopt_loop_render [OF assms, of 0 "render_settings xs"] by (simp add: subopt_parse_def)

definition sample_opts :: "unit opt_t list" where
  "sample_opts = [\<lparr>name = ''sync'', type = OPT_ARG_BOOL, valp = 0, test = None\<rparr>,
     \<lparr>name = ''n'', type = OPT_ARG_INT, valp = 1, test = Some int_pos\<rparr>,
     \<lparr>name = ''dev'', type = OPT_ARG_MSTRZ, valp = 2, test = None\<rparr>]"

theorem subopt_parse_render_witness:
  "subopt_parse (\<lambda>_. ((), 0)) (Some (render_settings
       [(sample_opts ! 0, Set_bool False), (sample_opts ! 2, Set_text ''a:b=%''), (sample_opts ! 1, Set_int 12)]))
     sample_opts (\<lambda>_. V_float ())
   = (0, length (render_settings
       [(sample_opts ! 0, Set_bool False), (sample_opts ! 2, Set_text ''a:b=%''), (sample_opts ! 1, Set_int 12)]),
      fold apply_setting
       [(sample_opts ! 0, Set_bool False), (sample_opts ! 2, Set_text ''a:b=%''), (sample_opts ! 1, Set_int 12)]
       (\<lambda>_. V_float ()))"
proof (rule subopt_parse_render)
  show "names_ok sample_opts" by (simp add: names_ok_def sample_opts_def)
  have "int_pos (setting_val (Set_int 12) :: unit opt_val)" by code_simp
  then show "\<forall>x \<in> set [(sample_opts ! 0, Set_bool False), (sample_opts ! 2, Set_text ''a:b=%''), (sample_opts ! 1, Set_int 12)].
      setting_ok sample_opts x"
    by (simp add: setting_ok_def sample_opts_def)
qed

theorem subopt_parse_frame_witness:
  "\<forall>l. (l \<notin> valp ` set sample_opts \<longrightarrow> ((\<lambda>_. V_float ()) (0 := V_int 1)) l = V_float ())
     \<and> (val_inside ''sync'' (V_float ()) \<longrightarrow> val_inside ''sync'' (((\<lambda>_. V_float ()) (0 := V_int 1)) l))"
proof -
  have "subopt_parse (\<lambda>_. ((), 0)) (Some ''sync'') sample_opts (\<lambda>_. V_float ())
    = (0, 4, (\<lambda>_. V_float ()) (0 := V_int 1))"
    by (simp add: subopt_parse_def subopt_loop.simps sample_opts_def subopt_len_def strstr_from_def
        subopt_arg_def char_at_def Let_def)
  from subopt_parse_frame [OF this] show ?thesis .
qed

lemma strncmp_zero:
  "strncmp n s t = 0 \<longleftrightarrow> take n s = take n t" if "CHR 0x00 \<notin> set s" "CHR 0x00 \<notin> set t"
proof -
  have nz: "(of_char c :: int) = 0 \<longleftrightarrow> c = CHR 0x00" for c
    using of_char_eq_iff [of c "CHR 0x00"] by simp
  show ?thesis using that
    by (induction n s t rule: strncmp.induct) (auto simp: nz)
qed

text \<open>
  Comparing an argument with a C string finds them equal exactly when the argument's span of
  the parsed string, which has no NUL, is that string.
\<close>

theorem strargcmp_equal:
  assumes "CHR 0x00 \<notin> set s" and "CHR 0x00 \<notin> set t" and "str_pos a + len a \<le> length s"
  shows "strargcmp s a t = 0 \<longleftrightarrow> take (len a) (drop (str_pos a) s) = t"
proof -
  have "CHR 0x00 \<notin> set (drop (str_pos a) s)" using assms(1) by (meson in_set_dropD)
  then show ?thesis using assms(3)
    by (auto simp: strargcmp_def Let_def strncmp_zero assms(2))
qed

theorem strargcmp_equal_witness:
  "strargcmp ''dev=hw'' \<lparr>len = 2, str_pos = 4\<rparr> ''hw'' = 0
   \<longleftrightarrow> take 2 (drop 4 ''dev=hw'') = ''hw''"
  using strargcmp_equal [of "''dev=hw''" "''hw''" "\<lparr>len = 2, str_pos = 4\<rparr>"] by simp

end
