(* ===== verification/Reorder_Ch.thy ===== *)
theory Reorder_Ch
  imports MP_Prelude
begin

text \<open>
  Channel reordering of \<^verbatim>\<open>libaf/reorder_ch.c\<close>: the copying and the in-place routines, both
  working on byte buffers that they read and write in elements of 1, 2, 3, 4 or 8 bytes. Every
  access is checked against the buffer, and an access outside it is the result \<^term>\<open>None\<close>.
  The \<^verbatim>\<open>int\<close> results of the routines, which no caller uses, are left out.
  Sample counts and sizes are natural numbers; products of the two are assumed to fit
  \<^verbatim>\<open>int\<close>, as the callers' buffer sizes do.
\<close>

subsection \<open>Layouts\<close>

definition AF_LFE :: c_int where "AF_LFE = 0x80"

definition layout_code :: "c_int \<Rightarrow> c_int \<Rightarrow> c_int" where
  "layout_code n ch = push_bit 8 n OR ch"

definition L50A :: c_int where "L50A = layout_code 108 5"
definition L50B :: c_int where "L50B = layout_code 109 5"
definition L50C :: c_int where "L50C = layout_code 110 5"
definition L50D :: c_int where "L50D = layout_code 111 5"
definition L51A :: c_int where "L51A = layout_code 112 (6 OR AF_LFE)"
definition L51B :: c_int where "L51B = layout_code 113 (6 OR AF_LFE)"
definition L51C :: c_int where "L51C = layout_code 114 (6 OR AF_LFE)"
definition L51D :: c_int where "L51D = layout_code 115 (6 OR AF_LFE)"
definition L51E :: c_int where "L51E = layout_code 116 (6 OR AF_LFE)"
definition L51F :: c_int where "L51F = layout_code 117 (6 OR AF_LFE)"
definition L71A :: c_int where "L71A = layout_code 119 (8 OR AF_LFE)"
definition L71B :: c_int where "L71B = layout_code 120 (8 OR AF_LFE)"
definition L71C :: c_int where "L71C = layout_code 121 (8 OR AF_LFE)"
definition L71D :: c_int where "L71D = layout_code 122 (8 OR AF_LFE)"
definition L71F :: c_int where "L71F = layout_code 123 (8 OR AF_LFE)"

lemmas layout_defs = L50A_def L50B_def L50C_def L50D_def L51A_def L51B_def L51C_def L51D_def
  L51E_def L51F_def L71A_def L71B_def L71C_def L71D_def L71F_def layout_code_def AF_LFE_def

text \<open>The speakers of a layout in the order of the header's comments.\<close>

datatype speaker = L | R | C | Ls | Rs | LFE | Rls | Rrs

definition layout_table :: "(c_int \<times> speaker list) list" where
  "layout_table =
    [(L50A, [L, R, C, Ls, Rs]), (L50B, [L, R, Ls, Rs, C]), (L50C, [L, C, R, Ls, Rs]),
     (L50D, [C, L, R, Ls, Rs]),
     (L51A, [L, R, C, LFE, Ls, Rs]), (L51B, [L, R, Ls, Rs, C, LFE]), (L51C, [L, C, R, Ls, Rs, LFE]),
     (L51D, [C, L, R, Ls, Rs, LFE]), (L51E, [LFE, L, C, R, Ls, Rs]), (L51F, [C, L, R, LFE, Ls, Rs]),
     (L71A, [L, R, C, LFE, Ls, Rs, Rls, Rrs]), (L71B, [L, R, Ls, Rs, C, LFE, Rls, Rrs]),
     (L71C, [L, C, R, Ls, Rs, LFE, Rls, Rrs]), (L71D, [C, L, R, Ls, Rs, Rls, Rrs, LFE]),
     (L71F, [C, L, R, LFE, Ls, Rs, Rls, Rrs])]"

definition speakers :: "c_int \<Rightarrow> speaker list" where
  "speakers l = (case map_of layout_table l of Some s \<Rightarrow> s | None \<Rightarrow> [])"

definition AF_IS_SAME_CH_NUM :: "c_int \<Rightarrow> c_int \<Rightarrow> bool" where
  "AF_IS_SAME_CH_NUM a b \<longleftrightarrow> a AND 0xFF = b AND 0xFF"

subsection \<open>Elements of a buffer\<close>

type_synonym buf = "byte list"

definition get_elem :: "nat \<Rightarrow> nat \<Rightarrow> buf \<Rightarrow> buf option" where
  "get_elem w i b = (if w * i + w \<le> length b then Some (take w (drop (w * i) b)) else None)"

definition put_elem :: "nat \<Rightarrow> nat \<Rightarrow> buf \<Rightarrow> buf \<Rightarrow> buf option" where
  "put_elem w i x b =
     (if w * i + w \<le> length b then Some (take (w * i) b @ x @ drop (w * i + w) b) else None)"

definition fast_memcpy :: "buf \<Rightarrow> buf \<Rightarrow> nat \<Rightarrow> buf option" where
  "fast_memcpy dest src n =
     (if n \<le> length src \<and> n \<le> length dest then Some (take n src @ drop n dest) else None)"

subsection \<open>Copying\<close>

text \<open>
  One round of \<^verbatim>\<open>REORDER_COPY_n\<close> at \<open>i\<close>: element \<open>k\<close> of the destination is taken from
  element \<open>S\<^sub>k\<close> of the source, in the order of the macro. For 3-byte samples the code writes out
  the three byte moves of each element.
\<close>

fun copy_round :: "nat \<Rightarrow> nat \<Rightarrow> nat \<Rightarrow> nat list \<Rightarrow> buf \<Rightarrow> buf \<Rightarrow> buf option" where
  "copy_round w i k [] src dest = Some dest"
| "copy_round w i k (s # ss) src dest =
     (case get_elem w (i + s) src of None \<Rightarrow> None
      | Some x \<Rightarrow> (case put_elem w (i + k) x dest of None \<Rightarrow> None
          | Some dest' \<Rightarrow> copy_round w i (k + 1) ss src dest'))"

function copy_loop :: "nat \<Rightarrow> nat list \<Rightarrow> nat \<Rightarrow> nat \<Rightarrow> buf \<Rightarrow> buf \<Rightarrow> buf option" where
  "copy_loop w perm i samples src dest =
     (if i \<ge> samples then Some dest
      else if perm = [] then None
      else (case copy_round w i 0 perm src dest of None \<Rightarrow> None
        | Some dest' \<Rightarrow> copy_loop w perm (i + length perm) samples src dest'))"
  by pat_completeness auto
termination
  by (relation "measure (\<lambda>(w, perm, i, samples, src, dest). samples - i)")
    (simp, simp, metis add_diff_cancel_left' diff_less_mono2 length_greater_0_conv less_add_same_cancel1 not_le)

declare copy_loop.simps [simp del]

definition supported_size :: "nat \<Rightarrow> bool" where
  "supported_size n \<longleftrightarrow> n = 1 \<or> n = 2 \<or> n = 3 \<or> n = 4 \<or> n = 8"

definition reorder_copy_5ch ::
  "buf \<Rightarrow> buf \<Rightarrow> nat \<Rightarrow> nat \<Rightarrow> nat \<Rightarrow> nat \<Rightarrow> nat \<Rightarrow> nat \<Rightarrow> nat \<Rightarrow> buf option" where
  "reorder_copy_5ch dest src samples samplesize s0 s1 s2 s3 s4 =
     (if supported_size samplesize
      then copy_loop samplesize [s0, s1, s2, s3, s4] 0 samples src dest else Some dest)"

text \<open>The other two take the sample size as a \<^verbatim>\<open>uint8_t\<close>.\<close>

definition reorder_copy_6ch ::
  "buf \<Rightarrow> buf \<Rightarrow> nat \<Rightarrow> nat \<Rightarrow> nat \<Rightarrow> nat \<Rightarrow> nat \<Rightarrow> nat \<Rightarrow> nat \<Rightarrow> nat \<Rightarrow> buf option" where
  "reorder_copy_6ch dest src samples samplesize s0 s1 s2 s3 s4 s5 =
     (let samplesize = samplesize mod 256 in
      if supported_size samplesize
      then copy_loop samplesize [s0, s1, s2, s3, s4, s5] 0 samples src dest else Some dest)"

definition reorder_copy_8ch ::
  "buf \<Rightarrow> buf \<Rightarrow> nat \<Rightarrow> nat \<Rightarrow> nat \<Rightarrow> nat \<Rightarrow> nat \<Rightarrow> nat \<Rightarrow> nat \<Rightarrow> nat \<Rightarrow> nat \<Rightarrow> nat \<Rightarrow> buf option" where
  "reorder_copy_8ch dest src samples samplesize s0 s1 s2 s3 s4 s5 s6 s7 =
     (let samplesize = samplesize mod 256 in
      if supported_size samplesize
      then copy_loop samplesize [s0, s1, s2, s3, s4, s5, s6, s7] 0 samples src dest else Some dest)"

text \<open>The value the switch statements branch on.\<close>

definition layout_pair :: "c_int \<Rightarrow> c_int \<Rightarrow> c_int" where
  "layout_pair src_layout dest_layout = push_bit 16 src_layout OR dest_layout"

text \<open>The cases of the switch of \<^verbatim>\<open>reorder_channel_copy\<close>.\<close>

datatype copy_case = Copy5 nat nat nat nat nat | Copy6 nat nat nat nat nat nat
  | Copy8 nat nat nat nat nat nat nat nat

definition copy_cases_5 :: "((c_int \<times> c_int) \<times> copy_case) list" where
  "copy_cases_5 =
    [((L50A, L50B), Copy5 0 1 3 4 2), ((L50A, L50C), Copy5 0 2 1 3 4), ((L50A, L50D), Copy5 2 0 1 3 4),
     ((L50B, L50A), Copy5 0 1 4 2 3), ((L50B, L50C), Copy5 0 4 1 2 3), ((L50B, L50D), Copy5 4 0 1 2 3),
     ((L50C, L50A), Copy5 0 2 1 3 4), ((L50C, L50B), Copy5 0 2 3 4 1), ((L50C, L50D), Copy5 1 0 2 3 4),
     ((L50D, L50A), Copy5 1 2 0 3 4), ((L50D, L50B), Copy5 1 2 3 4 0), ((L50D, L50C), Copy5 1 0 2 3 4)]"

definition copy_cases_6 :: "((c_int \<times> c_int) \<times> copy_case) list" where
  "copy_cases_6 =
    [((L51A, L51B), Copy6 0 1 4 5 2 3), ((L51A, L51C), Copy6 0 2 1 4 5 3), ((L51A, L51D), Copy6 2 0 1 4 5 3),
     ((L51B, L51A), Copy6 0 1 4 5 2 3), ((L51B, L51C), Copy6 0 4 1 2 3 5), ((L51B, L51D), Copy6 4 0 1 2 3 5),
     ((L51B, L51E), Copy6 5 0 4 1 2 3), ((L51C, L51A), Copy6 0 2 1 5 3 4), ((L51C, L51B), Copy6 0 2 3 4 1 5),
     ((L51C, L51D), Copy6 1 0 2 3 4 5), ((L51D, L51A), Copy6 1 2 0 5 3 4), ((L51D, L51B), Copy6 1 2 3 4 0 5),
     ((L51D, L51C), Copy6 1 0 2 3 4 5), ((L51E, L51B), Copy6 1 3 4 5 2 0), ((L51F, L51B), Copy6 1 2 4 5 0 3)]"

definition copy_cases_8 :: "((c_int \<times> c_int) \<times> copy_case) list" where
  "copy_cases_8 =
    [((L71A, L71B), Copy8 0 1 4 5 2 3 6 7), ((L71B, L71A), Copy8 0 1 4 5 2 3 6 7),
     ((L71D, L71B), Copy8 1 2 3 4 0 7 5 6)]"

definition copy_cases :: "((c_int \<times> c_int) \<times> copy_case) list" where
  "copy_cases = copy_cases_5 @ copy_cases_6 @ copy_cases_8"

definition switch_on :: "((c_int \<times> c_int) \<times> 'a) list \<Rightarrow> c_int \<Rightarrow> c_int \<Rightarrow> 'a option" where
  "switch_on cases a b = map_of (map (\<lambda>((x, y), v). (layout_pair x y, v)) cases) (layout_pair a b)"

definition run_copy :: "copy_case \<Rightarrow> buf \<Rightarrow> buf \<Rightarrow> nat \<Rightarrow> nat \<Rightarrow> buf option" where
  "run_copy c dest src samples samplesize = (case c of
     Copy5 a b c d e \<Rightarrow> reorder_copy_5ch dest src samples samplesize a b c d e
   | Copy6 a b c d e f \<Rightarrow> reorder_copy_6ch dest src samples samplesize a b c d e f
   | Copy8 a b c d e f g h \<Rightarrow> reorder_copy_8ch dest src samples samplesize a b c d e f g h)"

definition reorder_channel_copy ::
  "buf \<Rightarrow> c_int \<Rightarrow> buf \<Rightarrow> c_int \<Rightarrow> nat \<Rightarrow> nat \<Rightarrow> buf option" where
  "reorder_channel_copy src src_layout dest dest_layout samples samplesize =
     (if dest_layout = src_layout then fast_memcpy dest src (samples * samplesize)
      else if \<not> AF_IS_SAME_CH_NUM dest_layout src_layout then Some dest
      else (case switch_on copy_cases src_layout dest_layout of
          Some c \<Rightarrow> run_copy c dest src samples samplesize
        | None \<Rightarrow> fast_memcpy dest src (samples * samplesize)))"

subsection \<open>Reordering in place\<close>

text \<open>
  The macros \<^verbatim>\<open>REORDER_SELF_SWAP_n\<close> are sequences of rotations: the first element is saved,
  each element is overwritten by the next one of the list, the last one by the saved value.
\<close>

fun rotate_from :: "nat \<Rightarrow> nat \<Rightarrow> nat list \<Rightarrow> buf \<Rightarrow> buf \<Rightarrow> buf option" where
  "rotate_from w i [] tmp b = Some b"
| "rotate_from w i [a] tmp b = put_elem w (i + a) tmp b"
| "rotate_from w i (a # a' # as) tmp b =
     (case get_elem w (i + a') b of None \<Rightarrow> None
      | Some x \<Rightarrow> (case put_elem w (i + a) x b of None \<Rightarrow> None
          | Some b' \<Rightarrow> rotate_from w i (a' # as) tmp b'))"

definition rotate_elems :: "nat \<Rightarrow> nat \<Rightarrow> nat list \<Rightarrow> buf \<Rightarrow> buf option" where
  "rotate_elems w i c b = (case c of [] \<Rightarrow> Some b
     | a # as \<Rightarrow> (case get_elem w (i + a) b of None \<Rightarrow> None | Some tmp \<Rightarrow> rotate_from w i c tmp b))"

fun self_round :: "nat \<Rightarrow> nat \<Rightarrow> nat list list \<Rightarrow> buf \<Rightarrow> buf option" where
  "self_round w i [] b = Some b"
| "self_round w i (c # cs) b =
     (case rotate_elems w i c b of None \<Rightarrow> None | Some b' \<Rightarrow> self_round w i cs b')"

function self_loop :: "nat \<Rightarrow> nat \<Rightarrow> nat list list \<Rightarrow> nat \<Rightarrow> nat \<Rightarrow> buf \<Rightarrow> buf option" where
  "self_loop w chnum cs i samples b =
     (if i \<ge> samples then Some b
      else if chnum = 0 then None
      else (case self_round w i cs b of None \<Rightarrow> None
        | Some b' \<Rightarrow> self_loop w chnum cs (i + chnum) samples b'))"
  by pat_completeness auto
termination
  by (relation "measure (\<lambda>(w, chnum, cs, i, samples, b). samples - i)") auto

declare self_loop.simps [simp del]

definition reorder_self_2 :: "buf \<Rightarrow> nat \<Rightarrow> nat \<Rightarrow> nat \<Rightarrow> nat \<Rightarrow> nat \<Rightarrow> buf option" where
  "reorder_self_2 src samples samplesize chnum s0 s1 =
     (let swap = (\<lambda>n. self_loop samplesize n [[s0, s1]] 0 samples src) in
      if samplesize = 1 then swap (if chnum = 6 then 6 else if chnum = 8 then 8 else 5)
      else if samplesize = 2 then
        swap (if chnum = 6 then 6 else if chnum = 3 then 3 else if chnum = 4 then 3 else 5)
      else if samplesize = 3 then swap chnum
      else if samplesize = 4 \<or> samplesize = 8 then
        swap (if chnum = 6 then 6 else if chnum = 3 then 3 else if chnum = 4 then 4 else 5)
      else Some src)"

definition reorder_self_3 :: "buf \<Rightarrow> nat \<Rightarrow> nat \<Rightarrow> nat \<Rightarrow> nat \<Rightarrow> nat \<Rightarrow> nat \<Rightarrow> buf option" where
  "reorder_self_3 src samples samplesize chnum s0 s1 s2 =
     (if supported_size samplesize then
        self_loop samplesize (if samplesize = 3 then chnum else if chnum = 6 then 6 else 5)
          [[s0, s1, s2]] 0 samples src
      else Some src)"

definition step_6_8_5 :: "nat \<Rightarrow> nat \<Rightarrow> nat" where
  "step_6_8_5 samplesize chnum =
     (if samplesize = 3 then chnum else if chnum = 6 then 6 else if chnum = 8 then 8 else 5)"

definition reorder_self_4_step_1 ::
  "buf \<Rightarrow> nat \<Rightarrow> nat \<Rightarrow> nat \<Rightarrow> nat \<Rightarrow> nat \<Rightarrow> nat \<Rightarrow> nat \<Rightarrow> buf option" where
  "reorder_self_4_step_1 src samples samplesize chnum s0 s1 s2 s3 =
     (if supported_size samplesize then
        self_loop samplesize (step_6_8_5 samplesize chnum) [[s0, s1, s2, s3]] 0 samples src
      else Some src)"

definition reorder_self_4_step_2 ::
  "buf \<Rightarrow> nat \<Rightarrow> nat \<Rightarrow> nat \<Rightarrow> nat \<Rightarrow> nat \<Rightarrow> nat \<Rightarrow> nat \<Rightarrow> buf option" where
  "reorder_self_4_step_2 src samples samplesize chnum s0 s1 s2 s3 =
     (if samplesize = 3 then self_loop 3 chnum [[s0, s2], [s1, s3]] 0 samples src
      else Some src)"

definition reorder_self_5_step_1 ::
  "buf \<Rightarrow> nat \<Rightarrow> nat \<Rightarrow> nat \<Rightarrow> nat \<Rightarrow> nat \<Rightarrow> nat \<Rightarrow> nat \<Rightarrow> nat \<Rightarrow> buf option" where
  "reorder_self_5_step_1 src samples samplesize chnum s0 s1 s2 s3 s4 =
     (if supported_size samplesize then
        self_loop samplesize (step_6_8_5 samplesize chnum) [[s0, s1, s2, s3, s4]] 0 samples src
      else Some src)"

definition reorder_self_2_3 ::
  "buf \<Rightarrow> nat \<Rightarrow> nat \<Rightarrow> nat \<Rightarrow> nat \<Rightarrow> nat \<Rightarrow> nat \<Rightarrow> nat \<Rightarrow> buf option" where
  "reorder_self_2_3 src samples samplesize s0 s1 s2 s3 s4 =
     (if supported_size samplesize then
        self_loop samplesize 6 [[s0, s1], [s2, s3, s4]] 0 samples src
      else Some src)"

definition reorder_self_3_3 ::
  "buf \<Rightarrow> nat \<Rightarrow> nat \<Rightarrow> nat \<Rightarrow> nat \<Rightarrow> nat \<Rightarrow> nat \<Rightarrow> nat \<Rightarrow> nat \<Rightarrow> buf option" where
  "reorder_self_3_3 src samples samplesize s0 s1 s2 s3 s4 s5 =
     (if supported_size samplesize then
        self_loop samplesize 6 [[s0, s1, s2], [s3, s4, s5]] 0 samples src
      else Some src)"

definition reorder_self_2_4 ::
  "buf \<Rightarrow> nat \<Rightarrow> nat \<Rightarrow> nat \<Rightarrow> nat \<Rightarrow> nat \<Rightarrow> nat \<Rightarrow> nat \<Rightarrow> nat \<Rightarrow> nat \<Rightarrow> buf option" where
  "reorder_self_2_4 src samples samplesize chnum s0 s1 s2 s3 s4 s5 =
     (if supported_size samplesize then
        self_loop samplesize (if samplesize = 3 then chnum else if chnum = 6 then 6 else 8)
          [[s0, s1], [s2, s3, s4, s5]] 0 samples src
      else Some src)"

text \<open>The cases of the switch of \<^verbatim>\<open>reorder_channel\<close>.\<close>

datatype self_case = Self2 nat nat nat | Self3 nat nat nat nat | Self4 nat nat nat nat nat
  | Self5 nat nat nat nat nat nat | Self23 nat nat nat nat nat | Self33 nat nat nat nat nat nat
  | Self24 nat nat nat nat nat nat nat | Pairs_or_3 nat nat | B_to_D_7_1

definition self_cases_5 :: "((c_int \<times> c_int) \<times> self_case) list" where
  "self_cases_5 =
    [((L50A, L50B), Self3 5 2 3 4), ((L50A, L50C), Self2 5 1 2), ((L50A, L50D), Self3 5 2 1 0),
     ((L50B, L50A), Self3 5 4 3 2), ((L50B, L50C), Self4 5 4 3 2 1), ((L50B, L50D), Self5 5 4 3 2 1 0),
     ((L50C, L50A), Self2 5 1 2), ((L50C, L50B), Self4 5 1 2 3 4), ((L50C, L50D), Self2 5 0 1),
     ((L50D, L50A), Self3 5 0 1 2), ((L50D, L50B), Self5 5 0 1 2 3 4), ((L50D, L50C), Self2 5 0 1)]"

definition self_cases_6 :: "((c_int \<times> c_int) \<times> self_case) list" where
  "self_cases_6 =
    [((L51A, L51B), Pairs_or_3 3 6), ((L51A, L51C), Self23 1 2 3 4 5), ((L51A, L51D), Self33 2 1 0 3 4 5),
     ((L51B, L51A), Pairs_or_3 3 6), ((L51B, L51C), Self4 6 4 3 2 1), ((L51B, L51D), Self5 6 4 3 2 1 0),
     ((L51B, L51E), Self24 6 2 4 5 3 1 0), ((L51C, L51A), Self23 1 2 5 4 3), ((L51C, L51B), Self4 6 1 2 3 4),
     ((L51C, L51D), Self2 6 0 1), ((L51D, L51A), Self33 0 1 2 5 4 3), ((L51D, L51B), Self5 6 0 1 2 3 4),
     ((L51D, L51C), Self2 6 0 1), ((L51E, L51B), Self24 6 2 4 0 1 3 5), ((L51F, L51B), Self24 6 3 5 0 1 2 4)]"

definition self_cases_8 :: "((c_int \<times> c_int) \<times> self_case) list" where
  "self_cases_8 =
    [((L71A, L71B), Pairs_or_3 4 8), ((L71B, L71A), Pairs_or_3 4 8), ((L71B, L71D), B_to_D_7_1),
     ((L71C, L71B), Self4 8 1 2 3 4), ((L71F, L71B), Self24 8 3 5 0 1 2 4)]"

definition self_cases :: "((c_int \<times> c_int) \<times> self_case) list" where
  "self_cases = self_cases_5 @ self_cases_6 @ self_cases_8"

definition run_self :: "self_case \<Rightarrow> buf \<Rightarrow> nat \<Rightarrow> nat \<Rightarrow> buf option" where
  "run_self c src samples samplesize = (case c of
     Self2 n a b \<Rightarrow> reorder_self_2 src samples samplesize n a b
   | Self3 n a b c \<Rightarrow> reorder_self_3 src samples samplesize n a b c
   | Self4 n a b c d \<Rightarrow> reorder_self_4_step_1 src samples samplesize n a b c d
   | Self5 n a b c d e \<Rightarrow> reorder_self_5_step_1 src samples samplesize n a b c d e
   | Self23 a b c d e \<Rightarrow> reorder_self_2_3 src samples samplesize a b c d e
   | Self33 a b c d e f \<Rightarrow> reorder_self_3_3 src samples samplesize a b c d e f
   | Self24 n a b c d e f \<Rightarrow> reorder_self_2_4 src samples samplesize n a b c d e f
   | Pairs_or_3 n2 n \<Rightarrow>
       (if samplesize \<noteq> 3 then reorder_self_2 src (samples div 2) (samplesize * 2) n2 1 2
        else reorder_self_4_step_2 src samples samplesize n 2 3 4 5)
   | B_to_D_7_1 \<Rightarrow>
       (case reorder_self_2_4 src samples samplesize 8 3 5 4 2 1 0 of None \<Rightarrow> None
        | Some src' \<Rightarrow> reorder_self_5_step_1 src' samples samplesize 8 3 4 5 6 7))"

definition reorder_channel :: "buf \<Rightarrow> c_int \<Rightarrow> c_int \<Rightarrow> nat \<Rightarrow> nat \<Rightarrow> buf option" where
  "reorder_channel src src_layout dest_layout samples samplesize =
     (if dest_layout = src_layout then Some src
      else if \<not> AF_IS_SAME_CH_NUM dest_layout src_layout then Some src
      else (case switch_on self_cases src_layout dest_layout of
          Some c \<Rightarrow> run_self c src samples samplesize
        | None \<Rightarrow> Some src))"

subsection \<open>Reordering by audio source\<close>

definition AF_CHANNEL_LAYOUT_SOURCE_NUM :: int where "AF_CHANNEL_LAYOUT_SOURCE_NUM = 5"

definition channel_layout_mapping_5ch :: "c_int list" where
  "channel_layout_mapping_5ch = [L50B, L50D, L50A, L50A, L50C]"

definition channel_layout_mapping_6ch :: "c_int list" where
  "channel_layout_mapping_6ch = [L51B, L51D, L51A, L51A, L51C]"

definition channel_layout_mapping_8ch :: "c_int list" where
  "channel_layout_mapping_8ch = [L71B, L71D, L71A, L71A, L71C]"

definition source_out_of_range :: "int \<Rightarrow> int \<Rightarrow> int \<Rightarrow> bool" where
  "source_out_of_range src_layout dest_layout chnum \<longleftrightarrow>
     chnum < 5 \<or> chnum = 7 \<or> chnum > 8 \<or> src_layout < 0 \<or> dest_layout < 0
     \<or> src_layout \<ge> AF_CHANNEL_LAYOUT_SOURCE_NUM \<or> dest_layout \<ge> AF_CHANNEL_LAYOUT_SOURCE_NUM"

definition channel_layout_mapping :: "int \<Rightarrow> int \<Rightarrow> c_int" where
  "channel_layout_mapping chnum source =
     (if chnum = 6 then channel_layout_mapping_6ch
      else if chnum = 8 then channel_layout_mapping_8ch
      else channel_layout_mapping_5ch) ! nat source"

definition reorder_channel_copy_nch ::
  "buf \<Rightarrow> int \<Rightarrow> buf \<Rightarrow> int \<Rightarrow> int \<Rightarrow> nat \<Rightarrow> nat \<Rightarrow> buf option" where
  "reorder_channel_copy_nch src src_layout dest dest_layout chnum samples samplesize =
     (if source_out_of_range src_layout dest_layout chnum
      then fast_memcpy dest src (samples * samplesize)
      else reorder_channel_copy src (channel_layout_mapping chnum src_layout)
             dest (channel_layout_mapping chnum dest_layout) samples samplesize)"

definition reorder_channel_nch :: "buf \<Rightarrow> int \<Rightarrow> int \<Rightarrow> int \<Rightarrow> nat \<Rightarrow> nat \<Rightarrow> buf option" where
  "reorder_channel_nch b src_layout dest_layout chnum samples samplesize =
     (if src_layout = dest_layout \<or> source_out_of_range src_layout dest_layout chnum then Some b
      else reorder_channel b (channel_layout_mapping chnum src_layout)
             (channel_layout_mapping chnum dest_layout) samples samplesize)"

subsection \<open>Buffers as lists of elements\<close>

definition elems_ok :: "nat \<Rightarrow> buf list \<Rightarrow> bool" where
  "elems_ok w xs \<longleftrightarrow> (\<forall>x \<in> set xs. length x = w)"

lemma elems_ok_simps [simp]:
  "elems_ok w []" "elems_ok w (x # xs) \<longleftrightarrow> length x = w \<and> elems_ok w xs"
  "elems_ok w (xs @ ys) \<longleftrightarrow> elems_ok w xs \<and> elems_ok w ys"
  by (auto simp: elems_ok_def)

lemma elems_ok_nth: "elems_ok w xs \<Longrightarrow> i < length xs \<Longrightarrow> length (xs ! i) = w"
  by (simp add: elems_ok_def)

lemma elems_ok_upd: "elems_ok w xs \<Longrightarrow> length x = w \<Longrightarrow> elems_ok w (xs[i := x])"
  unfolding elems_ok_def using set_update_subset_insert by fastforce

lemma elems_length: "elems_ok w xs \<Longrightarrow> length (concat xs) = w * length xs"
  by (induction xs) auto

lemma elem_split:
  assumes "elems_ok w xs" and "i < length xs"
  shows "concat xs = concat (take i xs) @ xs ! i @ concat (drop (Suc i) xs)"
    and "length (concat (take i xs)) = w * i"
proof -
  show "concat xs = concat (take i xs) @ xs ! i @ concat (drop (Suc i) xs)"
    by (metis assms(2) concat.simps(2) concat_append id_take_nth_drop)
  have "elems_ok w (take i xs)" using assms by (auto simp: elems_ok_def dest: in_set_takeD)
  then show "length (concat (take i xs)) = w * i" using assms by (simp add: elems_length)
qed

lemma get_elem_concat:
  assumes "elems_ok w xs" and "i < length xs"
  shows "get_elem w i (concat xs) = Some (xs ! i)"
proof -
  have "w * i + w \<le> w * length xs"
    using assms(2) by (metis Suc_leI mult.commute mult_Suc mult_le_mono2 add.commute)
  moreover have "take w (drop (w * i) (concat xs)) = xs ! i"
    using elem_split [OF assms] elems_ok_nth [OF assms] by simp
  ultimately show ?thesis by (simp add: get_elem_def elems_length [OF assms(1)])
qed

lemma put_elem_concat:
  assumes "elems_ok w xs" and "i < length xs"
  shows "put_elem w i x (concat xs) = Some (concat (xs[i := x]))"
proof -
  have "w * i + w \<le> w * length xs"
    using assms(2) by (metis Suc_leI mult.commute mult_Suc mult_le_mono2 add.commute)
  moreover have "take (w * i) (concat xs) = concat (take i xs)"
      "drop (w * i + w) (concat xs) = concat (drop (Suc i) xs)"
    using elem_split [OF assms] elems_ok_nth [OF assms] by simp_all
  ultimately show ?thesis
    by (simp add: put_elem_def elems_length [OF assms(1)] upd_conv_take_nth_drop [OF assms(2)])
qed

subsection \<open>The rounds on elements\<close>

fun copy_at :: "nat \<Rightarrow> nat \<Rightarrow> nat list \<Rightarrow> 'a list \<Rightarrow> 'a list \<Rightarrow> 'a list" where
  "copy_at i k [] xs ys = ys"
| "copy_at i k (s # ss) xs ys = copy_at i (k + 1) ss xs (ys[i + k := xs ! (i + s)])"

lemma copy_round_elems:
  assumes "elems_ok w xs" and "elems_ok w ys" and "\<forall>s \<in> set ss. i + s < length xs"
    and "i + k + length ss \<le> length ys"
  shows "copy_round w i k ss (concat xs) (concat ys) = Some (concat (copy_at i k ss xs ys))
    \<and> elems_ok w (copy_at i k ss xs ys)"
  using assms
proof (induction ss arbitrary: k ys)
  case (Cons s ss)
  then show ?case
    using elems_ok_upd [of w ys "xs ! (i + s)" "i + k"]
    by (simp add: get_elem_concat put_elem_concat elems_ok_nth)
qed simp

lemma copy_at_frame:
  assumes "\<forall>s \<in> set ss. s < length fr" and "k + length ss = length out"
    and "length pre' = length pre"
  shows "copy_at (length pre) k ss (pre @ fr @ post) (pre' @ out @ post')
    = pre' @ (take k out @ map (\<lambda>s. fr ! s) ss) @ post'"
  using assms
proof (induction ss arbitrary: k out)
  case (Cons s ss)
  have "k < length out" using Cons.prems by simp
  then have "(pre' @ out @ post')[length pre + k := (pre @ fr @ post) ! (length pre + s)]
      = pre' @ (out[k := fr ! s]) @ post'"
    using Cons.prems by (simp add: list_update_append nth_append)
  moreover have "take (k + 1) (out[k := fr ! s]) = take k out @ [fr ! s]"
    using \<open>k < length out\<close> by (simp add: take_Suc_conv_app_nth)
  ultimately show ?case using Cons.IH [of "k + 1" "out[k := fr ! s]"] Cons.prems by simp
qed simp

fun rot_from :: "nat \<Rightarrow> nat list \<Rightarrow> 'a \<Rightarrow> 'a list \<Rightarrow> 'a list" where
  "rot_from i [] tmp xs = xs"
| "rot_from i [a] tmp xs = xs[i + a := tmp]"
| "rot_from i (a # a' # as) tmp xs = rot_from i (a' # as) tmp (xs[i + a := xs ! (i + a')])"

definition rot_at :: "nat \<Rightarrow> nat list \<Rightarrow> 'a list \<Rightarrow> 'a list" where
  "rot_at i c xs = (case c of [] \<Rightarrow> xs | a # as \<Rightarrow> rot_from i c (xs ! (i + a)) xs)"

definition rots :: "nat list list \<Rightarrow> 'a list \<Rightarrow> 'a list" where
  "rots cs = fold (rot_at 0) cs"

lemma rot_from_length [simp]: "length (rot_from i c tmp xs) = length xs"
  by (induction i c tmp xs rule: rot_from.induct) auto

lemma rot_at_length [simp]: "length (rot_at i c xs) = length xs"
  by (simp add: rot_at_def split: list.split)

lemma rots_length [simp]: "length (rots cs xs) = length xs"
  by (induction cs arbitrary: xs) (auto simp: rots_def)

lemma rotate_from_elems:
  assumes "elems_ok w xs" and "\<forall>s \<in> set c. i + s < length xs" and "length tmp = w"
  shows "rotate_from w i c tmp (concat xs) = Some (concat (rot_from i c tmp xs))
    \<and> elems_ok w (rot_from i c tmp xs)"
  using assms
proof (induction i c tmp xs rule: rot_from.induct)
  case (3 i a a' as tmp xs)
  then show ?case
    using elems_ok_upd [of w xs "xs ! (i + a')" "i + a"]
    by (simp add: get_elem_concat put_elem_concat elems_ok_nth)
qed (auto simp: put_elem_concat elems_ok_upd)

lemma rotate_elems_elems:
  assumes "elems_ok w xs" and "\<forall>s \<in> set c. i + s < length xs"
  shows "rotate_elems w i c (concat xs) = Some (concat (rot_at i c xs)) \<and> elems_ok w (rot_at i c xs)"
  using assms rotate_from_elems [OF assms]
  by (cases c) (auto simp: rotate_elems_def rot_at_def get_elem_concat elems_ok_nth)

lemma rot_from_frame:
  "\<forall>s \<in> set c. s < length fr \<Longrightarrow>
   rot_from (length pre) c tmp (pre @ fr @ post) = pre @ rot_from 0 c tmp fr @ post"
proof (induction "0 :: nat" c tmp fr rule: rot_from.induct)
  case (3 a a' as tmp fr)
  then show ?case by (simp add: list_update_append nth_append)
qed (simp_all add: list_update_append)

lemma rot_at_frame:
  "\<forall>s \<in> set c. s < length fr \<Longrightarrow> rot_at (length pre) c (pre @ fr @ post) = pre @ rot_at 0 c fr @ post"
  by (auto simp: rot_at_def rot_from_frame nth_append split: list.split)

lemma self_round_elems:
  assumes "elems_ok w (pre @ fr @ post)" and "\<forall>c \<in> set cs. \<forall>s \<in> set c. s < length fr"
  shows "self_round w (length pre) cs (concat (pre @ fr @ post)) = Some (concat (pre @ rots cs fr @ post))
    \<and> elems_ok w (pre @ rots cs fr @ post)"
  using assms
proof (induction cs arbitrary: fr)
  case Nil
  then show ?case by (simp add: rots_def)
next
  case (Cons c cs)
  have "\<forall>s \<in> set c. length pre + s < length (pre @ fr @ post)" using Cons.prems by auto
  note r = rotate_elems_elems [OF Cons.prems(1) this]
  have f: "rot_at (length pre) c (pre @ fr @ post) = pre @ rot_at 0 c fr @ post"
    using Cons.prems by (intro rot_at_frame) simp
  have "rots (c # cs) fr = rots cs (rot_at 0 c fr)" by (simp add: rots_def)
  then show ?case using Cons.IH [of "rot_at 0 c fr"] r Cons.prems unfolding f by simp
qed

text \<open>Rotations only move elements, so they commute with any naming of the elements.\<close>

lemma rot_from_map:
  "\<forall>s \<in> set c. i + s < length xs \<Longrightarrow> rot_from i c (f tmp) (map f xs) = map f (rot_from i c tmp xs)"
  by (induction i c tmp xs rule: rot_from.induct) (auto simp flip: map_update)

lemma rots_map:
  "\<forall>c \<in> set cs. \<forall>s \<in> set c. s < length xs \<Longrightarrow> rots cs (map f xs) = map f (rots cs xs)"
proof (induction cs arbitrary: xs)
  case (Cons c cs)
  have "rot_at 0 c (map f xs) = map f (rot_at 0 c xs)"
    using Cons.prems rot_from_map [of c 0 xs f]
    by (cases c) (auto simp: rot_at_def)
  then show ?case using Cons by (simp add: rots_def)
qed (simp add: rots_def)

subsection \<open>The loops on frames\<close>

text \<open>A frame gives each speaker its sample; \<open>render\<close> interleaves the samples of a layout.\<close>

definition frame_elems :: "'n list \<Rightarrow> ('n \<Rightarrow> buf) list \<Rightarrow> buf list" where
  "frame_elems ns frames = concat (map (\<lambda>fr. map fr ns) frames)"

definition render :: "'n list \<Rightarrow> ('n \<Rightarrow> buf) list \<Rightarrow> buf" where
  "render ns frames = concat (frame_elems ns frames)"

definition frames_ok :: "nat \<Rightarrow> ('n \<Rightarrow> buf) list \<Rightarrow> bool" where
  "frames_ok w frames \<longleftrightarrow> (\<forall>fr \<in> set frames. \<forall>n. length (fr n) = w)"

lemma frame_elems_simps [simp]:
  "frame_elems ns [] = []" "frame_elems ns (fr # frames) = map fr ns @ frame_elems ns frames"
  by (simp_all add: frame_elems_def)

lemma frame_elems_ok: "frames_ok w frames \<Longrightarrow> elems_ok w (frame_elems ns frames)"
  by (induction frames) (auto simp: frames_ok_def elems_ok_def)

lemma frame_elems_length: "length (frame_elems ns frames) = length ns * length frames"
  by (induction frames) auto

lemma render_length: "frames_ok w frames \<Longrightarrow> length (render ns frames) = w * (length ns * length frames)"
  by (simp add: render_def elems_length [OF frame_elems_ok] frame_elems_length)

lemma copy_loop_elems:
  assumes "frames_ok w frames" and "elems_ok w pre" and "elems_ok w (pre' @ out)"
    and "length pre' = length pre" and "length out = length ns * length frames"
    and "perm \<noteq> []" and "length perm = length ns" and "\<forall>s \<in> set perm. s < length ns"
  shows "copy_loop w perm (length pre) (length pre + length ns * length frames)
      (concat (pre @ frame_elems ns frames)) (concat (pre' @ out))
    = Some (concat (pre' @ frame_elems (map ((!) ns) perm) frames))"
  using assms(1-5)
proof (induction frames arbitrary: pre pre' out)
  case Nil
  then show ?case by (simp add: copy_loop.simps)
next
  case (Cons fr frames)
  let ?n = "length ns"
  let ?out1 = "take ?n out" and ?out2 = "drop ?n out"
  let ?fr' = "map fr (map ((!) ns) perm)"
  have n: "0 < ?n" using assms(6,7) by auto
  have len1: "length ?out1 = ?n" using Cons.prems(5) by simp
  have ok: "elems_ok w (pre @ map fr ns @ frame_elems ns frames)"
    using Cons.prems frame_elems_ok [OF Cons.prems(1), of ns] by simp
  have ok': "elems_ok w (pre' @ ?out1 @ ?out2)" using Cons.prems by simp
  have "copy_round w (length pre) 0 perm (concat (pre @ map fr ns @ frame_elems ns frames))
      (concat (pre' @ ?out1 @ ?out2))
    = Some (concat (copy_at (length pre) 0 perm (pre @ map fr ns @ frame_elems ns frames)
        (pre' @ ?out1 @ ?out2)))"
  proof (rule copy_round_elems [OF ok ok', THEN conjunct1])
    show "\<forall>s \<in> set perm. length pre + s < length (pre @ map fr ns @ frame_elems ns frames)"
      using assms(8) by auto
    show "length pre + 0 + length perm \<le> length (pre' @ ?out1 @ ?out2)"
      using Cons.prems(4,5) assms(7) by simp
  qed
  also have "copy_at (length pre) 0 perm (pre @ map fr ns @ frame_elems ns frames) (pre' @ ?out1 @ ?out2)
      = pre' @ (take 0 ?out1 @ map (\<lambda>s. map fr ns ! s) perm) @ ?out2"
    by (rule copy_at_frame) (use assms(6-8) Cons.prems(4) len1 in auto)
  also have "take 0 ?out1 @ map (\<lambda>s. map fr ns ! s) perm = ?fr'"
    using assms(8) by simp
  finally have round: "copy_round w (length pre) 0 perm (concat (pre @ map fr ns @ frame_elems ns frames))
      (concat (pre' @ out)) = Some (concat (pre' @ ?fr' @ ?out2))" by simp
  have "elems_ok w (pre @ map fr ns)" "elems_ok w ((pre' @ ?fr') @ ?out2)"
    using ok ok' Cons.prems(1) by (auto simp: elems_ok_def frames_ok_def dest: in_set_dropD)
  from Cons.IH [OF _ this] Cons.prems
  have "copy_loop w perm (length (pre @ map fr ns)) (length (pre @ map fr ns) + ?n * length frames)
      (concat ((pre @ map fr ns) @ frame_elems ns frames)) (concat ((pre' @ ?fr') @ ?out2))
    = Some (concat ((pre' @ ?fr') @ frame_elems (map ((!) ns) perm) frames))"
    using assms(7) by (simp add: frames_ok_def)
  then show ?case using round n assms(6,7)
    by (subst copy_loop.simps) (simp add: add.assoc)
qed

lemma copy_loop_render:
  assumes "frames_ok w frames" and "length dest = w * (length ns * length frames)"
    and "perm \<noteq> []" and "length perm = length ns" and "\<forall>s \<in> set perm. s < length ns"
    and "samples = length ns * length frames"
  shows "copy_loop w perm 0 samples (render ns frames) dest = Some (render (map ((!) ns) perm) frames)"
proof -
  have ex: "\<exists>out. elems_ok w out \<and> length out = k \<and> concat out = d" if "length d = w * k" for k and d :: buf
    using that
  proof (induction k arbitrary: d)
    case (Suc k)
    from Suc.prems have "length (drop w d) = w * k" "length (take w d) = w" by simp_all
    with Suc.IH [of "drop w d"] obtain out where "elems_ok w out" "length out = k" "concat out = drop w d"
      by blast
    with \<open>length (take w d) = w\<close> show ?case by (intro exI [of _ "take w d # out"]) simp
  qed simp
  from ex [OF assms(2)] obtain out where "elems_ok w out" "length out = length ns * length frames"
    "concat out = dest" by blast
  with copy_loop_elems [OF assms(1), of "[]" "[]" out ns perm] assms show ?thesis
    by (simp add: render_def)
qed

lemma self_loop_elems:
  assumes "frames_ok w frames" and "elems_ok w pre" and "ns \<noteq> []"
    and "\<forall>c \<in> set cs. \<forall>s \<in> set c. s < length ns"
  shows "self_loop w (length ns) cs (length pre) (length pre + length ns * length frames)
      (concat (pre @ frame_elems ns frames)) = Some (concat (pre @ frame_elems (rots cs ns) frames))"
  using assms(1,2)
proof (induction frames arbitrary: pre)
  case Nil
  then show ?case by (simp add: self_loop.simps)
next
  case (Cons fr frames)
  have ok: "elems_ok w (pre @ map fr ns @ frame_elems ns frames)"
    using Cons.prems frame_elems_ok [OF Cons.prems(1), of ns] by simp
  have r: "rots cs (map fr ns) = map fr (rots cs ns)" by (rule rots_map [OF assms(4)])
  from self_round_elems [OF ok, of cs] assms(4)
  have round: "self_round w (length pre) cs (concat (pre @ map fr ns @ frame_elems ns frames))
      = Some (concat (pre @ map fr (rots cs ns) @ frame_elems ns frames))"
    and ok1: "elems_ok w (pre @ map fr (rots cs ns))" by (simp_all add: r)
  have "frames_ok w frames" using Cons.prems by (simp add: frames_ok_def)
  from Cons.IH [OF this ok1] round show ?case using assms(3)
    by (subst self_loop.simps) (simp add: add.assoc)
qed

lemma self_loop_render:
  assumes "frames_ok w frames" and "ns \<noteq> []" and "\<forall>c \<in> set cs. \<forall>s \<in> set c. s < length ns"
    and "samples = length ns * length frames" and "n = length ns"
  shows "self_loop w n cs 0 samples (render ns frames) = Some (render (rots cs ns) frames)"
  using self_loop_elems [OF assms(1) _ assms(2,3), of "[]"] assms(4,5) by (simp add: render_def)

text \<open>Two neighbouring elements of \<open>w\<close> bytes are one element of twice the size.\<close>

fun pairs :: "'n list \<Rightarrow> ('n \<times> 'n) list" where
  "pairs (a # b # r) = (a, b) # pairs r"
| "pairs _ = []"

definition unpairs :: "('n \<times> 'n) list \<Rightarrow> 'n list" where
  "unpairs ps = concat (map (\<lambda>(a, b). [a, b]) ps)"

definition pair_frame :: "('n \<Rightarrow> buf) \<Rightarrow> ('n \<times> 'n \<Rightarrow> buf)" where
  "pair_frame fr p = fr (fst p) @ fr (snd p)"

lemma render_unpairs: "render (unpairs ps) frames = render ps (map pair_frame frames)"
proof -
  have "concat (map fr (unpairs ps)) = concat (map (pair_frame fr) ps)" for fr :: "'a \<Rightarrow> buf"
    by (induction ps) (auto simp: unpairs_def pair_frame_def)
  then show ?thesis by (induction frames) (auto simp: render_def)
qed

lemma frames_ok_pair: "frames_ok w frames \<Longrightarrow> frames_ok (w * 2) (map pair_frame frames)"
  by (auto simp: frames_ok_def pair_frame_def)

subsection \<open>The tables\<close>

definition perm_of :: "copy_case \<Rightarrow> nat list" where
  "perm_of c = (case c of Copy5 a b c d e \<Rightarrow> [a, b, c, d, e] | Copy6 a b c d e f \<Rightarrow> [a, b, c, d, e, f]
     | Copy8 a b c d e f g h \<Rightarrow> [a, b, c, d, e, f, g, h])"

definition copy_case_ok :: "c_int \<Rightarrow> c_int \<Rightarrow> copy_case \<Rightarrow> bool" where
  "copy_case_ok a b c \<longleftrightarrow> a \<noteq> b \<and> AF_IS_SAME_CH_NUM b a \<and> perm_of c \<noteq> []
     \<and> length (perm_of c) = length (speakers a) \<and> list_all (\<lambda>s. s < length (speakers a)) (perm_of c)
     \<and> map ((!) (speakers a)) (perm_of c) = speakers b"

lemma copy_cases_distinct: "distinct (map (\<lambda>((x, y), v). layout_pair x y) copy_cases)"
  by code_simp

lemma speakers_eqs:
  "speakers L50A = [L, R, C, Ls, Rs]" "speakers L50B = [L, R, Ls, Rs, C]"
  "speakers L50C = [L, C, R, Ls, Rs]" "speakers L50D = [C, L, R, Ls, Rs]"
  "speakers L51A = [L, R, C, LFE, Ls, Rs]" "speakers L51B = [L, R, Ls, Rs, C, LFE]"
  "speakers L51C = [L, C, R, Ls, Rs, LFE]" "speakers L51D = [C, L, R, Ls, Rs, LFE]"
  "speakers L51E = [LFE, L, C, R, Ls, Rs]" "speakers L51F = [C, L, R, LFE, Ls, Rs]"
  "speakers L71A = [L, R, C, LFE, Ls, Rs, Rls, Rrs]" "speakers L71B = [L, R, Ls, Rs, C, LFE, Rls, Rrs]"
  "speakers L71C = [L, C, R, Ls, Rs, LFE, Rls, Rrs]" "speakers L71D = [C, L, R, Ls, Rs, Rls, Rrs, LFE]"
  "speakers L71F = [C, L, R, LFE, Ls, Rs, Rls, Rrs]"
  by (simp_all add: speakers_def layout_table_def layout_defs)

lemma copy_cases_pairs:
  "list_all (\<lambda>((a, b), c). a \<noteq> b \<and> AF_IS_SAME_CH_NUM b a) copy_cases"
  by code_simp

lemma copy_cases_perms:
  "list_all (\<lambda>((a, b), c). perm_of c \<noteq> []
     \<and> length (perm_of c) = length (speakers a) \<and> list_all (\<lambda>s. s < length (speakers a)) (perm_of c)
     \<and> map ((!) (speakers a)) (perm_of c) = speakers b) copy_cases"
  by (simp add: copy_cases_def copy_cases_5_def copy_cases_6_def copy_cases_8_def speakers_eqs perm_of_def)

lemma copy_cases_ok: "list_all (\<lambda>((a, b), c). copy_case_ok a b c) copy_cases"
  using copy_cases_pairs copy_cases_perms by (auto simp: list_all_iff copy_case_ok_def)

lemma switch_on_in:
  assumes "distinct (map (\<lambda>((x, y), v). layout_pair x y) cases)" and "((a, b), c) \<in> set cases"
  shows "switch_on cases a b = Some c"
proof -
  have "map fst (map (\<lambda>((x, y), v). (layout_pair x y, v)) cases) = map (\<lambda>((x, y), v). layout_pair x y) cases"
    by (simp add: split_def)
  with assms(1) have "distinct (map fst (map (\<lambda>((x, y), v). (layout_pair x y, v)) cases))"
    by (simp only:)
  then show ?thesis unfolding switch_on_def by (rule map_of_is_SomeI) (use assms(2) in force)
qed

lemma supported_mod: "supported_size w \<Longrightarrow> w mod 256 = w"
  by (auto simp: supported_size_def)

lemma run_copy_loop:
  "supported_size w \<Longrightarrow> run_copy c dest src samples w = copy_loop w (perm_of c) 0 samples src dest"
  by (cases c) (simp_all add: run_copy_def perm_of_def reorder_copy_5ch_def reorder_copy_6ch_def
      reorder_copy_8ch_def supported_mod)

text \<open>
  C5. Copying between two layouts puts every speaker's sample where the destination layout has
  that speaker, for every pair of layouts the switch lists, every supported sample size and any
  number of frames; no access leaves the buffers.
\<close>

theorem reorder_channel_copy_correct:
  assumes "(sl, dl) \<in> set (map fst copy_cases)" and "supported_size samplesize"
    and "frames_ok samplesize frames" and "samples = length (speakers sl) * length frames"
    and "length dest = samplesize * samples"
  shows "reorder_channel_copy (render (speakers sl) frames) sl dest dl samples samplesize
    = Some (render (speakers dl) frames)"
proof -
  obtain c where c: "((sl, dl), c) \<in> set copy_cases" using assms(1) by auto
  then have ok: "copy_case_ok sl dl c" using copy_cases_ok by (auto simp: list_all_iff)
  have "copy_loop samplesize (perm_of c) 0 samples (render (speakers sl) frames) dest
      = Some (render (map ((!) (speakers sl)) (perm_of c)) frames)"
    by (rule copy_loop_render [OF assms(3)]) (use ok assms(4,5) in \<open>auto simp: copy_case_ok_def list_all_iff\<close>)
  then show ?thesis
    using ok switch_on_in [OF copy_cases_distinct c] assms(2)
    by (auto simp: reorder_channel_copy_def copy_case_ok_def run_copy_loop)
qed

theorem reorder_channel_copy_correct_witness:
  "reorder_channel_copy (render (speakers L51D) [\<lambda>s. if s = C then [1, 1] else if s = LFE then [2, 2] else [3, 3]])
      L51D (replicate 12 0) L51B 6 2
    = Some (render (speakers L51B) [\<lambda>s. if s = C then [1, 1] else if s = LFE then [2, 2] else [3, 3]])"
proof (rule reorder_channel_copy_correct)
  show "(L51D, L51B) \<in> set (map fst copy_cases)"
    by (simp add: copy_cases_def copy_cases_6_def)
  show "6 = length (speakers L51D) * length [\<lambda>s. if s = C then [1, 1] else if s = LFE then [2, 2] else [3 :: byte, 3]]"
    by (simp add: speakers_def layout_table_def layout_defs)
qed (auto simp: supported_size_def frames_ok_def)

text \<open>The effect of a case of \<^verbatim>\<open>reorder_channel\<close> on the channels of one frame, and the channel
  counts it is written for.\<close>

definition self_cycles :: "self_case \<Rightarrow> nat list list" where
  "self_cycles c = (case c of Self2 n a b \<Rightarrow> [[a, b]] | Self3 n a b c \<Rightarrow> [[a, b, c]]
     | Self4 n a b c d \<Rightarrow> [[a, b, c, d]] | Self5 n a b c d e \<Rightarrow> [[a, b, c, d, e]]
     | Self23 a b c d e \<Rightarrow> [[a, b], [c, d, e]] | Self33 a b c d e f \<Rightarrow> [[a, b, c], [d, e, f]]
     | Self24 n a b c d e f \<Rightarrow> [[a, b], [c, d, e, f]] | Pairs_or_3 n2 n \<Rightarrow> [[2, 4], [3, 5]]
     | B_to_D_7_1 \<Rightarrow> [[3, 5], [4, 2, 1, 0], [3, 4, 5, 6, 7]])"

definition self_channels :: "self_case \<Rightarrow> nat \<Rightarrow> bool" where
  "self_channels c m = (case c of Self2 n a b \<Rightarrow> n = m \<and> (m = 5 \<or> m = 6)
     | Self3 n a b c \<Rightarrow> n = m \<and> (m = 5 \<or> m = 6)
     | Self4 n a b c d \<Rightarrow> n = m \<and> (m = 5 \<or> m = 6 \<or> m = 8)
     | Self5 n a b c d e \<Rightarrow> n = m \<and> (m = 5 \<or> m = 6 \<or> m = 8)
     | Self23 a b c d e \<Rightarrow> m = 6 | Self33 a b c d e f \<Rightarrow> m = 6
     | Self24 n a b c d e f \<Rightarrow> n = m \<and> (m = 6 \<or> m = 8)
     | Pairs_or_3 n2 n \<Rightarrow> n = m \<and> 2 * n2 = m \<and> (m = 6 \<or> m = 8) | B_to_D_7_1 \<Rightarrow> m = 8)"

definition self_case_ok :: "c_int \<Rightarrow> c_int \<Rightarrow> self_case \<Rightarrow> bool" where
  "self_case_ok a b c \<longleftrightarrow> self_channels c (length (speakers a))
     \<and> list_all (list_all (\<lambda>s. s < length (speakers a))) (self_cycles c)
     \<and> rots (self_cycles c) (speakers a) = speakers b
     \<and> (case c of Pairs_or_3 n2 n \<Rightarrow> unpairs (pairs (speakers a)) = speakers a
           \<and> length (pairs (speakers a)) = n2
           \<and> unpairs (rots [[1, 2]] (pairs (speakers a))) = speakers b
         | _ \<Rightarrow> True)"

lemma self_cases_distinct: "distinct (map (\<lambda>((x, y), v). layout_pair x y) self_cases)"
  by code_simp

lemma self_cases_pairs:
  "list_all (\<lambda>((a, b), c). a \<noteq> b \<and> AF_IS_SAME_CH_NUM b a) self_cases"
  by code_simp

lemma self_cases_ok: "list_all (\<lambda>((a, b), c). self_case_ok a b c) self_cases"
  by (simp add: self_cases_def self_cases_5_def self_cases_6_def self_cases_8_def speakers_eqs
      self_case_ok_def self_channels_def self_cycles_def rots_def rot_at_def unpairs_def)

text \<open>The sizes that a case handles: the pair trick has no loop for some of them.\<close>

definition self_size_ok :: "self_case \<Rightarrow> nat \<Rightarrow> bool" where
  "self_size_ok c w \<longleftrightarrow> supported_size w
     \<and> (case c of Pairs_or_3 n2 n \<Rightarrow> w \<noteq> 8 \<and> \<not> (w = 1 \<and> n2 = 4) | _ \<Rightarrow> True)"

lemma run_self_render:
  assumes ok: "self_case_ok a b c" and w: "self_size_ok c w" and fr: "frames_ok w frames"
    and samples: "samples = length (speakers a) * length frames"
  shows "run_self c (render (speakers a) frames) samples w = Some (render (speakers b) frames)"
proof -
  let ?ns = "speakers a"
  have ch: "self_channels c (length ?ns)" and b: "rots (self_cycles c) ?ns = speakers b"
    and idx: "\<forall>c \<in> set (self_cycles c). \<forall>s \<in> set c. s < length ?ns"
    using ok by (auto simp: self_case_ok_def list_all_iff)
  have w': "supported_size w" using w by (simp add: self_size_ok_def)
  have ne: "?ns \<noteq> []" using ch by (auto simp: self_channels_def split: self_case.splits)
  have loop: "self_loop w n cs 0 samples (render ns frames) = Some (render (rots cs ns) frames)"
    if "n = length ns" "length ns = length ?ns" "\<forall>c \<in> set cs. \<forall>s \<in> set c. s < length ?ns" for n cs ns
  proof -
    have "ns \<noteq> []" using that(2) ne by auto
    then show ?thesis using self_loop_render [OF fr, of ns cs samples n] that samples by simp
  qed
  note l = loop [of _ ?ns "self_cycles c", OF _ refl idx]
  show ?thesis
  proof (cases c)
    case (Self2 n a b)
    then show ?thesis using l ch w' idx b
      by (auto simp: run_self_def self_channels_def self_cycles_def reorder_self_2_def supported_size_def)
  next
    case (Self3 n a b c)
    then show ?thesis using l ch w' b
      by (auto simp: run_self_def self_channels_def self_cycles_def reorder_self_3_def)
  next
    case (Self4 n a b c d)
    then show ?thesis using l ch w' b
      by (auto simp: run_self_def self_channels_def self_cycles_def reorder_self_4_step_1_def step_6_8_5_def)
  next
    case (Self5 n a b c d e)
    then show ?thesis using l ch w' b
      by (auto simp: run_self_def self_channels_def self_cycles_def reorder_self_5_step_1_def step_6_8_5_def)
  next
    case (Self23 a b c d e)
    then show ?thesis using l ch w' b
      by (auto simp: run_self_def self_channels_def self_cycles_def reorder_self_2_3_def)
  next
    case (Self33 a b c d e f)
    then show ?thesis using l ch w' b
      by (auto simp: run_self_def self_channels_def self_cycles_def reorder_self_3_3_def)
  next
    case (Self24 n a b c d e f)
    then show ?thesis using l ch w' b
      by (auto simp: run_self_def self_channels_def self_cycles_def reorder_self_2_4_def)
  next
    case B_to_D_7_1
    then have m: "length ?ns = 8" using ch by (simp add: self_channels_def)
    have "rots [[3, 4, 5, 6, 7]] (rots [[3, 5], [4, 2, 1, 0]] ?ns) = speakers b"
      using b B_to_D_7_1 by (simp add: self_cycles_def rots_def)
    then show ?thesis
      using loop [of 8 ?ns "[[3, 5], [4, 2, 1, 0]]"]
        loop [of 8 "rots [[3, 5], [4, 2, 1, 0]] ?ns" "[[3, 4, 5, 6, 7]]"] m w' B_to_D_7_1
      by (auto simp: run_self_def reorder_self_2_4_def reorder_self_5_step_1_def step_6_8_5_def)
  next
    case (Pairs_or_3 n2 n)
    then have n: "n = length ?ns" "2 * n2 = length ?ns" "n2 = 3 \<or> n2 = 4"
      using ch by (auto simp: self_channels_def)
    show ?thesis
    proof (cases "w = 3")
      case True
      then show ?thesis using l b Pairs_or_3 n(1)
        by (simp add: run_self_def self_cycles_def reorder_self_4_step_2_def)
    next
      case False
      let ?ps = "pairs ?ns"
      have up: "unpairs ?ps = ?ns" and lps: "length ?ps = n2" and b2: "unpairs (rots [[1, 2]] ?ps) = speakers b"
        using ok Pairs_or_3 by (auto simp: self_case_ok_def)
      have r: "render ?ns frames = render ?ps (map pair_frame frames)"
        using render_unpairs [of ?ps frames] up by simp
      have s2: "samples div 2 = length ?ps * length (map pair_frame frames)"
        using samples n(2) lps by (metis length_map mult.assoc nonzero_mult_div_cancel_left numeral_2_eq_2 nat.distinct(1))
      have "self_loop (w * 2) n2 [[1, 2]] 0 (samples div 2) (render ?ns frames)
          = Some (render (rots [[1, 2]] ?ps) (map pair_frame frames))"
        unfolding r using n(3) lps
        by (intro self_loop_render [OF frames_ok_pair [OF fr] _ _ s2]) auto
      also have "\<dots> = Some (render (speakers b) frames)"
        using render_unpairs [of "rots [[1, 2]] ?ps" frames] b2 by simp
      finally show ?thesis
        using w Pairs_or_3 False n(3)
        by (auto simp: run_self_def reorder_self_2_def self_size_ok_def supported_size_def)
    qed
  qed
qed

text \<open>
  C9. Reordering in place gives the destination layout for every pair of layouts the switch
  lists, every number of frames and every supported sample size, with two exceptions: the cases
  that swap pairs of samples do not work for 8-byte samples, nor on eight channels of 1-byte
  samples.
\<close>

theorem reorder_channel_correct:
  assumes "((sl, dl), c) \<in> set self_cases" and "self_size_ok c samplesize"
    and "frames_ok samplesize frames" and "samples = length (speakers sl) * length frames"
  shows "reorder_channel (render (speakers sl) frames) sl dl samples samplesize
    = Some (render (speakers dl) frames)"
proof -
  have "self_case_ok sl dl c" "sl \<noteq> dl \<and> AF_IS_SAME_CH_NUM dl sl"
    using self_cases_ok self_cases_pairs assms(1) by (auto simp: list_all_iff)
  then show ?thesis
    using run_self_render [OF _ assms(2-4)] switch_on_in [OF self_cases_distinct assms(1)]
    by (auto simp: reorder_channel_def)
qed

theorem reorder_channel_correct_witness:
  "reorder_channel (render (speakers L71B) [\<lambda>s. if s = C then [1] else if s = LFE then [2] else [3]]) L71B L71D 8 1
    = Some (render (speakers L71D) [\<lambda>s. if s = C then [1] else if s = LFE then [2] else [3]])"
proof (rule reorder_channel_correct)
  show "((L71B, L71D), B_to_D_7_1) \<in> set self_cases"
    by (simp add: self_cases_def self_cases_8_def)
  show "8 = length (speakers L71B) * length [\<lambda>s. if s = C then [1] else if s = LFE then [2] else [3 :: byte]]"
    by (simp add: speakers_eqs)
qed (auto simp: self_size_ok_def supported_size_def frames_ok_def)

text \<open>Frames whose samples are their own position, for the counterexamples.\<close>

definition numbered_samples :: "nat \<Rightarrow> buf" where
  "numbered_samples n = map of_nat [0..<n]"


text \<open>
  Wherever both work, the copying and the in-place routine agree, also through the
  dispatch by audio source: reordering a buffer of complete frames in place gives what copying
  it to another buffer gives.
\<close>

theorem reorder_nch_agree:
  assumes "((sl, dl), c) \<in> set self_cases" and "(sl, dl) \<in> set (map fst copy_cases)"
    and "self_size_ok c samplesize" and "frames_ok samplesize frames"
    and "samples = length (speakers sl) * length frames" and "length dest = samplesize * samples"
    and "sl = channel_layout_mapping chnum s" and "dl = channel_layout_mapping chnum d"
    and "\<not> source_out_of_range s d chnum"
  shows "reorder_channel_nch (render (speakers sl) frames) s d chnum samples samplesize
    = reorder_channel_copy_nch (render (speakers sl) frames) s dest d chnum samples samplesize"
proof -
  have w: "supported_size samplesize" using assms(3) by (simp add: self_size_ok_def)
  have ne: "sl \<noteq> dl \<and> AF_IS_SAME_CH_NUM dl sl" and ok: "self_case_ok sl dl c"
    using self_cases_pairs self_cases_ok assms(1) by (auto simp: list_all_iff)
  have "s \<noteq> d" using ne assms(7,8) by auto
  obtain c' where c': "((sl, dl), c') \<in> set copy_cases" using assms(2) by auto
  then have ok': "copy_case_ok sl dl c'" using copy_cases_ok by (auto simp: list_all_iff)
  have "copy_loop samplesize (perm_of c') 0 samples (render (speakers sl) frames) dest
      = Some (render (map ((!) (speakers sl)) (perm_of c')) frames)"
    by (rule copy_loop_render [OF assms(4)]) (use ok' assms(5,6) in \<open>auto simp: copy_case_ok_def list_all_iff\<close>)
  then have "reorder_channel_copy (render (speakers sl) frames) sl dest dl samples samplesize
      = Some (render (speakers dl) frames)"
    using ok' switch_on_in [OF copy_cases_distinct c'] w
    by (auto simp: reorder_channel_copy_def copy_case_ok_def run_copy_loop)
  moreover have "reorder_channel (render (speakers sl) frames) sl dl samples samplesize
      = Some (render (speakers dl) frames)"
    using run_self_render [OF ok assms(3-5)] switch_on_in [OF self_cases_distinct assms(1)] ne
    by (auto simp: reorder_channel_def)
  ultimately show ?thesis
    using assms(7-9) \<open>s \<noteq> d\<close> by (simp add: reorder_channel_nch_def reorder_channel_copy_nch_def)
qed

theorem reorder_nch_agree_witness:
  "reorder_channel_nch (render (speakers L51D) [\<lambda>s. if s = C then [1] else [3]]) 1 0 6 6 1
    = reorder_channel_copy_nch (render (speakers L51D) [\<lambda>s. if s = C then [1] else [3]]) 1 (replicate 6 0) 0 6 6 1"
proof (rule reorder_nch_agree)
  show "((L51D, L51B), Self5 6 0 1 2 3 4) \<in> set self_cases" "(L51D, L51B) \<in> set (map fst copy_cases)"
    by (simp_all add: self_cases_def self_cases_6_def copy_cases_def copy_cases_6_def)
  show "6 = length (speakers L51D) * length [\<lambda>s. if s = C then [1] else [3 :: byte]]"
    by (simp add: speakers_eqs)
qed (auto simp: self_size_ok_def supported_size_def frames_ok_def channel_layout_mapping_def
    channel_layout_mapping_6ch_def source_out_of_range_def AF_CHANNEL_LAYOUT_SOURCE_NUM_def)

end
