(* ===== verification/Stream.thy ===== *)
theory Stream
  imports MP_Prelude "HOL-Library.Monad_Syntax" "HOL-Library.Signed_Division"
begin

text \<open>
  The buffered byte stream of \<^verbatim>\<open>stream/stream.h\<close> and \<^verbatim>\<open>stream/stream.c\<close>, with the callbacks of
  \<^verbatim>\<open>stream/stream_file.c\<close> as its provider. The function pointers of a \<^verbatim>\<open>stream_t\<close> are the record
  \<open>stream_ops\<close>, an argument of the operations; a callback reads and changes the whole stream. What
  the callbacks keep outside the stream (the file descriptor, \<^verbatim>\<open>priv\<close>) is the field \<open>dev\<close>.

  Modelled is a stream with \<^verbatim>\<open>CONFIG_NETWORKING\<close> but no \<^verbatim>\<open>streaming_ctrl\<close>, no capture stream and no
  cache process (\<^verbatim>\<open>cache_pid == 0\<close>, where \<^verbatim>\<open>cache_stream_fill_buffer\<close> is \<^verbatim>\<open>stream_fill_buffer\<close>).
  The pointer and length a callback is given are its length argument and the bytes it returns,
  which the caller stores; a return value \<open>\<le> 0\<close> is the empty list. Loops that depend on the
  callbacks to end are partial functions: \<open>None\<close> is a call that never returns.
\<close>

section \<open>The stream and its callbacks\<close>

record 'd stream =
  st_type :: int
  flags :: nat
  sector_size :: int
  buf_pos :: nat
  buf_len :: nat
  pos :: int
  start_pos :: int
  end_pos :: int
  eof :: bool
  mode :: nat
  buffer :: "byte list"
  dev :: 'd

text \<open>
  \<open>op_fill\<close> and \<open>op_seek\<close> are the pointers \<^verbatim>\<open>fill_buffer\<close> and \<^verbatim>\<open>seek\<close>, which may be \<^verbatim>\<open>NULL\<close>;
  \<open>op_reset\<close> is \<^verbatim>\<open>control(s, STREAM_CTRL_RESET, NULL)\<close>. \<open>op_os_read\<close> is \<^verbatim>\<open>read\<close> on the descriptor
  and \<open>op_ds_read\<close> is \<^verbatim>\<open>demux_read_data\<close>, which two stream types call instead.
\<close>

record 'd stream_ops =
  op_fill :: "('d stream \<Rightarrow> nat \<Rightarrow> byte list \<times> 'd stream) option"
  op_seek :: "('d stream \<Rightarrow> int \<Rightarrow> bool \<times> 'd stream) option"
  op_reset :: "('d stream \<Rightarrow> 'd stream) option"
  op_os_read :: "'d stream \<Rightarrow> nat \<Rightarrow> byte list \<times> 'd stream"
  op_ds_read :: "'d stream \<Rightarrow> nat \<Rightarrow> byte list \<times> 'd stream"

definition STREAMTYPE_FILE :: int where "STREAMTYPE_FILE = 0"
definition STREAMTYPE_STREAM :: int where "STREAMTYPE_STREAM = 2"
definition STREAMTYPE_MEMORY :: int where "STREAMTYPE_MEMORY = 4"
definition STREAMTYPE_DS :: int where "STREAMTYPE_DS = 8"
definition STREAMTYPE_DVDNAV :: int where "STREAMTYPE_DVDNAV = 9"
definition STREAM_BUFFER_MIN :: nat where "STREAM_BUFFER_MIN = 2048"
definition STREAM_BUFFER_SIZE :: nat where "STREAM_BUFFER_SIZE = 2 * STREAM_BUFFER_MIN"
definition STREAM_MAX_SECTOR_SIZE :: nat where "STREAM_MAX_SECTOR_SIZE = 8 * 1024"
definition STREAM_READ :: nat where "STREAM_READ = 0"
definition STREAM_WRITE :: nat where "STREAM_WRITE = 1"
definition MP_STREAM_SEEK_BW :: nat where "MP_STREAM_SEEK_BW = 2"
definition MP_STREAM_SEEK_FW :: nat where "MP_STREAM_SEEK_FW = 4"

lemmas stream_consts = STREAMTYPE_FILE_def STREAMTYPE_STREAM_def STREAMTYPE_MEMORY_def
  STREAMTYPE_DS_def STREAMTYPE_DVDNAV_def STREAM_BUFFER_MIN_def STREAM_BUFFER_SIZE_def
  STREAM_MAX_SECTOR_SIZE_def STREAM_READ_def STREAM_WRITE_def MP_STREAM_SEEK_BW_def
  MP_STREAM_SEEK_FW_def

text \<open>Bytes stored into a buffer at an offset.\<close>

definition store_at :: "byte list \<Rightarrow> nat \<Rightarrow> byte list \<Rightarrow> byte list" where
  "store_at m off bs = take off m @ bs @ drop (off + length bs) m"

section \<open>Reading and seeking below the buffer\<close>

definition stream_reset :: "'d stream_ops \<Rightarrow> 'd stream \<Rightarrow> 'd stream" where
  "stream_reset ops s =
     (let s = (if eof s then s\<lparr>buf_pos := 0, buf_len := 0, eof := False\<rparr> else s)
      in case op_reset ops of None \<Rightarrow> s | Some f \<Rightarrow> f s)"

text \<open>The results are the code's: -1 after a seek, 0 for a failed one, 1 where it is not possible.\<close>

definition stream_seek_internal :: "'d stream_ops \<Rightarrow> int \<Rightarrow> 'd stream \<Rightarrow> int \<times> 'd stream" where
  "stream_seek_internal ops newpos s =
     (if newpos = 0 \<or> newpos \<noteq> pos s then
        if st_type s = STREAMTYPE_STREAM then
          (case op_seek ops of
             Some f \<Rightarrow> (case f s newpos of (ok, s) \<Rightarrow> (if ok then -1 else 0, s))
           | None \<Rightarrow> (if newpos < pos s then 1 else -1, s))
        else
          (case op_seek ops of
             None \<Rightarrow> (0, s)
           | Some f \<Rightarrow> (case f s newpos of (ok, s) \<Rightarrow> (if ok then -1 else 0, s)))
      else (-1, s))"

definition MAX_RECONNECT_RETRIES :: nat where "MAX_RECONNECT_RETRIES = 5"

text \<open>The \<^verbatim>\<open>do\<close> loop of \<^verbatim>\<open>stream_reconnect\<close>: \<open>left\<close> is \<^verbatim>\<open>MAX_RECONNECT_RETRIES - retry\<close>.\<close>

fun reconnect_loop :: "'d stream_ops \<Rightarrow> nat \<Rightarrow> int \<Rightarrow> 'd stream \<Rightarrow> bool \<times> 'd stream" where
  "reconnect_loop ops 0 p s = (False, s)"
| "reconnect_loop ops (Suc left) p s =
     (case stream_seek_internal ops p (stream_reset ops (s\<lparr>eof := True\<rparr>)) of
        (res, s) \<Rightarrow>
          if res \<ge> 0 \<or> pos s \<noteq> p then reconnect_loop ops left p s else (True, s))"

definition stream_reconnect :: "'d stream_ops \<Rightarrow> 'd stream \<Rightarrow> bool \<times> 'd stream" where
  "stream_reconnect ops s = reconnect_loop ops MAX_RECONNECT_RETRIES (pos s) s"

text \<open>The \<^verbatim>\<open>switch\<close> of \<^verbatim>\<open>stream_read_internal\<close>: which source the bytes come from.\<close>

definition dev_read :: "'d stream_ops \<Rightarrow> nat \<Rightarrow> 'd stream \<Rightarrow> byte list \<times> 'd stream" where
  "dev_read ops len s =
     (if st_type s = STREAMTYPE_STREAM then
        (case op_fill ops of Some f \<Rightarrow> f s len | None \<Rightarrow> op_os_read ops s len)
      else if st_type s = STREAMTYPE_DS then op_ds_read ops s len
      else (case op_fill ops of Some f \<Rightarrow> f s len | None \<Rightarrow> ([], s)))"

partial_function (option) stream_read_internal ::
  "'d stream_ops \<Rightarrow> nat \<Rightarrow> 'd stream \<Rightarrow> (byte list \<times> 'd stream) option" where
  "stream_read_internal ops len s =
     (case dev_read ops len s of (bs, s) \<Rightarrow>
        if bs = [] then
          if eof s \<or> end_pos s \<noteq> 0 \<and> pos s = end_pos s \<or> st_type s = STREAMTYPE_DVDNAV
          then Some ([], s\<lparr>eof := True\<rparr>)
          else (case stream_reconnect ops s of (ok, s) \<Rightarrow>
                  if \<not> ok then Some ([], s\<lparr>eof := True\<rparr>)
                  else stream_read_internal ops len (s\<lparr>eof := True\<rparr>))
        else Some (bs, s\<lparr>eof := False, pos := pos s + int (length bs)\<rparr>))"

section \<open>The buffer\<close>

text \<open>The inner loop of \<^verbatim>\<open>stream_fill_buffer\<close>, which tops the buffer up to the minimum.\<close>

partial_function (option) fill_loop :: "'d stream_ops \<Rightarrow> 'd stream \<Rightarrow> 'd stream option" where
  "fill_loop ops s =
     (if buf_len s < STREAM_BUFFER_MIN then
        do { (bs, s') \<leftarrow> stream_read_internal ops STREAM_BUFFER_MIN s;
             if bs = [] then Some s'
             else fill_loop ops (s'\<lparr>buffer := store_at (buffer s') (buf_len s) bs,
                                    buf_len := buf_len s' + length bs\<rparr>) }
      else Some s)"

definition stream_fill_buffer :: "'d stream_ops \<Rightarrow> 'd stream \<Rightarrow> (nat \<times> 'd stream) option" where
  "stream_fill_buffer ops s =
     do { (bs, s) \<leftarrow> stream_read_internal ops STREAM_BUFFER_SIZE s;
          if bs = [] then Some (0, s)
          else do { s \<leftarrow> fill_loop ops (s\<lparr>buffer := store_at (buffer s) 0 bs,
                                          buf_pos := 0, buf_len := length bs\<rparr>);
                    Some (buf_len s, s\<lparr>eof := False\<rparr>) } }"

definition stream_tell :: "'d stream \<Rightarrow> int" where
  "stream_tell s = pos s + int (buf_pos s) - int (buf_len s)"

definition stream_eof :: "'d stream \<Rightarrow> bool" where "stream_eof s = eof s"

text \<open>A byte, or -256 at the end of the stream.\<close>

definition stream_read_char :: "'d stream_ops \<Rightarrow> 'd stream \<Rightarrow> (c_int \<times> 'd stream) option" where
  "stream_read_char ops s =
     (if buf_pos s < buf_len s
      then Some (ucast (buffer s ! buf_pos s), s\<lparr>buf_pos := buf_pos s + 1\<rparr>)
      else do { (r, s) \<leftarrow> stream_fill_buffer ops s;
                if r \<noteq> 0
                then Some (ucast (buffer s ! buf_pos s), s\<lparr>buf_pos := buf_pos s + 1\<rparr>)
                else Some (- 256, s) })"

definition stream_read_word :: "'d stream_ops \<Rightarrow> 'd stream \<Rightarrow> (u32 \<times> 'd stream) option" where
  "stream_read_word ops s =
     do { (x, s) \<leftarrow> stream_read_char ops s;
          (y, s) \<leftarrow> stream_read_char ops s;
          Some (push_bit 8 x OR y, s) }"

definition stream_read_dword :: "'d stream_ops \<Rightarrow> 'd stream \<Rightarrow> (u32 \<times> 'd stream) option" where
  "stream_read_dword ops s =
     do { (y, s) \<leftarrow> stream_read_char ops s;
          (c, s) \<leftarrow> stream_read_char ops s; let y = push_bit 8 y OR c;
          (c, s) \<leftarrow> stream_read_char ops s; let y = push_bit 8 y OR c;
          (c, s) \<leftarrow> stream_read_char ops s; let y = push_bit 8 y OR c;
          Some (y, s) }"

definition stream_read_word_le :: "'d stream_ops \<Rightarrow> 'd stream \<Rightarrow> (u32 \<times> 'd stream) option" where
  "stream_read_word_le ops s =
     do { (x, s) \<leftarrow> stream_read_char ops s;
          (y, s) \<leftarrow> stream_read_char ops s;
          Some (push_bit 8 y OR x, s) }"

definition stream_read_dword_le :: "'d stream_ops \<Rightarrow> 'd stream \<Rightarrow> (u32 \<times> 'd stream) option" where
  "stream_read_dword_le ops s =
     do { (y, s) \<leftarrow> stream_read_char ops s;
          (c, s) \<leftarrow> stream_read_char ops s; let y = y OR push_bit 8 c;
          (c, s) \<leftarrow> stream_read_char ops s; let y = y OR push_bit 16 c;
          (c, s) \<leftarrow> stream_read_char ops s; let y = y OR push_bit 24 c;
          Some (y, s) }"

text \<open>In the 64-bit readers the \<^verbatim>\<open>int\<close> of each byte is sign-extended.\<close>

definition qword_step ::
  "'d stream_ops \<Rightarrow> (u64 \<times> 'd stream) option \<Rightarrow> (u64 \<times> 'd stream) option" where
  "qword_step ops m =
     do { (y, s) \<leftarrow> m;
          (c, s) \<leftarrow> stream_read_char ops s;
          Some (push_bit 8 y OR scast c, s) }"

definition stream_read_qword :: "'d stream_ops \<Rightarrow> 'd stream \<Rightarrow> (u64 \<times> 'd stream) option" where
  "stream_read_qword ops s =
     (qword_step ops ^^ 7) (do { (c, s) \<leftarrow> stream_read_char ops s; Some (scast c, s) })"

definition stream_read_qword_le :: "'d stream_ops \<Rightarrow> 'd stream \<Rightarrow> (u64 \<times> 'd stream) option" where
  "stream_read_qword_le ops s =
     do { (y, s) \<leftarrow> stream_read_dword_le ops s;
          (h, s) \<leftarrow> stream_read_dword_le ops s;
          Some (ucast y OR push_bit 32 (ucast h), s) }"

definition stream_read_int24 :: "'d stream_ops \<Rightarrow> 'd stream \<Rightarrow> (u32 \<times> 'd stream) option" where
  "stream_read_int24 ops s =
     do { (y, s) \<leftarrow> stream_read_char ops s;
          (c, s) \<leftarrow> stream_read_char ops s; let y = push_bit 8 y OR c;
          (c, s) \<leftarrow> stream_read_char ops s; let y = push_bit 8 y OR c;
          Some (y, s) }"

text \<open>
  \<^verbatim>\<open>stream_read\<close>: the bytes copied to \<^verbatim>\<open>mem\<close>; their number is the code's result. A buffer position
  past the buffer's length, where the code would \<^verbatim>\<open>memcpy\<close> a negative size, has no result.
\<close>

partial_function (option) stream_read ::
  "'d stream_ops \<Rightarrow> nat \<Rightarrow> 'd stream \<Rightarrow> (byte list \<times> 'd stream) option" where
  "stream_read ops len s =
     (if len = 0 then Some ([], s)
      else if buf_pos s > buf_len s then None
      else if buf_pos s = buf_len s then
        do { (r, s) \<leftarrow> stream_fill_buffer ops s;
             if r = 0 then Some ([], s)
             else if buf_pos s > buf_len s then None
             else (let x = min (buf_len s - buf_pos s) len;
                       bs = take x (drop (buf_pos s) (buffer s))
                   in do { (cs, s) \<leftarrow> stream_read ops (len - x) (s\<lparr>buf_pos := buf_pos s + x\<rparr>);
                           Some (bs @ cs, s) }) }
      else (let x = min (buf_len s - buf_pos s) len;
                bs = take x (drop (buf_pos s) (buffer s))
            in do { (cs, s) \<leftarrow> stream_read ops (len - x) (s\<lparr>buf_pos := buf_pos s + x\<rparr>);
                    Some (bs @ cs, s) }))"

subsection \<open>Seeking\<close>

text \<open>The two loops of \<^verbatim>\<open>stream_seek_long\<close>.\<close>

partial_function (option) seek_forward_loop ::
  "'d stream_ops \<Rightarrow> int \<Rightarrow> 'd stream \<Rightarrow> 'd stream option" where
  "seek_forward_loop ops newpos s =
     (if pos s < newpos then
        do { (r, s) \<leftarrow> stream_fill_buffer ops s;
             if r = 0 then Some s else seek_forward_loop ops newpos s }
      else Some s)"

partial_function (option) seek_scan_loop ::
  "'d stream_ops \<Rightarrow> int \<Rightarrow> 'd stream \<Rightarrow> (int \<times> 'd stream) option" where
  "seek_scan_loop ops p s =
     do { (r, s) \<leftarrow> stream_fill_buffer ops s;
          if r > 0 \<and> p \<ge> 0 then
            if p \<le> int (buf_len s) then Some (1, s\<lparr>buf_pos := nat p\<rparr>)
            else seek_scan_loop ops (p - int (buf_len s)) s
          else Some (0, s) }"

definition stream_seek_long :: "'d stream_ops \<Rightarrow> 'd stream \<Rightarrow> int \<Rightarrow> (int \<times> 'd stream) option" where
  "stream_seek_long ops s p =
     (let s = s\<lparr>buf_pos := 0, buf_len := 0\<rparr> in
      if mode s = STREAM_WRITE then
        (case op_seek ops of
           None \<Rightarrow> Some (0, s)
         | Some f \<Rightarrow> (case f s p of (ok, s) \<Rightarrow> Some (if ok then 1 else 0, s)))
      else
        (let newpos = (if sector_size s \<noteq> 0 then (p sdiv sector_size s) * sector_size s
                       else p AND NOT (int STREAM_BUFFER_SIZE - 1))
         in case stream_seek_internal ops newpos s of (res, s) \<Rightarrow>
              if res \<ge> 0 then Some (res, s)
              else do { s \<leftarrow> seek_forward_loop ops newpos s;
                        seek_scan_loop ops (p - newpos) s }))"

definition stream_seek :: "'d stream_ops \<Rightarrow> 'd stream \<Rightarrow> int \<Rightarrow> (int \<times> 'd stream) option" where
  "stream_seek ops s p =
     (let p = (if p < 0 then 0 else p) in
      if buf_len s = 0 \<and> pos s = p then Some (1, s)
      else if p < pos s \<and> p - (pos s - int (buf_len s)) \<ge> 0
      then Some (1, s\<lparr>buf_pos := nat (p - (pos s - int (buf_len s)))\<rparr>)
      else stream_seek_long ops s p)"

partial_function (option) skip_loop ::
  "'d stream_ops \<Rightarrow> nat \<Rightarrow> 'd stream \<Rightarrow> (int \<times> 'd stream) option" where
  "skip_loop ops len s =
     (if len = 0 then Some (1, s)
      else if buf_pos s > buf_len s then None
      else if buf_pos s = buf_len s then
        do { (r, s) \<leftarrow> stream_fill_buffer ops s;
             if r = 0 then Some (0, s)
             else if buf_pos s > buf_len s then None
             else (let x = min (buf_len s - buf_pos s) len
                   in skip_loop ops (len - x) (s\<lparr>buf_pos := buf_pos s + x\<rparr>)) }
      else (let x = min (buf_len s - buf_pos s) len
            in skip_loop ops (len - x) (s\<lparr>buf_pos := buf_pos s + x\<rparr>)))"

definition stream_skip :: "'d stream_ops \<Rightarrow> 'd stream \<Rightarrow> int \<Rightarrow> (int \<times> 'd stream) option" where
  "stream_skip ops s len =
     (if len < 0 \<or> len > 2 * int STREAM_BUFFER_SIZE \<and> flags s AND MP_STREAM_SEEK_FW \<noteq> 0
      then stream_seek ops s (stream_tell s + len)
      else skip_loop ops (nat len) s)"

subsection \<open>Reading a line\<close>

text \<open>
  \<^verbatim>\<open>find_term_char\<close> and \<^verbatim>\<open>copy_characters\<close> for text that is not UTF-16. The first is the offset of the
  terminator, the second the bytes copied, whose number also becomes \<^verbatim>\<open>*len\<close>.
\<close>

fun find_term_char :: "byte \<Rightarrow> byte list \<Rightarrow> nat option" where
  "find_term_char t [] = None"
| "find_term_char t (b # bs) = (if b = t then Some 0 else map_option Suc (find_term_char t bs))"

definition copy_characters :: "nat \<Rightarrow> byte list \<Rightarrow> byte list" where
  "copy_characters dstsize src = take dstsize src"

text \<open>
  The loop of \<^verbatim>\<open>stream_read_until\<close> with \<open>room\<close> bytes of room: the bytes stored before the terminating
  zero. \<open>avail\<close> is the buffer from \<^verbatim>\<open>buf_pos\<close>, \<open>line\<close> the part of it up to the terminator.
\<close>

partial_function (option) read_until_loop ::
  "'d stream_ops \<Rightarrow> nat \<Rightarrow> byte \<Rightarrow> 'd stream \<Rightarrow> (byte list \<times> 'd stream) option" where
  "read_until_loop ops room t s =
     do { (go, s) \<leftarrow> (if buf_pos s < buf_len s then Some (True, s)
                      else do { (r, s) \<leftarrow> stream_fill_buffer ops s;
                                Some (r \<noteq> 0 \<and> buf_pos s < buf_len s, s) });
          if \<not> go then Some ([], s)
          else (let avail = take (buf_len s - buf_pos s) (drop (buf_pos s) (buffer s));
                    end = find_term_char t avail;
                    line = (case end of Some i \<Rightarrow> take (i + 1) avail | None \<Rightarrow> avail);
                    cs = (if line \<noteq> [] \<and> room > 0 then copy_characters room line else []);
                    len = (if line \<noteq> [] \<and> room > 0 then length cs else length line);
                    s = s\<lparr>buf_pos := buf_pos s + len\<rparr>
                in if end \<noteq> None then Some (cs, s)
                   else do { (ds, s) \<leftarrow> read_until_loop ops (room - length cs) t s;
                             Some (cs @ ds, s) }) }"

text \<open>The line read, without its terminating zero, or \<open>None\<close> for \<^verbatim>\<open>NULL\<close>.\<close>

definition stream_read_until ::
  "'d stream_ops \<Rightarrow> nat \<Rightarrow> byte \<Rightarrow> 'd stream \<Rightarrow> (byte list option \<times> 'd stream) option" where
  "stream_read_until ops room t s =
     (if room < 1 then Some (None, s)
      else do { (bs, s) \<leftarrow> read_until_loop ops (room - 1) t s;
                Some (if eof s \<and> bs = [] then None else Some bs, s) })"

definition stream_read_line ::
  "'d stream_ops \<Rightarrow> nat \<Rightarrow> 'd stream \<Rightarrow> (byte list option \<times> 'd stream) option" where
  "stream_read_line ops room s = stream_read_until ops room 10 s"

section \<open>Making a stream\<close>

definition new_stream :: "int \<Rightarrow> 'd \<Rightarrow> 'd stream" where
  "new_stream ty d =
     \<lparr>st_type = ty, flags = 0, sector_size = 0, buf_pos = 0, buf_len = 0, pos = 0, start_pos = 0,
      end_pos = 0, eof = False, mode = STREAM_READ, buffer = replicate STREAM_MAX_SECTOR_SIZE 0,
      dev = d\<rparr>"

text \<open>
  A stream over a block of memory has no callbacks; its buffer is the block. (The code allocates
  the structure's own buffer and the block's size after it.)
\<close>

definition memory_ops :: "unit stream_ops" where
  "memory_ops = \<lparr>op_fill = None, op_seek = None, op_reset = None,
     op_os_read = (\<lambda>s n. ([], s)), op_ds_read = (\<lambda>s n. ([], s))\<rparr>"

definition new_memory_stream :: "byte list \<Rightarrow> unit stream" where
  "new_memory_stream data =
     (let s = stream_reset memory_ops ((new_stream STREAMTYPE_MEMORY ())\<lparr>buf_len := length data,
                end_pos := int (length data),
                buffer := replicate (STREAM_MAX_SECTOR_SIZE + length data) 0\<rparr>)
      in s\<lparr>pos := int (length data), buffer := store_at (buffer s) 0 data\<rparr>)"

section \<open>Files\<close>

text \<open>
  An open file is its contents and the offset of its descriptor. \<open>chunks\<close> bounds what the next
  calls of \<^verbatim>\<open>read\<close> return, as a pipe or a signal may cut them short: each is at least one byte unless
  the file is at its end, and an empty list bounds nothing.
\<close>

record os_file =
  contents :: "byte list"
  offset :: int
  chunks :: "nat list"

definition os_read :: "nat \<Rightarrow> os_file \<Rightarrow> byte list \<times> os_file" where
  "os_read n f =
     (let n = (case chunks f of [] \<Rightarrow> n | c # _ \<Rightarrow> min n (max 1 c));
          bs = take n (drop (nat (offset f)) (contents f))
      in (bs, f\<lparr>offset := offset f + int (length bs), chunks := tl (chunks f)\<rparr>))"

definition os_lseek :: "int \<Rightarrow> os_file \<Rightarrow> bool \<times> os_file" where
  "os_lseek p f = (if p < 0 then (False, f) else (True, f\<lparr>offset := p\<rparr>))"

definition file_fill_buffer :: "os_file stream \<Rightarrow> nat \<Rightarrow> byte list \<times> os_file stream" where
  "file_fill_buffer s max_len =
     (case os_read max_len (dev s) of (bs, f) \<Rightarrow>
        (bs, s\<lparr>dev := f, eof := (if max_len \<noteq> 0 \<and> bs = [] then True else eof s)\<rparr>))"

definition file_seek :: "os_file stream \<Rightarrow> int \<Rightarrow> bool \<times> os_file stream" where
  "file_seek s newpos =
     (let s = s\<lparr>pos := newpos\<rparr> in
      case os_lseek newpos (dev s) of (ok, f) \<Rightarrow>
        if ok then (True, s\<lparr>dev := f\<rparr>) else (False, s\<lparr>eof := True\<rparr>))"

text \<open>
  \<^verbatim>\<open>control\<close> of a file stream answers only \<^verbatim>\<open>STREAM_CTRL_GET_SIZE\<close>: it looks at the end of the file and
  puts the offset back to the stream's position.
\<close>

definition file_get_size :: "os_file stream \<Rightarrow> int \<times> os_file stream" where
  "file_get_size s =
     (int (length (contents (dev s))), s\<lparr>dev := snd (os_lseek (pos s) (dev s))\<rparr>)"

definition file_ops :: "os_file stream_ops" where
  "file_ops = \<lparr>op_fill = Some file_fill_buffer, op_seek = Some file_seek,
     op_reset = Some (\<lambda>s. s),
     op_os_read = (\<lambda>s n. case os_read n (dev s) of (bs, f) \<Rightarrow> (bs, s\<lparr>dev := f\<rparr>)),
     op_ds_read = (\<lambda>s n. ([], s))\<rparr>"

text \<open>
  \<^verbatim>\<open>seek_forward\<close>, the \<^verbatim>\<open>seek\<close> of a descriptor that cannot \<^verbatim>\<open>lseek\<close>: it reads its way forward. As
  each turn reads at least one byte, the distance to go is fuel enough.
\<close>

fun seek_forward_steps :: "nat \<Rightarrow> int \<Rightarrow> os_file stream \<Rightarrow> os_file stream" where
  "seek_forward_steps 0 newpos s = s"
| "seek_forward_steps (Suc n) newpos s =
     (if pos s < newpos then
        (case file_fill_buffer s STREAM_BUFFER_SIZE of (bs, s) \<Rightarrow>
           if bs = [] then s\<lparr>eof := True, buf_pos := 0, buf_len := 0\<rparr>
           else seek_forward_steps n newpos
                  (s\<lparr>buffer := store_at (buffer s) 0 bs, buf_pos := 0, buf_len := length bs,
                     pos := pos s + int (length bs)\<rparr>))
      else s)"

definition file_seek_forward :: "os_file stream \<Rightarrow> int \<Rightarrow> bool \<times> os_file stream" where
  "file_seek_forward s newpos =
     (if newpos < pos s then (False, s)
      else (True, seek_forward_steps (nat (newpos - pos s)) newpos s))"

text \<open>
  \<^verbatim>\<open>write_buffer\<close> of a file: \<open>mem\<close> is the memory from the buffer on, of which the first \<open>len\<close> bytes are
  the caller's; \<open>rs\<close> are the counts the calls of \<^verbatim>\<open>write\<close> return (0 or less is a failure, and no more
  than asked is written). The result is the bytes that reach the file and whether it succeeded.
\<close>

fun file_write_loop :: "nat \<Rightarrow> int list \<Rightarrow> byte list \<Rightarrow> nat \<Rightarrow> byte list \<times> int" where
  "file_write_loop wr [] mem len = ([], if wr < len then -1 else int len)"
| "file_write_loop wr (r # rs) mem len =
     (if wr < len then
        if r \<le> 0 then ([], -1)
        else (let n = min (nat r) len in
              case file_write_loop (wr + n) rs (drop n mem) len of (out, res) \<Rightarrow>
                (take n mem @ out, res))
      else ([], int len))"

definition file_write_buffer :: "int list \<Rightarrow> byte list \<Rightarrow> nat \<Rightarrow> byte list \<times> int" where
  "file_write_buffer rs mem len = file_write_loop 0 rs mem len"

text \<open>
  A stream over a demuxer's packets (\<^verbatim>\<open>new_ds_stream\<close>): no callbacks, the bytes come from
  \<^verbatim>\<open>demux_read_data\<close>
  (the argument).
\<close>

definition new_ds_stream :: "'d \<Rightarrow> 'd stream" where
  "new_ds_stream ds = new_stream STREAMTYPE_DS ds"

definition ds_ops :: "('d \<Rightarrow> nat \<Rightarrow> byte list \<times> 'd) \<Rightarrow> 'd stream_ops" where
  "ds_ops demux_read_data = \<lparr>op_fill = None, op_seek = None, op_reset = None,
     op_os_read = (\<lambda>s n. ([], s)),
     op_ds_read = (\<lambda>s n. case demux_read_data (dev s) n of (bs, d) \<Rightarrow> (bs, s\<lparr>dev := d\<rparr>))\<rparr>"

section \<open>Opening a file\<close>

text \<open>
  The end of \<^verbatim>\<open>open_f\<close>, once the descriptor is open, and of \<^verbatim>\<open>open_stream_plugin\<close>: what a file opened
  for reading looks like when its size is known (\<^verbatim>\<open>lseek\<close> works) and when it is not, as on a pipe.
\<close>

definition set_seek_flags :: "nat \<Rightarrow> bool \<Rightarrow> nat" where
  "set_seek_flags fl has_seek =
     (let seek = MP_STREAM_SEEK_BW OR MP_STREAM_SEEK_FW;
          fl = (if fl AND seek \<noteq> 0 \<and> \<not> has_seek then unset_bit 2 (unset_bit 1 fl) else fl)
      in if has_seek \<and> fl AND seek = 0 then fl OR seek else fl)"

definition open_file :: "os_file \<Rightarrow> os_file stream" where
  "open_file f =
     (let s = new_stream (- 2) (f\<lparr>offset := 0\<rparr>);
          s = s\<lparr>end_pos := int (length (contents f)), st_type := STREAMTYPE_FILE\<rparr>
      in s\<lparr>flags := set_seek_flags (flags s) True, mode := STREAM_READ\<rparr>)"

definition open_pipe :: "os_file \<Rightarrow> os_file stream" where
  "open_pipe f =
     (let s = new_stream (- 2) f;
          s = s\<lparr>st_type := STREAMTYPE_STREAM, flags := flags s OR MP_STREAM_SEEK_FW\<rparr>
      in s\<lparr>flags := set_seek_flags (flags s) True, mode := STREAM_READ\<rparr>)"

definition pipe_ops :: "os_file stream_ops" where
  "pipe_ops = file_ops\<lparr>op_seek := Some file_seek_forward\<rparr>"

end
