(* ===== verification/Byte_Source.thy ===== *)
theory Byte_Source
  imports Stream
begin

text \<open>
  What the buffered stream needs of the device below it, as locales: \<open>byte_source\<close> for reading and
  \<open>seekable_source\<close> for seeking as well. Inside them, the operations of the stream are shown to read
  the device's content at the position \<^verbatim>\<open>stream_tell\<close> reports, up to a refinement of an abstract
  cursor. The contracts are interpreted on files, pipes and blocks of memory.
\<close>

section \<open>Byte sources\<close>

text \<open>The buffer holds the bytes of \<open>content\<close> that end at the stream's position.\<close>

definition buffered :: "byte list \<Rightarrow> 'd stream \<Rightarrow> bool" where
  "buffered content s \<longleftrightarrow>
     buf_pos s \<le> buf_len s \<and> buf_len s \<le> length (buffer s) \<and> int (buf_len s) \<le> pos s \<and>
     take (buf_len s) (buffer s) =
       take (buf_len s) (drop (nat (pos s - int (buf_len s))) content)"

text \<open>What no reading or seeking changes.\<close>

definition same_setup :: "'d stream \<Rightarrow> 'd stream \<Rightarrow> bool" where
  "same_setup s s' \<longleftrightarrow>
     st_type s' = st_type s \<and> flags s' = flags s \<and> sector_size s' = sector_size s \<and>
     mode s' = mode s \<and> start_pos s' = start_pos s \<and> end_pos s' = end_pos s"

lemma same_setup_refl [simp]: "same_setup s s"
  by (simp add: same_setup_def)

lemma same_setup_trans: "same_setup s s' \<Longrightarrow> same_setup s' s'' \<Longrightarrow> same_setup s s''"
  by (simp add: same_setup_def)

lemma same_setup_updates [simp]:
  "same_setup s (s'\<lparr>buf_pos := a\<rparr>) = same_setup s s'"
  "same_setup s (s'\<lparr>buf_len := b\<rparr>) = same_setup s s'"
  "same_setup s (s'\<lparr>pos := p\<rparr>) = same_setup s s'"
  "same_setup s (s'\<lparr>eof := e\<rparr>) = same_setup s s'"
  "same_setup s (s'\<lparr>buffer := m\<rparr>) = same_setup s s'"
  "same_setup s (s'\<lparr>dev := d\<rparr>) = same_setup s s'"
  by (simp_all add: same_setup_def)

lemma take_store_at:
  "off \<le> length m \<Longrightarrow> take (off + length bs) (store_at m off bs) = take off m @ bs"
  by (simp add: store_at_def)

lemma length_store_at: "off \<le> length m \<Longrightarrow> off + length bs \<le> length (store_at m off bs)"
  by (simp add: store_at_def)

lemma take_split: "take (a + b) (drop p xs) = take a (drop p xs) @ take b (drop (p + a) xs)"
  by (simp add: take_add add.commute)

lemma buffered_tell: "buffered content s \<Longrightarrow> 0 \<le> stream_tell s"
  by (simp add: buffered_def stream_tell_def)

lemma buffered_nth:
  assumes "buffered content s" and "buf_pos s < buf_len s"
  shows "buffer s ! buf_pos s = content ! nat (stream_tell s)"
    and "nat (stream_tell s) < length content"
proof -
  let ?p = "nat (pos s - int (buf_len s))"
  have eq: "take (buf_len s) (buffer s) = take (buf_len s) (drop ?p content)"
    and le: "buf_len s \<le> length (buffer s)" "int (buf_len s) \<le> pos s"
    using assms by (simp_all add: buffered_def)
  have tell: "nat (stream_tell s) = ?p + buf_pos s" using le by (simp add: stream_tell_def)
  have len: "buf_len s \<le> length content - ?p"
    using arg_cong [OF eq, of length] le by simp
  have "buffer s ! buf_pos s = take (buf_len s) (buffer s) ! buf_pos s" using assms by simp
  also have "\<dots> = content ! (?p + buf_pos s)" using assms(2) len by (simp add: eq)
  finally show "buffer s ! buf_pos s = content ! nat (stream_tell s)" by (simp add: tell)
  show "nat (stream_tell s) < length content" using len assms(2) by (simp add: tell)
qed

lemma buffered_take:
  assumes "buffered content s" and "x \<le> buf_len s - buf_pos s"
  shows "take x (drop (buf_pos s) (buffer s)) = take x (drop (nat (stream_tell s)) content)"
    and "length (take x (drop (nat (stream_tell s)) content)) = x"
proof -
  let ?p = "nat (pos s - int (buf_len s))"
  have eq: "take (buf_len s) (buffer s) = take (buf_len s) (drop ?p content)"
    and le: "buf_len s \<le> length (buffer s)" "int (buf_len s) \<le> pos s" "buf_pos s \<le> buf_len s"
    using assms by (simp_all add: buffered_def)
  have tell: "nat (stream_tell s) = buf_pos s + ?p" using le by (simp add: stream_tell_def)
  have "take x (drop (buf_pos s) (buffer s)) = take x (drop (buf_pos s) (take (buf_len s) (buffer s)))"
    using assms(2) by (simp add: drop_take min_def)
  also have "\<dots> = take x (drop (buf_pos s) (drop ?p content))"
    using assms(2) by (simp add: eq drop_take min_def)
  finally show 1: "take x (drop (buf_pos s) (buffer s)) = take x (drop (nat (stream_tell s)) content)"
    by (simp add: tell)
  have "length (take x (drop (buf_pos s) (buffer s))) = x" using assms(2) le by simp
  then show "length (take x (drop (nat (stream_tell s)) content)) = x" by (simp add: 1)
qed

lemma buffered_advance:
  assumes "buffered content s" and "x \<le> buf_len s - buf_pos s"
  shows "buffered content (s\<lparr>buf_pos := buf_pos s + x\<rparr>)"
  using assms by (auto simp: buffered_def)

lemma tell_advance: "stream_tell (s\<lparr>buf_pos := buf_pos s + x\<rparr>) = stream_tell s + int x"
  by (simp add: stream_tell_def)

text \<open>
  The contract between the buffer and what is below it: \<open>at s\<close> says that the device stands at the
  stream's position in \<open>content\<close>. A read returns bytes from there, as few as it likes; it returns
  none only at the end of the content, and then the end is recognisable, by the end-of-file flag
  or by the known end position.
\<close>

locale byte_source =
  fixes ops :: "'d stream_ops" and content :: "byte list" and at :: "'d stream \<Rightarrow> bool"
  assumes at_buffer: "at (s\<lparr>buf_pos := a, buf_len := b, eof := e, buffer := m\<rparr>) = at s"
    and at_pos: "at s \<Longrightarrow> 0 \<le> pos s"
    and at_read: "at s \<Longrightarrow> 0 < n \<Longrightarrow>
      \<exists>bs e d. dev_read ops n s = (bs, s\<lparr>eof := e, dev := d\<rparr>) \<and> length bs \<le> n \<and>
        bs = take (length bs) (drop (nat (pos s)) content) \<and>
        at (s\<lparr>dev := d, pos := pos s + int (length bs)\<rparr>) \<and>
        (bs = [] \<longrightarrow> length content \<le> nat (pos s) \<and>
           (e \<or> end_pos s \<noteq> 0 \<and> pos s = end_pos s))"
begin

definition ready :: "'d stream \<Rightarrow> bool" where
  "ready s \<longleftrightarrow> at s \<and> buffered content s"

lemma at_updates [simp]:
  "at (s\<lparr>buf_pos := a\<rparr>) = at s" "at (s\<lparr>buf_len := b\<rparr>) = at s"
  "at (s\<lparr>eof := e\<rparr>) = at s" "at (s\<lparr>buffer := m\<rparr>) = at s"
  using at_buffer [where s = s and a = a and b = "buf_len s" and e = "eof s" and m = "buffer s"]
    at_buffer [where s = s and a = "buf_pos s" and b = b and e = "eof s" and m = "buffer s"]
    at_buffer [where s = s and a = "buf_pos s" and b = "buf_len s" and e = e and m = "buffer s"]
    at_buffer [where s = s and a = "buf_pos s" and b = "buf_len s" and e = "eof s" and m = m]
  by simp_all

lemma at_moved [simp]:
  "at (s\<lparr>eof := e, dev := d, pos := p\<rparr>) = at (s\<lparr>dev := d, pos := p\<rparr>)"
  "at (s\<lparr>eof := e, dev := d\<rparr>) = at (s\<lparr>dev := d\<rparr>)"
proof -
  have "s\<lparr>eof := e, dev := d, pos := p\<rparr> = s\<lparr>dev := d, pos := p\<rparr>\<lparr>eof := e\<rparr>"
    and "s\<lparr>eof := e, dev := d\<rparr> = s\<lparr>dev := d\<rparr>\<lparr>eof := e\<rparr>" by simp_all
  then show "at (s\<lparr>eof := e, dev := d, pos := p\<rparr>) = at (s\<lparr>dev := d, pos := p\<rparr>)"
    and "at (s\<lparr>eof := e, dev := d\<rparr>) = at (s\<lparr>dev := d\<rparr>)" using at_updates(3) by metis+
qed

lemma read_internal:
  assumes "at s" and "0 < n"
  shows "\<exists>bs d. stream_read_internal ops n s =
             Some (bs, s\<lparr>eof := (bs = []), dev := d, pos := pos s + int (length bs)\<rparr>) \<and>
           length bs \<le> n \<and> bs = take (length bs) (drop (nat (pos s)) content) \<and>
           at (s\<lparr>dev := d, pos := pos s + int (length bs)\<rparr>) \<and>
           (bs = [] \<longrightarrow> length content \<le> nat (pos s))"
proof -
  obtain bs e d where r: "dev_read ops n s = (bs, s\<lparr>eof := e, dev := d\<rparr>)" "length bs \<le> n"
    "bs = take (length bs) (drop (nat (pos s)) content)"
    "at (s\<lparr>dev := d, pos := pos s + int (length bs)\<rparr>)"
    "bs = [] \<longrightarrow> length content \<le> nat (pos s) \<and> (e \<or> end_pos s \<noteq> 0 \<and> pos s = end_pos s)"
    using at_read [OF assms] by blast
  have "stream_read_internal ops n s =
      Some (bs, s\<lparr>eof := (bs = []), dev := d, pos := pos s + int (length bs)\<rparr>)"
  proof (cases "bs = []")
    case True
    then show ?thesis using r(1,5) by (subst stream_read_internal.simps) auto
  next
    case False
    then show ?thesis using r(1) by (subst stream_read_internal.simps) simp
  qed
  with r(2-5) show ?thesis by blast
qed

lemma buffered_append:
  assumes b: "buffered content s" and bs: "bs = take (length bs) (drop (nat (pos s)) content)"
  shows "buffered content (s\<lparr>eof := e, dev := d, pos := pos s + int (length bs),
           buffer := store_at (buffer s) (buf_len s) bs, buf_len := buf_len s + length bs\<rparr>)"
proof -
  let ?p = "nat (pos s - int (buf_len s))"
  have le: "buf_len s \<le> length (buffer s)" "int (buf_len s) \<le> pos s" "buf_pos s \<le> buf_len s"
    and eq: "take (buf_len s) (buffer s) = take (buf_len s) (drop ?p content)"
    using b by (simp_all add: buffered_def)
  have "?p + buf_len s = nat (pos s)" using le by simp
  then have "take (buf_len s + length bs) (drop ?p content) = take (buf_len s) (buffer s) @ bs"
    using bs by (simp add: take_split eq)
  moreover have "pos s + int (length bs) - (int (buf_len s) + int (length bs)) = pos s - int (buf_len s)"
    by simp
  ultimately show ?thesis
    using le length_store_at [OF le(1), of bs] by (simp add: buffered_def take_store_at)
qed

lemma fill_loop_ready:
  assumes "ready s"
  shows "\<exists>s'. fill_loop ops s = Some s' \<and> ready s' \<and> same_setup s s' \<and> buf_pos s' = buf_pos s \<and>
           buf_len s \<le> buf_len s' \<and> pos s' = pos s + int (buf_len s' - buf_len s)"
  using assms
proof (induction "STREAM_BUFFER_MIN - buf_len s" arbitrary: s rule: less_induct)
  case less
  show ?case
  proof (cases "buf_len s < STREAM_BUFFER_MIN")
    case False
    then show ?thesis using less.prems by (subst fill_loop.simps) simp
  next
    case True
    have "0 < STREAM_BUFFER_MIN" by (simp add: stream_consts)
    with less.prems obtain bs d where
      r: "stream_read_internal ops STREAM_BUFFER_MIN s =
            Some (bs, s\<lparr>eof := (bs = []), dev := d, pos := pos s + int (length bs)\<rparr>)"
      and bs: "bs = take (length bs) (drop (nat (pos s)) content)"
      and at': "at (s\<lparr>dev := d, pos := pos s + int (length bs)\<rparr>)"
      using read_internal [of s STREAM_BUFFER_MIN] by (auto simp: ready_def)
    let ?s = "s\<lparr>eof := (bs = []), dev := d, pos := pos s + int (length bs),
                buffer := store_at (buffer s) (buf_len s) bs, buf_len := buf_len s + length bs\<rparr>"
    have step: "fill_loop ops s = (if bs = [] then Some (s\<lparr>eof := True, dev := d\<rparr>) else fill_loop ops ?s)"
      using True by (subst fill_loop.simps) (simp add: r)
    have at'': "at (s\<lparr>eof := (bs = []), dev := d, pos := pos s + int (length bs)\<rparr>)"
      using at' at_updates(3) [where s = "s\<lparr>dev := d, pos := pos s + int (length bs)\<rparr>" and e = "bs = []"] by simp
    show ?thesis
    proof (cases "bs = []")
      case True
      then show ?thesis using step at'' less.prems
        by (simp add: ready_def buffered_def)
    next
      case False
      have ready: "ready ?s" using less.prems at'' buffered_append [where s = s and bs = bs and d = d] bs
        by (simp add: ready_def)
      have "STREAM_BUFFER_MIN - buf_len ?s < STREAM_BUFFER_MIN - buf_len s"
        using True False by (cases bs) auto
      from less.hyps [OF this ready] obtain s' where "fill_loop ops ?s = Some s'" "ready s'"
        "same_setup ?s s'" "buf_pos s' = buf_pos ?s" "buf_len ?s \<le> buf_len s'"
        "pos s' = pos ?s + int (buf_len s' - buf_len ?s)" by blast
      then show ?thesis using step False by (auto simp: same_setup_def)
    qed
  qed
qed

lemma fill_buffer:
  assumes "at s"
  shows "\<exists>r s'. stream_fill_buffer ops s = Some (r, s') \<and> at s' \<and> same_setup s s' \<and>
           (r = 0 \<longrightarrow> length content \<le> nat (pos s) \<and>
              (\<exists>d. s' = s\<lparr>eof := True, dev := d\<rparr>)) \<and>
           (r \<noteq> 0 \<longrightarrow> buffered content s' \<and> buf_pos s' = 0 \<and> buf_len s' = r \<and>
              pos s' = pos s + int r \<and> \<not> eof s')"
proof -
  have "0 < STREAM_BUFFER_SIZE" by (simp add: stream_consts)
  with assms obtain bs d where
    r: "stream_read_internal ops STREAM_BUFFER_SIZE s =
          Some (bs, s\<lparr>eof := (bs = []), dev := d, pos := pos s + int (length bs)\<rparr>)"
    and bs: "bs = take (length bs) (drop (nat (pos s)) content)"
    and at': "at (s\<lparr>dev := d, pos := pos s + int (length bs)\<rparr>)"
    and empty: "bs = [] \<longrightarrow> length content \<le> nat (pos s)"
    using read_internal by blast
  have at'': "at (s\<lparr>eof := (bs = []), dev := d, pos := pos s + int (length bs)\<rparr>)"
    using at' by simp
  let ?s = "s\<lparr>eof := (bs = []), dev := d, pos := pos s + int (length bs),
              buffer := store_at (buffer s) 0 bs, buf_pos := 0, buf_len := length bs\<rparr>"
  show ?thesis
  proof (cases "bs = []")
    case True
    then show ?thesis using r empty at'' by (auto simp: stream_fill_buffer_def)
  next
    case False
    have "take (length bs) (store_at (buffer s) 0 bs) = bs"
      using take_store_at [of 0 "buffer s" bs] by simp
    then have "buffered content ?s"
      using bs at_pos [OF assms] length_store_at [of 0 "buffer s" bs] by (simp add: buffered_def)
    then have "ready ?s" using at'' by (simp add: ready_def)
    from fill_loop_ready [OF this] obtain s' where s': "fill_loop ops ?s = Some s'" "ready s'"
      "same_setup ?s s'" "buf_pos s' = 0" "length bs \<le> buf_len s'"
      "pos s' = pos s + int (length bs) + int (buf_len s' - length bs)" by auto
    have "stream_fill_buffer ops s = Some (buf_len s', s'\<lparr>eof := False\<rparr>)"
      using r False s'(1) by (simp add: stream_fill_buffer_def)
    moreover have "buf_len s' \<noteq> 0" using s'(5) False by (cases bs) auto
    moreover have "same_setup s s'" using s'(3) by (simp add: same_setup_def)
    ultimately show ?thesis using s' by (auto simp: ready_def buffered_def)
  qed
qed

end

context byte_source
begin

text \<open>At the end of a call either bytes are buffered, or the content is exhausted.\<close>

lemma refill:
  assumes "ready s" and "buf_pos s = buf_len s"
  shows "\<exists>r s'. stream_fill_buffer ops s = Some (r, s') \<and> ready s' \<and> same_setup s s' \<and>
           stream_tell s' = stream_tell s \<and>
           (r = 0 \<longleftrightarrow> buf_pos s' = buf_len s') \<and>
           (r = 0 \<longrightarrow> length content \<le> nat (stream_tell s) \<and> eof s')"
proof -
  have tell: "stream_tell s = pos s" using assms(2) by (simp add: stream_tell_def)
  from assms(1) have at: "at s" and b: "buffered content s" by (simp_all add: ready_def)
  obtain r s' where f: "stream_fill_buffer ops s = Some (r, s')" "at s'" "same_setup s s'"
    "r = 0 \<longrightarrow> length content \<le> nat (pos s) \<and> (\<exists>d. s' = s\<lparr>eof := True, dev := d\<rparr>)"
    "r \<noteq> 0 \<longrightarrow> buffered content s' \<and> buf_pos s' = 0 \<and> buf_len s' = r \<and>
       pos s' = pos s + int r \<and> \<not> eof s'"
    using fill_buffer [OF at] by (elim exE conjE) (rule that)
  show ?thesis
  proof (cases "r = 0")
    case True
    with f(4) obtain d where s': "s' = s\<lparr>eof := True, dev := d\<rparr>" "length content \<le> nat (pos s)" by blast
    have "buffered content s'" "stream_tell s' = stream_tell s" "buf_pos s' = buf_len s'"
      using b assms(2) by (simp_all add: s' buffered_def stream_tell_def)
    with True f(1-3) s' tell show ?thesis by (simp add: ready_def)
  next
    case False
    with f tell show ?thesis by (auto simp: ready_def stream_tell_def)
  qed
qed

lemma read_char:
  assumes "ready s"
  shows "\<exists>s'. stream_read_char ops s =
             Some (if nat (stream_tell s) < length content
                   then ucast (content ! nat (stream_tell s)) else -256, s') \<and>
           ready s' \<and> same_setup s s' \<and>
           stream_tell s' = stream_tell s + (if nat (stream_tell s) < length content then 1 else 0)"
proof (cases "buf_pos s < buf_len s")
  case True
  have b: "buffered content s" using assms by (simp add: ready_def)
  have adv: "stream_tell (s\<lparr>buf_pos := buf_pos s + 1\<rparr>) = stream_tell s + 1"
    using tell_advance [of s 1] by simp
  have "ready (s\<lparr>buf_pos := buf_pos s + 1\<rparr>)"
    using assms True buffered_advance [of content s 1] by (simp add: ready_def)
  then show ?thesis using True buffered_nth [OF b True] adv
    by (simp add: stream_read_char_def)
next
  case False
  then have "buf_pos s = buf_len s" using assms by (simp add: ready_def buffered_def)
  from refill [OF assms this] obtain r s' where f: "stream_fill_buffer ops s = Some (r, s')"
    "ready s'" "same_setup s s'" "stream_tell s' = stream_tell s"
    "r = 0 \<longleftrightarrow> buf_pos s' = buf_len s'" "r = 0 \<longrightarrow> length content \<le> nat (stream_tell s)" by blast
  show ?thesis
  proof (cases "r = 0")
    case True
    with False f show ?thesis by (simp add: stream_read_char_def)
  next
    case r: False
    have b: "buffered content s'" and lt: "buf_pos s' < buf_len s'"
      using f(2,5) r by (simp_all add: ready_def buffered_def)
    have adv: "stream_tell (s'\<lparr>buf_pos := buf_pos s' + 1\<rparr>) = stream_tell s' + 1"
      using tell_advance [of s' 1] by simp
    have "ready (s'\<lparr>buf_pos := buf_pos s' + 1\<rparr>)"
      using f(2) lt buffered_advance [of content s' 1] by (simp add: ready_def)
    then show ?thesis using False r f(1,3,4) buffered_nth [OF b lt] adv
      by (simp add: stream_read_char_def)
  qed
qed

lemma read_chunk:
  assumes "ready s" and "x = min (buf_len s - buf_pos s) n"
  shows "take x (drop (buf_pos s) (buffer s)) = take x (drop (nat (stream_tell s)) content)"
    and "ready (s\<lparr>buf_pos := buf_pos s + x\<rparr>)"
    and "length (take x (drop (nat (stream_tell s)) content)) = x"
    and "nat (stream_tell (s\<lparr>buf_pos := buf_pos s + x\<rparr>)) = nat (stream_tell s) + x"
  using assms buffered_take [of content s x] buffered_advance [of content s x]
    buffered_tell [of content s] nat_add_distrib [of "stream_tell s" "int x"]
  by (simp_all add: ready_def tell_advance)

text \<open>The bytes between the position and the end, at most \<open>n\<close> of them.\<close>

definition rest :: "'d stream \<Rightarrow> byte list" where
  "rest s = drop (nat (stream_tell s)) content"

lemma read_all:
  assumes "ready s"
  shows "\<exists>s'. stream_read ops n s = Some (take n (rest s), s') \<and> ready s' \<and> same_setup s s' \<and>
           stream_tell s' = stream_tell s + int (length (take n (rest s)))"
  using assms
proof (induction n arbitrary: s rule: less_induct)
  case (less n)
  have one: "\<exists>s'. (do { (cs, s') \<leftarrow> stream_read ops (n - x) (s1\<lparr>buf_pos := buf_pos s1 + x\<rparr>);
                       Some (take x (drop (buf_pos s1) (buffer s1)) @ cs, s') })
            = Some (take n (rest s1), s') \<and> ready s' \<and> same_setup s1 s' \<and>
           stream_tell s' = stream_tell s1 + int (length (take n (rest s1)))"
    if s1: "ready s1" "buf_pos s1 < buf_len s1" and n: "0 < n" and x: "x = min (buf_len s1 - buf_pos s1) n"
    for s1 x
  proof -
    let ?s = "s1\<lparr>buf_pos := buf_pos s1 + x\<rparr>"
    note ch = read_chunk [OF s1(1) x]
    have "n - x < n" using s1(2) n x by auto
    from less.IH [OF this ch(2)] obtain s' where
      r: "stream_read ops (n - x) ?s = Some (take (n - x) (rest ?s), s')" "ready s'"
        "same_setup ?s s'" "stream_tell s' = stream_tell ?s + int (length (take (n - x) (rest ?s)))"
      by blast
    have "n = x + (n - x)" using x by simp
    then have "take n (rest s1) = take x (rest s1) @ take (n - x) (rest ?s)"
      using take_split [of x "n - x"] ch(4) by (metis rest_def)
    then show ?thesis using r ch(1,3) tell_advance [of s1 x]
      by (simp add: rest_def [of s1] same_setup_def)
  qed
  show ?case
  proof (cases "n = 0")
    case True
    then show ?thesis using less.prems by (subst stream_read.simps) simp
  next
    case n: False
    then have n0: "0 < n" by simp
    have le: "\<not> buf_len s < buf_pos s" using less.prems by (simp add: ready_def buffered_def)
    show ?thesis
    proof (cases "buf_pos s = buf_len s")
      case False
      with le have lt: "buf_pos s < buf_len s" by simp
      show ?thesis using one [OF less.prems lt n0 refl] n le False
        by (subst stream_read.simps) (simp add: Let_def)
    next
      case True
      from refill [OF less.prems True] obtain r s' where f: "stream_fill_buffer ops s = Some (r, s')"
        "ready s'" "same_setup s s'" "stream_tell s' = stream_tell s"
        "r = 0 \<longleftrightarrow> buf_pos s' = buf_len s'" "r = 0 \<longrightarrow> length content \<le> nat (stream_tell s)" by blast
      show ?thesis
      proof (cases "r = 0")
        case r: True
        then show ?thesis using f n True
          by (subst stream_read.simps) (simp add: rest_def)
      next
        case r: False
        then have lt: "buf_pos s' < buf_len s'" using f(2,5) by (simp add: ready_def buffered_def)
        from one [OF f(2) lt n0 refl] obtain s'' where
          *: "(do { (cs, s'') \<leftarrow> stream_read ops (n - min (buf_len s' - buf_pos s') n)
                                  (s'\<lparr>buf_pos := buf_pos s' + min (buf_len s' - buf_pos s') n\<rparr>);
                   Some (take (min (buf_len s' - buf_pos s') n) (drop (buf_pos s') (buffer s')) @ cs, s'') })
              = Some (take n (rest s'), s'')" "ready s''" "same_setup s' s''"
             "stream_tell s'' = stream_tell s' + int (length (take n (rest s')))" by blast
        have "rest s' = rest s" by (simp add: rest_def f(4))
        moreover have "same_setup s s''" using f(3) *(3) by (rule same_setup_trans)
        ultimately show ?thesis using f(1,4) n True le r lt *
          by (subst stream_read.simps) (simp add: Let_def)
      qed
    qed
  qed
qed

end

text \<open>A source whose position can be set as well.\<close>

locale seekable_source = byte_source +
  assumes at_seek: "at s \<Longrightarrow> 0 \<le> q \<Longrightarrow>
      \<exists>e d. stream_seek_internal ops q s = (-1, s\<lparr>pos := q, eof := e, dev := d\<rparr>) \<and>
        at (s\<lparr>pos := q, dev := d\<rparr>)"
begin

lemma seek_scan:
  assumes "at s" and "buffered content s" and "0 \<le> p" and "pos s + p \<le> int (length content)"
    and "buf_len s = 0 \<or> 0 < p"
  shows "\<exists>r s'. seek_scan_loop ops p s = Some (r, s') \<and> ready s' \<and> same_setup s s' \<and>
           stream_tell s' = pos s + p \<and>
           (pos s + p < int (length content) \<longrightarrow> r = 1)"
  using assms
proof (induction "nat p" arbitrary: s p rule: less_induct)
  case less
  obtain r s' where f: "stream_fill_buffer ops s = Some (r, s')" "at s'" "same_setup s s'"
    "r = 0 \<longrightarrow> length content \<le> nat (pos s) \<and> (\<exists>d. s' = s\<lparr>eof := True, dev := d\<rparr>)"
    "r \<noteq> 0 \<longrightarrow> buffered content s' \<and> buf_pos s' = 0 \<and> buf_len s' = r \<and>
       pos s' = pos s + int r \<and> \<not> eof s'"
    using fill_buffer [OF less.prems(1)] by (elim exE conjE) (rule that)
  show ?case
  proof (cases "r = 0")
    case True
    with f(4) obtain d where s': "s' = s\<lparr>eof := True, dev := d\<rparr>" "length content \<le> nat (pos s)" by blast
    have p: "p = 0" using less.prems(3,4) s'(2) at_pos [OF less.prems(1)] by linarith
    then have "buf_len s = 0" using less.prems(5) by simp
    then have "buffered content s'" "stream_tell s' = pos s + p"
      using less.prems(2) p by (simp_all add: s'(1) buffered_def stream_tell_def)
    moreover have "\<not> pos s + p < int (length content)" using p s'(2) at_pos [OF less.prems(1)] by linarith
    ultimately show ?thesis using f(1-3) True
      by (subst seek_scan_loop.simps) (simp add: ready_def)
  next
    case False
    with f(5) have s': "buffered content s'" "buf_pos s' = 0" "buf_len s' = r" "pos s' = pos s + int r"
      by simp_all
    show ?thesis
    proof (cases "p \<le> int r")
      case True
      let ?s = "s'\<lparr>buf_pos := nat p\<rparr>"
      have "buffered content ?s" "stream_tell ?s = pos s + p"
        using s' True less.prems(3) by (simp_all add: buffered_def stream_tell_def)
      then show ?thesis using f(1-3) s' False True less.prems(3)
        by (subst seek_scan_loop.simps) (simp add: ready_def)
    next
      case p: False
      have "nat (p - int r) < nat p" using p False by linarith
      from less.hyps [OF this f(2) s'(1)] p less.prems(4) obtain r' s'' where
        *: "seek_scan_loop ops (p - int r) s' = Some (r', s'')" "ready s''" "same_setup s' s''"
          "stream_tell s'' = pos s + p" "pos s + p < int (length content) \<longrightarrow> r' = 1"
        by (auto simp: s'(4))
      moreover have "same_setup s s''" using f(3) *(3) by (rule same_setup_trans)
      ultimately show ?thesis using f(1) s' False p less.prems(3)
        by (subst seek_scan_loop.simps) simp
    qed
  qed
qed

end

lemma seek_base:
  fixes q k :: int
  assumes "0 \<le> q" and "0 \<le> k"
    and n: "n = (if k \<noteq> 0 then (q sdiv k) * k else q AND NOT (int STREAM_BUFFER_SIZE - 1))"
  shows "0 \<le> n" and "n \<le> q"
proof -
  have "\<exists>d. n = q div d * d \<and> 0 < d"
  proof (cases "k = 0")
    case False
    then show ?thesis using assms by (intro exI [of _ k]) (auto simp: signed_divide_int_def sgn_if)
  next
    case True
    have "q AND NOT (mask 12) = push_bit 12 (drop_bit 12 q)"
      by (rule bit_eqI) (auto simp: bit_simps)
    then have "n = q div 4096 * 4096"
      using True n by (simp add: stream_consts mask_eq_exp_minus_1 push_bit_eq_mult drop_bit_eq_div)
    then show ?thesis by (intro exI [of _ 4096]) simp
  qed
  then obtain d where d: "n = q div d * d" "0 < d" by blast
  then show "0 \<le> n" using assms(1) by (simp add: pos_imp_zdiv_nonneg_iff)
  have "n = q - q mod d" using d by (simp add: minus_mod_eq_div_mult)
  then show "n \<le> q" using d(2) by simp
qed

context seekable_source
begin

lemma seek_long:
  assumes at: "at s" and mode: "mode s \<noteq> STREAM_WRITE" and k: "0 \<le> sector_size s"
    and q: "0 \<le> q" "q \<le> int (length content)"
  shows "\<exists>r s'. stream_seek_long ops s q = Some (r, s') \<and> ready s' \<and> same_setup s s' \<and>
           stream_tell s' = q \<and> (q < int (length content) \<longrightarrow> r = 1)"
proof -
  let ?s = "s\<lparr>buf_pos := 0, buf_len := 0\<rparr>"
  define n where "n = (if sector_size s \<noteq> 0 then (q sdiv sector_size s) * sector_size s
                       else q AND NOT (int STREAM_BUFFER_SIZE - 1))"
  note n = seek_base [OF q(1) k n_def]
  have "at ?s" using at at_buffer [where s = s and a = 0 and b = 0 and e = "eof s" and m = "buffer s"]
    by simp
  from at_seek [OF this n(1)] obtain e d where
    i: "stream_seek_internal ops n ?s = (-1, ?s\<lparr>pos := n, eof := e, dev := d\<rparr>)"
       "at (?s\<lparr>pos := n, dev := d\<rparr>)" by blast
  let ?t = "?s\<lparr>pos := n, eof := e, dev := d\<rparr>"
  have at': "at ?t"
    using i(2) at_updates(3) [where s = "?s\<lparr>pos := n, dev := d\<rparr>" and e = e] by simp
  have b: "buffered content ?t" using n by (simp add: buffered_def)
  have fwd: "seek_forward_loop ops n ?t = Some ?t" by (subst seek_forward_loop.simps) simp
  have eq: "(if sector_size ?s \<noteq> 0 then (q sdiv sector_size ?s) * sector_size ?s
             else q AND NOT (int STREAM_BUFFER_SIZE - 1)) = n" by (simp add: n_def)
  have "stream_seek_long ops s q = seek_scan_loop ops (q - n) ?t"
    unfolding stream_seek_long_def Let_def eq using i(1) mode fwd by simp
  moreover obtain r s' where "seek_scan_loop ops (q - n) ?t = Some (r, s')" "ready s'"
    "same_setup ?t s'" "stream_tell s' = q" "q < int (length content) \<longrightarrow> r = 1"
    using seek_scan [OF at' b, of "q - n"] n q by auto
  ultimately show ?thesis by (auto simp: same_setup_def)
qed

lemma seek:
  assumes r: "ready s" and mode: "mode s \<noteq> STREAM_WRITE" and k: "0 \<le> sector_size s"
    and q: "0 \<le> q" "q \<le> int (length content)"
  shows "\<exists>r s'. stream_seek ops s q = Some (r, s') \<and> ready s' \<and> same_setup s s' \<and>
           stream_tell s' = q \<and> (q < int (length content) \<longrightarrow> r = 1)"
proof -
  have at: "at s" and b: "buffered content s" using r by (simp_all add: ready_def)
  consider "buf_len s = 0" "pos s = q" | "\<not> (buf_len s = 0 \<and> pos s = q)"
      "q < pos s" "0 \<le> q - (pos s - int (buf_len s))"
    | "\<not> (buf_len s = 0 \<and> pos s = q)" "\<not> (q < pos s \<and> 0 \<le> q - (pos s - int (buf_len s)))" by metis
  then show ?thesis
  proof cases
    case 1
    then show ?thesis using r b q by (simp add: stream_seek_def stream_tell_def buffered_def Let_def)
  next
    case 2
    let ?s = "s\<lparr>buf_pos := nat (q - (pos s - int (buf_len s)))\<rparr>"
    have "buffered content ?s" "stream_tell ?s = q" using b 2 by (auto simp: buffered_def stream_tell_def)
    then show ?thesis using 2 q at by (simp add: stream_seek_def ready_def)
  next
    case 3
    then have "stream_seek ops s q = stream_seek_long ops s q" using q by (auto simp: stream_seek_def Let_def)
    then show ?thesis using seek_long [OF at mode k q] by simp
  qed
qed

end

context byte_source
begin

text \<open>Skipping is reading without keeping the bytes.\<close>

lemma skip_chunk:
  assumes IH: "\<And>y t. y < n \<Longrightarrow> ready t \<Longrightarrow> skip_loop ops y t =
      map_option (\<lambda>(bs, s'). (if length bs = y then 1 else 0, s')) (stream_read ops y t)"
    and s: "ready s" "buf_pos s < buf_len s" "0 < n" and x: "x = min (buf_len s - buf_pos s) n"
  shows "skip_loop ops (n - x) (s\<lparr>buf_pos := buf_pos s + x\<rparr>) =
     map_option (\<lambda>(bs, s'). (if length bs = n then 1 else 0, s'))
       (do { (cs, s') \<leftarrow> stream_read ops (n - x) (s\<lparr>buf_pos := buf_pos s + x\<rparr>);
             Some (take x (drop (buf_pos s) (buffer s)) @ cs, s') })"
proof -
  note ch = read_chunk [OF s(1) x]
  have lt: "n - x < n" using s(2,3) x by auto
  have len: "length (take x (drop (buf_pos s) (buffer s))) = x" using ch(1,3) by simp
  have "x \<le> n" using x by simp
  then have "\<And>k. x + k = n \<longleftrightarrow> k = n - x" by auto
  then have "map_option (\<lambda>(bs, s'). (if length bs = n then 1 :: int else 0, s'))
       (do { (cs, s') \<leftarrow> stream_read ops (n - x) (s\<lparr>buf_pos := buf_pos s + x\<rparr>);
             Some (take x (drop (buf_pos s) (buffer s)) @ cs, s') }) =
     map_option (\<lambda>(bs, s'). (if length bs = n - x then 1 else 0, s'))
       (stream_read ops (n - x) (s\<lparr>buf_pos := buf_pos s + x\<rparr>))"
    using len by (cases "stream_read ops (n - x) (s\<lparr>buf_pos := buf_pos s + x\<rparr>)") (simp_all add: case_prod_beta del: length_take)
  then show ?thesis using IH [OF lt ch(2)] by simp
qed

lemma skip_reads:
  assumes "ready s"
  shows "skip_loop ops n s =
     map_option (\<lambda>(bs, s'). (if length bs = n then 1 else 0, s')) (stream_read ops n s)"
  using assms
proof (induction n arbitrary: s rule: less_induct)
  case (less n)
  show ?case
  proof (cases "n = 0")
    case True
    then show ?thesis by (subst skip_loop.simps, subst stream_read.simps) simp
  next
    case n: False
    then have n0: "0 < n" by simp
    have le: "\<not> buf_len s < buf_pos s" using less.prems by (simp add: ready_def buffered_def)
    show ?thesis
    proof (cases "buf_pos s = buf_len s")
      case False
      with le have lt: "buf_pos s < buf_len s" by simp
      show ?thesis using skip_chunk [OF less.IH less.prems lt n0 refl] n le False
        by (subst skip_loop.simps, subst stream_read.simps) (simp add: Let_def)
    next
      case True
      from refill [OF less.prems True] obtain r s' where f: "stream_fill_buffer ops s = Some (r, s')"
        "ready s'" "r = 0 \<longleftrightarrow> buf_pos s' = buf_len s'" by blast
      show ?thesis
      proof (cases "r = 0")
        case r: True
        then show ?thesis using f n True
          by (subst skip_loop.simps, subst stream_read.simps) simp
      next
        case r: False
        then have lt: "buf_pos s' < buf_len s'" using f(2,3) by (simp add: ready_def buffered_def)
        show ?thesis using skip_chunk [OF less.IH f(2) lt n0 refl] f(1) n True r lt
          by (subst skip_loop.simps, subst stream_read.simps) (simp add: Let_def)
      qed
    qed
  qed
qed

text \<open>The byte at an offset of the content as \<^verbatim>\<open>stream_read_char\<close> gives it.\<close>

definition char_at :: "nat \<Rightarrow> c_int" where
  "char_at i = (if i < length content then ucast (content ! i) else -256)"

lemma read_char_at:
  assumes "ready s" and "nat (stream_tell s) = i" and "i < length content"
  shows "\<exists>s'. stream_read_char ops s = Some (ucast (content ! i), s') \<and> ready s' \<and>
           same_setup s s' \<and> nat (stream_tell s') = Suc i"
  using read_char [OF assms(1)] buffered_tell [of content s] assms
  by (auto simp: ready_def nat_add_distrib)

lemma read_dword_le:
  assumes "ready s" and i: "nat (stream_tell s) = i" and "i + 3 < length content"
  shows "\<exists>s'. stream_read_dword_le ops s =
             Some (word_cat (content ! (i + 3))
                    (word_cat (content ! (i + 2))
                       (word_cat (content ! (i + 1)) (content ! i) :: 16 word) :: 24 word), s') \<and>
           ready s' \<and> nat (stream_tell s') = i + 4"
proof -
  obtain s1 where 1: "stream_read_char ops s = Some (ucast (content ! i), s1)" "ready s1"
    "nat (stream_tell s1) = Suc i" using read_char_at [OF assms(1) i] assms(3) by auto
  obtain s2 where 2: "stream_read_char ops s1 = Some (ucast (content ! (i + 1)), s2)" "ready s2"
    "nat (stream_tell s2) = Suc (i + 1)" using read_char_at [OF 1(2), of "i + 1"] 1(3) assms(3) by auto
  obtain s3 where 3: "stream_read_char ops s2 = Some (ucast (content ! (i + 2)), s3)" "ready s3"
    "nat (stream_tell s3) = Suc (i + 2)" using read_char_at [OF 2(2), of "i + 2"] 2(3) assms(3) by auto
  obtain s4 where 4: "stream_read_char ops s3 = Some (ucast (content ! (i + 3)), s4)" "ready s4"
    "nat (stream_tell s4) = Suc (i + 3)" using read_char_at [OF 3(2), of "i + 3"] 3(3) assms(3) by auto
  have w: "ucast a OR push_bit 8 (ucast b) OR push_bit 16 (ucast c) OR push_bit 24 (ucast d) =
      (word_cat d (word_cat c (word_cat b a :: 16 word) :: 24 word) :: 32 word)" for a b c d :: byte
    by (rule bit_word_eqI) (auto simp: bit_simps dest: bit_imp_le_length)
  show ?thesis using 1(1) 2(1) 3(1) 4
    by (simp add: stream_read_dword_le_def Let_def w [symmetric] or.assoc)
qed

end

context byte_source
begin

text \<open>When a read ends early the end of file is flagged, and only then.\<close>

definition eof_told :: "'d stream \<Rightarrow> nat \<Rightarrow> byte list \<Rightarrow> 'd stream \<Rightarrow> bool" where
  "eof_told s n bs s' \<longleftrightarrow> (length bs < n \<longrightarrow> eof s') \<and> (eof s' \<longrightarrow> eof s \<or> length bs < n)"

lemma eof_told_chunk:
  assumes IH: "\<And>m t bs. m < n \<Longrightarrow> ready t \<Longrightarrow> stream_read ops m t = Some (bs, s') \<Longrightarrow>
      (eof t \<longrightarrow> rest t = []) \<Longrightarrow> eof_told t m bs s'"
    and s: "ready s" "buf_pos s < buf_len s" "0 < n" "eof s \<longrightarrow> rest s = []"
    and x: "x = min (buf_len s - buf_pos s) n"
    and r: "stream_read ops (n - x) (s\<lparr>buf_pos := buf_pos s + x\<rparr>) = Some (ds, s')"
  shows "eof_told s n (take x (drop (buf_pos s) (buffer s)) @ ds) s'"
proof -
  note ch = read_chunk [OF s(1) x]
  have lt: "n - x < n" and le: "x \<le> n" using s(2,3) x by auto
  have "rest (s\<lparr>buf_pos := buf_pos s + x\<rparr>) = drop x (rest s)"
    using ch(4) by (simp add: rest_def add.commute)
  then have "eof (s\<lparr>buf_pos := buf_pos s + x\<rparr>) \<longrightarrow> rest (s\<lparr>buf_pos := buf_pos s + x\<rparr>) = []"
    using s(4) by simp
  from IH [OF lt ch(2) r this] have IH: "length ds < n - x \<longrightarrow> eof s'"
    "eof s' \<longrightarrow> eof s \<or> length ds < n - x" by (simp_all add: eof_told_def)
  have len: "length (take x (drop (buf_pos s) (buffer s)) @ ds) = x + length ds"
    using ch(1,3) by (simp only: length_append)
  show ?thesis unfolding eof_told_def len using IH le by auto
qed

lemma read_eof:
  assumes "ready s" and "stream_read ops n s = Some (bs, s')" and "eof s \<longrightarrow> rest s = []"
  shows "eof_told s n bs s'"
  using assms
proof (induction n arbitrary: s bs rule: less_induct)
  case (less n)
  note unfold = stream_read.simps [of ops n s]
  show ?case
  proof (cases "n = 0")
    case True
    then show ?thesis using less.prems(2) stream_read.simps [of ops 0 s] by (simp add: eof_told_def)
  next
    case n: False
    have le: "\<not> buf_len s < buf_pos s" using less.prems(1) by (simp add: ready_def buffered_def)
    show ?thesis
    proof (cases "buf_pos s = buf_len s")
      case False
      define x where "x = min (buf_len s - buf_pos s) n"
      have lt: "buf_pos s < buf_len s" using False le by simp
      have "do { (cs, s') \<leftarrow> stream_read ops (n - x) (s\<lparr>buf_pos := buf_pos s + x\<rparr>);
                 Some (take x (drop (buf_pos s) (buffer s)) @ cs, s') } = Some (bs, s')"
        using less.prems(2) [unfolded unfold] n le False by (simp add: Let_def x_def)
      then obtain ds where ds: "stream_read ops (n - x) (s\<lparr>buf_pos := buf_pos s + x\<rparr>) = Some (ds, s')"
        "bs = take x (drop (buf_pos s) (buffer s)) @ ds"
        by (cases "stream_read ops (n - x) (s\<lparr>buf_pos := buf_pos s + x\<rparr>)") auto
      show ?thesis unfolding ds(2)
        by (rule eof_told_chunk [OF _ less.prems(1) lt _ less.prems(3) x_def ds(1)]) (use less.IH n in auto)
    next
      case True
      from refill [OF less.prems(1) True] obtain r s1 where f: "stream_fill_buffer ops s = Some (r, s1)"
        "ready s1" "r = 0 \<longleftrightarrow> buf_pos s1 = buf_len s1" "r = 0 \<longrightarrow> eof s1" by blast
      have "at s" using less.prems(1) by (simp add: ready_def)
      from fill_buffer [OF this] obtain r' s1' where f': "stream_fill_buffer ops s = Some (r', s1')"
        "r' \<noteq> 0 \<longrightarrow> \<not> eof s1'" by blast
      have ne: "r \<noteq> 0 \<longrightarrow> \<not> eof s1" using f' f(1) by simp
      show ?thesis
      proof (cases "r = 0")
        case r: True
        then have "bs = []" "s' = s1" using less.prems(2) [unfolded unfold] n True f(1) by simp_all
        then show ?thesis using f(4) r n by (simp add: eof_told_def)
      next
        case r: False
        define x where "x = min (buf_len s1 - buf_pos s1) n"
        have lt: "buf_pos s1 < buf_len s1" using f(2,3) r by (simp add: ready_def buffered_def)
        have "do { (cs, s') \<leftarrow> stream_read ops (n - x) (s1\<lparr>buf_pos := buf_pos s1 + x\<rparr>);
                   Some (take x (drop (buf_pos s1) (buffer s1)) @ cs, s') } = Some (bs, s')"
          using less.prems(2) [unfolded unfold] n lt True r f(1) by (simp add: Let_def x_def)
        then obtain ds where ds: "stream_read ops (n - x) (s1\<lparr>buf_pos := buf_pos s1 + x\<rparr>) = Some (ds, s')"
          "bs = take x (drop (buf_pos s1) (buffer s1)) @ ds"
          by (cases "stream_read ops (n - x) (s1\<lparr>buf_pos := buf_pos s1 + x\<rparr>)") auto
        have "eof_told s1 n bs s'" unfolding ds(2)
          by (rule eof_told_chunk [OF _ f(2) lt _ _ x_def ds(1)]) (use less.IH n ne r in auto)
        then show ?thesis using ne r by (auto simp: eof_told_def)
      qed
    qed
  qed
qed
end

section \<open>The contracts hold\<close>

definition file_at :: "int \<Rightarrow> byte list \<Rightarrow> os_file stream \<Rightarrow> bool" where
  "file_at ty content s \<longleftrightarrow>
     0 \<le> pos s \<and> offset (dev s) = pos s \<and> contents (dev s) = content \<and> st_type s = ty"

definition memory_at :: "byte list \<Rightarrow> unit stream \<Rightarrow> bool" where
  "memory_at content s \<longleftrightarrow>
     content \<noteq> [] \<and> pos s = int (length content) \<and> end_pos s = pos s \<and>
     st_type s = STREAMTYPE_MEMORY"

lemma file_read_law:
  assumes at: "file_at ty content s" and n: "0 < n"
    and read: "dev_read ops n s = file_fill_buffer s n"
  shows "\<exists>bs e d. dev_read ops n s = (bs, s\<lparr>eof := e, dev := d\<rparr>) \<and> length bs \<le> n \<and>
        bs = take (length bs) (drop (nat (pos s)) content) \<and>
        file_at ty content (s\<lparr>dev := d, pos := pos s + int (length bs)\<rparr>) \<and>
        (bs = [] \<longrightarrow> length content \<le> nat (pos s) \<and>
           (e \<or> end_pos s \<noteq> 0 \<and> pos s = end_pos s))"
proof -
  define k where "k = (case chunks (dev s) of [] \<Rightarrow> n | c # _ \<Rightarrow> min n (max 1 c))"
  have k: "0 < k" "k \<le> n" using n by (auto simp: k_def split: list.splits)
  define bs where "bs = take k (drop (nat (pos s)) content)"
  have len: "length bs \<le> n" "bs = take (length bs) (drop (nat (pos s)) content)"
    using k by (simp_all add: bs_def min_def)
  have empty: "bs = [] \<Longrightarrow> length content \<le> nat (pos s)" using k by (simp add: bs_def)
  have "file_fill_buffer s n = (bs, s\<lparr>eof := (if bs = [] then True else eof s),
          dev := (dev s)\<lparr>offset := offset (dev s) + int (length bs), chunks := tl (chunks (dev s))\<rparr>\<rparr>)"
    using at n by (simp add: file_fill_buffer_def os_read_def Let_def file_at_def bs_def k_def)
  moreover have "file_at ty content (s\<lparr>dev := (dev s)\<lparr>offset := offset (dev s) + int (length bs),
          chunks := tl (chunks (dev s))\<rparr>, pos := pos s + int (length bs)\<rparr>)"
    using at by (simp add: file_at_def)
  ultimately show ?thesis using len empty read by (intro exI [of _ bs] exI conjI) auto
qed

interpretation regular: seekable_source file_ops content "file_at STREAMTYPE_FILE content" for content
proof (unfold_locales, goal_cases)
  case (3 s n)
  then show ?case by (rule file_read_law)
    (use 3 in \<open>simp add: file_at_def dev_read_def file_ops_def stream_consts\<close>)
next
  case (4 s q)
  show ?case
  proof (cases "q = 0 \<or> q \<noteq> pos s")
    case True
    with 4 show ?thesis
      by (intro exI [of _ "eof s"] exI [of _ "(dev s)\<lparr>offset := q\<rparr>"])
        (simp add: stream_seek_internal_def file_ops_def file_seek_def os_lseek_def file_at_def
          stream_consts)
  next
    case False
    with 4 show ?thesis
      by (intro exI [of _ "eof s"] exI [of _ "dev s"])
        (simp add: stream_seek_internal_def file_at_def)
  qed
qed (auto simp: file_at_def)

interpretation pipe: byte_source pipe_ops content "file_at STREAMTYPE_STREAM content" for content
proof (unfold_locales, goal_cases)
  case (3 s n)
  then show ?case by (rule file_read_law)
    (use 3 in \<open>simp add: file_at_def dev_read_def file_ops_def pipe_ops_def stream_consts\<close>)
qed (auto simp: file_at_def)

interpretation memory: byte_source memory_ops content "memory_at content" for content
proof (unfold_locales, goal_cases)
  case (3 s n)
  then show ?case
    by (intro exI [of _ "[]"] exI [of _ "eof s"] exI [of _ "()"])
      (simp add: memory_at_def dev_read_def memory_ops_def stream_consts)
qed (auto simp: memory_at_def)

section \<open>A stream is a cursor into its content\<close>

text \<open>
  The abstract stream: a position in the content. Commands are the calls a client makes, replies
  what it gets back.
\<close>

datatype stream_cmd = Read nat | Read_Char | Seek int | Skip int

datatype stream_reply = Bytes "byte list" | Char c_int | Done int

fun stream_do :: "'d stream_ops \<Rightarrow> stream_cmd \<Rightarrow> 'd stream \<Rightarrow> (stream_reply \<times> 'd stream) option" where
  "stream_do ops (Read n) s = map_option (\<lambda>(bs, s). (Bytes bs, s)) (stream_read ops n s)"
| "stream_do ops Read_Char s = map_option (\<lambda>(c, s). (Char c, s)) (stream_read_char ops s)"
| "stream_do ops (Seek q) s = map_option (\<lambda>(r, s). (Done r, s)) (stream_seek ops s q)"
| "stream_do ops (Skip n) s = map_option (\<lambda>(r, s). (Done r, s)) (stream_skip ops s n)"

fun stream_run ::
  "'d stream_ops \<Rightarrow> stream_cmd list \<Rightarrow> 'd stream \<Rightarrow> (stream_reply list \<times> 'd stream) option" where
  "stream_run ops [] s = Some ([], s)"
| "stream_run ops (c # cs) s =
     do { (r, s) \<leftarrow> stream_do ops c s; (rs, s) \<leftarrow> stream_run ops cs s; Some (r # rs, s) }"

fun cursor_cmd :: "byte list \<Rightarrow> stream_cmd \<Rightarrow> nat \<Rightarrow> stream_reply \<times> nat" where
  "cursor_cmd content (Read n) p =
     (let bs = take n (drop p content) in (Bytes bs, p + length bs))"
| "cursor_cmd content Read_Char p =
     (if p < length content then (Char (ucast (content ! p)), p + 1) else (Char (- 256), p))"
| "cursor_cmd content (Seek q) p = (Done 1, nat q)"
| "cursor_cmd content (Skip n) p = (Done 1, nat (int p + n))"

fun cursor_run :: "byte list \<Rightarrow> stream_cmd list \<Rightarrow> nat \<Rightarrow> stream_reply list \<times> nat" where
  "cursor_run content [] p = ([], p)"
| "cursor_run content (c # cs) p =
     (let (r, p) = cursor_cmd content c p; (rs, p) = cursor_run content cs p in (r # rs, p))"

text \<open>Seeks and skips that stay inside the content.\<close>

fun inside_cmd :: "byte list \<Rightarrow> stream_cmd \<Rightarrow> nat \<Rightarrow> bool" where
  "inside_cmd content (Seek q) p \<longleftrightarrow> 0 \<le> q \<and> q < int (length content)"
| "inside_cmd content (Skip n) p \<longleftrightarrow> 0 \<le> int p + n \<and> int p + n < int (length content)"
| "inside_cmd content _ p \<longleftrightarrow> True"

fun inside_run :: "byte list \<Rightarrow> stream_cmd list \<Rightarrow> nat \<Rightarrow> bool" where
  "inside_run content [] p \<longleftrightarrow> True"
| "inside_run content (c # cs) p \<longleftrightarrow>
     inside_cmd content c p \<and> inside_run content cs (snd (cursor_cmd content c p))"

fun reads_only :: "stream_cmd \<Rightarrow> bool" where
  "reads_only (Read n) \<longleftrightarrow> True"
| "reads_only Read_Char \<longleftrightarrow> True"
| "reads_only _ \<longleftrightarrow> False"

context byte_source
begin

text \<open>The relation between a stream and the position of the cursor.\<close>

definition cursor :: "'d stream \<Rightarrow> nat \<Rightarrow> bool" where
  "cursor s p \<longleftrightarrow> ready s \<and> stream_tell s = int p"

lemma read_cmd_refines:
  assumes "cursor s p" and "reads_only c"
  shows "\<exists>s'. stream_do ops c s = Some (fst (cursor_cmd content c p), s') \<and>
           cursor s' (snd (cursor_cmd content c p)) \<and> same_setup s s'"
proof -
  from assms(1) have s: "ready s" "stream_tell s = int p" by (simp_all add: cursor_def)
  show ?thesis
  proof (cases c)
    case (Read n)
    then show ?thesis using read_all [OF s(1), of n] s(2)
      by (auto simp: cursor_def rest_def Let_def)
  next
    case Read_Char
    then show ?thesis using read_char [OF s(1)] s(2) by (auto simp: cursor_def)
  qed (use assms(2) in simp_all)
qed

lemma reads_refine:
  assumes "cursor s p" and "list_all reads_only cs"
  shows "\<exists>s'. stream_run ops cs s = Some (fst (cursor_run content cs p), s') \<and>
           cursor s' (snd (cursor_run content cs p))"
  using assms
proof (induction cs arbitrary: s p)
  case Nil
  then show ?case by simp
next
  case (Cons c cs)
  from read_cmd_refines [OF Cons.prems(1), of c] Cons.prems(2) obtain s' where
    c: "stream_do ops c s = Some (fst (cursor_cmd content c p), s')"
      "cursor s' (snd (cursor_cmd content c p))" by auto
  from Cons.IH [OF c(2)] Cons.prems(2) show ?case using c(1)
    by (auto simp: case_prod_beta Let_def)
qed

text \<open>A line that fits into the room is read whole, with its terminator.\<close>

lemma find_term_char_append:
  "t \<notin> set pre \<Longrightarrow> find_term_char t (pre @ t # post) = Some (length pre)"
  by (induction pre) auto

lemma find_term_char_None: "t \<notin> set pre \<Longrightarrow> find_term_char t pre = None"
  by (induction pre) auto

lemma read_until_line:
  assumes "ready s" and "rest s = pre @ t # post" and "t \<notin> set pre" and "length pre < room"
  shows "\<exists>s'. read_until_loop ops room t s = Some (pre @ [t], s') \<and> ready s' \<and>
           stream_tell s' = stream_tell s + int (length pre) + 1"
  using assms
proof (induction "length pre" arbitrary: s pre room rule: less_induct)
  case less
  have more: "nat (stream_tell s) < length content"
    using less.prems(2) by (metis drop_eq_Nil list.distinct(1) not_less rest_def append_is_Nil_conv)
  obtain s1 where s1: "ready s1" "stream_tell s1 = stream_tell s" "buf_pos s1 < buf_len s1"
    and get: "(if buf_pos s < buf_len s then Some (True, s)
       else do { (r, s) \<leftarrow> stream_fill_buffer ops s;
                 Some (r \<noteq> 0 \<and> buf_pos s < buf_len s, s) }) = Some (True, s1)"
  proof (cases "buf_pos s < buf_len s")
    case True
    then show ?thesis using that [of s] less.prems(1) by simp
  next
    case False
    then have "buf_pos s = buf_len s" using less.prems(1) by (simp add: ready_def buffered_def)
    from refill [OF less.prems(1) this] more obtain r s' where f: "stream_fill_buffer ops s = Some (r, s')"
      "ready s'" "stream_tell s' = stream_tell s" "r \<noteq> 0" "buf_pos s' \<noteq> buf_len s'" by auto
    then have "buf_pos s' < buf_len s'" by (simp add: ready_def buffered_def)
    then show ?thesis using that [of s'] f False by simp
  qed
  define x where "x = buf_len s1 - buf_pos s1"
  define avail where "avail = take x (drop (buf_pos s1) (buffer s1))"
  have b: "buffered content s1" using s1(1) by (simp add: ready_def)
  have rest1: "rest s1 = pre @ t # post" using less.prems(2) s1(2) by (simp add: rest_def)
  have bt: "avail = take x (rest s1)" "length (take x (rest s1)) = x"
    using buffered_take [OF b, of x] unfolding avail_def x_def rest_def by simp_all
  have avail: "avail = take x (pre @ t # post)" "length avail = x"
    using bt by (simp_all only: rest1)
  have x: "0 < x" using s1(3) by (simp add: x_def)
  have adv: "ready (s1\<lparr>buf_pos := buf_pos s1 + k\<rparr>)" if "k \<le> x" for k
    using buffered_advance [OF b, of k] s1(1) that by (simp add: ready_def x_def)
  show ?case
  proof (cases "length pre < x")
    case True
    then obtain k where "x - length pre = Suc k" by (metis Suc_diff_Suc)
    then have av: "avail = pre @ t # take k post" using avail(1) True by simp
    have "find_term_char t avail = Some (length pre)"
      using find_term_char_append [OF less.prems(3)] av by simp
    then have "read_until_loop ops room t s =
        Some (pre @ [t], s1\<lparr>buf_pos := buf_pos s1 + (length pre + 1)\<rparr>)"
      using get less.prems(4) av
      by (subst read_until_loop.simps)
        (simp add: Let_def x_def [symmetric] avail_def [symmetric] copy_characters_def)
    then show ?thesis
      using adv [of "length pre + 1"] True tell_advance [of s1 "length pre + 1"] s1(2) by simp
  next
    case False
    then have av: "avail = take x pre" using avail(1) by simp
    have "t \<notin> set avail" using less.prems(3) av by (auto dest: in_set_takeD)
    then have none: "find_term_char t avail = None" by (rule find_term_char_None)
    let ?s = "s1\<lparr>buf_pos := buf_pos s1 + x\<rparr>"
    have tell: "stream_tell ?s = stream_tell s + int x" using tell_advance [of s1 x] s1(2) by simp
    have "0 \<le> stream_tell s" using buffered_tell less.prems(1) by (auto simp: ready_def)
    then have "rest ?s = drop x (rest s)" using tell
      by (simp add: rest_def nat_add_distrib add.commute)
    then have rest: "rest ?s = drop x pre @ t # post" using less.prems(2) False by simp
    have ne: "avail \<noteq> []" and len: "length avail \<le> room" using avail(2) x False less.prems(4) by auto
    have lt: "length (drop x pre) < length pre" "length (drop x pre) < room - x" "t \<notin> set (drop x pre)"
      using x False less.prems(3,4) by (auto dest: in_set_dropD)
    from less.hyps [OF lt(1) adv [OF order_refl] rest lt(3,2)] obtain s' where
      r: "read_until_loop ops (room - x) t ?s = Some (drop x pre @ [t], s')" "ready s'"
        "stream_tell s' = stream_tell ?s + int (length (drop x pre)) + 1" by blast
    have "read_until_loop ops room t s = Some (avail @ drop x pre @ [t], s')"
      using get none r(1) ne len avail(2) less.prems(4)
      by (subst read_until_loop.simps)
        (simp add: Let_def x_def [symmetric] avail_def [symmetric] copy_characters_def)
    moreover have "avail @ drop x pre = pre" by (simp add: av)
    ultimately show ?thesis using r(2,3) tell False
      by (metis (no_types, lifting) append.assoc add.assoc length_append avail(2) of_nat_add)
  qed
qed

end

context seekable_source
begin

lemma cmd_refines:
  assumes s: "cursor s p" and mode: "mode s \<noteq> STREAM_WRITE" "0 \<le> sector_size s"
    and p: "p \<le> length content" and c: "inside_cmd content c p"
  shows "\<exists>s'. stream_do ops c s = Some (fst (cursor_cmd content c p), s') \<and>
           cursor s' (snd (cursor_cmd content c p)) \<and> same_setup s s' \<and>
           snd (cursor_cmd content c p) \<le> length content"
proof -
  from s have s: "ready s" "stream_tell s = int p" and cs: "cursor s p" by (simp_all add: cursor_def)
  show ?thesis
  proof (cases c)
    case (Seek q)
    with c have q: "0 \<le> q" "q \<le> int (length content)" "q < int (length content)" by simp_all
    from seek [OF s(1) mode q(1,2)] q show ?thesis by (auto simp: Seek cursor_def)
  next
    case (Skip n)
    let ?q = "int p + n"
    from Skip c have q: "0 \<le> ?q" "?q \<le> int (length content)" "?q < int (length content)" by simp_all
    show ?thesis
    proof (cases "n < 0 \<or> n > 2 * int STREAM_BUFFER_SIZE \<and> flags s AND MP_STREAM_SEEK_FW \<noteq> 0")
      case True
      then show ?thesis using seek [OF s(1) mode q(1,2)] q
        by (auto simp: Skip cursor_def stream_skip_def s(2))
    next
      case False
      then have n: "0 \<le> n" by auto
      have "nat n \<le> length content - p" using q(2) by linarith
      then have len: "length (take (nat n) (rest s)) = nat n" using s(2) by (simp add: rest_def)
      from read_all [OF s(1), of "nat n"] obtain s' where
        r: "stream_read ops (nat n) s = Some (take (nat n) (rest s), s')" "ready s'" "same_setup s s'"
          "stream_tell s' = stream_tell s + int (length (take (nat n) (rest s)))" by blast
      have "stream_skip ops s n = Some (1, s')"
        using False skip_reads [OF s(1), of "nat n"] r(1) len by (auto simp: stream_skip_def)
      then show ?thesis using r(2-4) len q n s(2) by (simp add: Skip cursor_def)
    qed
  qed (use read_cmd_refines [OF cs, of c] p in \<open>auto simp: Let_def\<close>)
qed

lemma run_refines:
  assumes "cursor s p" and "mode s \<noteq> STREAM_WRITE" and "0 \<le> sector_size s"
    and "p \<le> length content" and "inside_run content cs p"
  shows "\<exists>s'. stream_run ops cs s = Some (fst (cursor_run content cs p), s') \<and>
           cursor s' (snd (cursor_run content cs p))"
  using assms
proof (induction cs arbitrary: s p)
  case Nil
  then show ?case by simp
next
  case (Cons c cs)
  from cmd_refines [OF Cons.prems(1-4), of c] Cons.prems(5) obtain s' where
    c: "stream_do ops c s = Some (fst (cursor_cmd content c p), s')"
      "cursor s' (snd (cursor_cmd content c p))" "same_setup s s'"
      "snd (cursor_cmd content c p) \<le> length content" by auto
  from Cons.IH [OF c(2) _ _ c(4)] c(3) Cons.prems show ?case using c(1)
    by (auto simp: case_prod_beta Let_def same_setup_def)
qed

end

end
