(* ===== verification/Stream_Props.thy ===== *)
theory Stream_Props
  imports Byte_Source
begin

text \<open>
  The properties of the byte stream over files, pipes and memory.
\<close>

section \<open>Properties\<close>

lemma open_file_cursor: "regular.cursor (contents f) (open_file f) 0"
  unfolding regular.cursor_def regular.ready_def
  by (simp add: file_at_def buffered_def open_file_def
      new_stream_def stream_tell_def stream_consts Let_def)

lemma open_file_setup: "mode (open_file f) = STREAM_READ" "sector_size (open_file f) = 0"
  by (simp_all add: open_file_def new_stream_def Let_def)

lemma open_pipe_cursor:
  "offset f = 0 \<Longrightarrow> pipe.cursor (contents f) (open_pipe f) 0"
  unfolding pipe.cursor_def pipe.ready_def
  by (simp add: file_at_def buffered_def open_pipe_def
      new_stream_def stream_tell_def stream_consts Let_def)

lemma memory_cursor: "data \<noteq> [] \<Longrightarrow> memory.cursor data (new_memory_stream data) 0"
  unfolding memory.cursor_def memory.ready_def
  by (simp add: memory_at_def buffered_def new_memory_stream_def
      new_stream_def stream_tell_def stream_reset_def memory_ops_def store_at_def Let_def)



text \<open>
  C25. Reading alone never depends on how the bytes arrive: the replies to any sequence of reads are
  the same on a pipe and on a block of memory with the same (non-empty) contents, those of the
  abstract cursor.
\<close>

theorem pipe_and_memory_read_alike:
  assumes "data \<noteq> []" and "list_all reads_only cs"
  shows "\<exists>s s'. stream_run pipe_ops cs (open_pipe \<lparr>contents = data, offset = 0, chunks = ks\<rparr>) =
                  Some (fst (cursor_run data cs 0), s) \<and>
                stream_run memory_ops cs (new_memory_stream data) =
                  Some (fst (cursor_run data cs 0), s') \<and>
                stream_tell s = stream_tell s'"
  using pipe.reads_refine [OF open_pipe_cursor assms(2), of "\<lparr>contents = data, offset = 0, chunks = ks\<rparr>"]
    memory.reads_refine [OF memory_cursor [OF assms(1)] assms(2)]
  by (auto simp: pipe.cursor_def memory.cursor_def)

theorem pipe_and_memory_read_alike_witness:
  "\<exists>s s'. stream_run pipe_ops [Read 2, Read_Char, Read 5]
            (open_pipe \<lparr>contents = [1, 2, 3, 4], offset = 0, chunks = [1, 3]\<rparr>) =
            Some ([Bytes [1, 2], Char 3, Bytes [4]], s) \<and>
          stream_run memory_ops [Read 2, Read_Char, Read 5] (new_memory_stream [1, 2, 3, 4]) =
            Some ([Bytes [1, 2], Char 3, Bytes [4]], s') \<and>
          stream_tell s = stream_tell s'"
  using pipe_and_memory_read_alike [of "[1, 2, 3, 4]" "[Read 2, Read_Char, Read 5]" "[1, 3]"]
  by (simp add: Let_def del: stream_run.simps)

text \<open>
  C27. A line that fits into the caller's buffer is read whole: from any position of an opened file,
  \<^verbatim>\<open>stream_read_line\<close> returns the bytes up to and including the newline and leaves the stream right
  after it.
\<close>

theorem file_read_line_correct:
  assumes "q < length (contents f)"
    and "drop q (contents f) = line @ 10 # after" and "10 \<notin> set line" and "length line + 1 < room"
  shows "\<exists>s s'. stream_seek file_ops (open_file f) (int q) = Some (1, s) \<and>
           stream_read_line file_ops room s = Some (Some (line @ [10]), s') \<and>
           stream_tell s' = int (q + length line + 1)"
proof -
  have r: "regular.ready (contents f) (open_file f)"
    using open_file_cursor by (simp add: regular.cursor_def)
  from regular.seek [OF r, of "int q"] assms(1) obtain s where
    s: "stream_seek file_ops (open_file f) (int q) = Some (1, s)" "regular.ready (contents f) s"
      "stream_tell s = int q" by (auto simp: open_file_setup stream_consts)
  have "regular.rest (contents f) s = line @ 10 # after"
    using assms(2) s(3) by (simp add: regular.rest_def)
  from regular.read_until_line [OF s(2) this assms(3), of "room - 1"] assms(4)
  have "\<exists>s'. read_until_loop file_ops (room - 1) 10 s = Some (line @ [10], s') \<and>
      stream_tell s' = stream_tell s + int (length line) + 1" by fastforce
  then obtain s' where
    "read_until_loop file_ops (room - 1) 10 s = Some (line @ [10], s')"
    "stream_tell s' = stream_tell s + int (length line) + 1" by blast
  then have "stream_read_line file_ops room s = Some (Some (line @ [10]), s')"
    "stream_tell s' = int (q + length line + 1)"
    using assms(4) s(3) by (simp_all add: stream_read_line_def stream_read_until_def)
  then show ?thesis using s(1) by blast
qed

theorem file_read_line_correct_witness:
  "\<exists>s s'. stream_seek file_ops (open_file \<lparr>contents = [97, 10, 98, 99, 10, 100], offset = 0, chunks = [1, 1, 1]\<rparr>) 2
            = Some (1, s) \<and>
          stream_read_line file_ops 4 s = Some (Some [98, 99, 10], s') \<and> stream_tell s' = 5"
  using file_read_line_correct
    [of 2 "\<lparr>contents = [97, 10, 98, 99, 10, 100], offset = 0, chunks = [1, 1, 1]\<rparr>" "[98, 99]" "[100]" 4]
  by simp

subsection \<open>Where the code does not do what it means to\<close>

lemma seek_forward_steps_unfold:
  "0 < n \<Longrightarrow> seek_forward_steps n q s =
     (if pos s < q then
        (case file_fill_buffer s STREAM_BUFFER_SIZE of (bs, s) \<Rightarrow>
           if bs = [] then s\<lparr>eof := True, buf_pos := 0, buf_len := 0\<rparr>
           else seek_forward_steps (n - 1) q
                  (s\<lparr>buffer := store_at (buffer s) 0 bs, buf_pos := 0, buf_len := length bs,
                     pos := pos s + int (length bs)\<rparr>))
      else s)"
  by (cases n) (simp_all only: seek_forward_steps.simps diff_Suc_1)

lemma pipe_ops_simps [simp]:
  "op_fill pipe_ops = Some file_fill_buffer" "op_seek pipe_ops = Some file_seek_forward"
  by (simp_all add: pipe_ops_def file_ops_def)

lemma file_fill_first:
  "chunks (dev s) = c # cs \<Longrightarrow> 0 < c \<Longrightarrow> 0 < n \<Longrightarrow>
   nat (offset (dev s)) + c \<le> length (contents (dev s)) \<Longrightarrow> c \<le> n \<Longrightarrow>
   file_fill_buffer s n =
     (take c (drop (nat (offset (dev s))) (contents (dev s))),
      s\<lparr>dev := (dev s)\<lparr>offset := offset (dev s) + int c, chunks := cs\<rparr>\<rparr>)"
  "chunks (dev s) = [] \<Longrightarrow> 0 < n \<Longrightarrow>
   nat (offset (dev s)) + n \<le> length (contents (dev s)) \<Longrightarrow>
   file_fill_buffer s n =
     (take n (drop (nat (offset (dev s))) (contents (dev s))),
      s\<lparr>dev := (dev s)\<lparr>offset := offset (dev s) + int n\<rparr>\<rparr>)"
  by (auto simp: file_fill_buffer_def os_read_def Let_def min_def)

text \<open>
  C30. A forward seek on a pipe whose reads are cut short ends at a wrong place and reports success:
  the callback \<^verbatim>\<open>seek_forward\<close> reads past the aligned position, and \<^verbatim>\<open>stream_seek_long\<close> goes on as if
  it stood at that position. On any contents that are long enough, with two reads of 3000 bytes,
  seeking to 5000 answers 1 and leaves the stream at 6904.
\<close>

theorem pipe_seek_misses:
  assumes "10096 \<le> length data"
  shows "\<exists>s. stream_seek pipe_ops (open_pipe \<lparr>contents = data, offset = 0, chunks = [3000, 3000]\<rparr>) 5000
               = Some (1, s) \<and> stream_tell s = 6904"
proof -
  let ?s = "\<lparr>st_type = 2, flags = set_seek_flags 4 True, sector_size = 0, buf_pos = 0, buf_len = 3000,
     pos = 6000, start_pos = 0, end_pos = 0, eof = False, mode = 0,
     buffer = store_at (store_at (replicate 8192 0) 0 (take 3000 data)) 0 (take 3000 (drop 3000 data)),
     dev = \<lparr>contents = data, offset = 6000, chunks = []\<rparr>\<rparr>"
  have ne: "data \<noteq> []" using assms by auto
  have long: "stream_seek pipe_ops (open_pipe \<lparr>contents = data, offset = 0, chunks = [3000, 3000]\<rparr>) 5000
      = seek_scan_loop pipe_ops 904 ?s"
    using assms ne
    by (simp add: stream_seek_def open_pipe_def new_stream_def stream_seek_long_def Let_def stream_consts
        stream_seek_internal_def file_seek_forward_def seek_forward_steps_unfold file_fill_first
        seek_forward_loop.simps [of _ 4096 ?s])
  have fill: "\<exists>s. stream_fill_buffer pipe_ops ?s = Some (4096, s) \<and> pos s = 10096 \<and> buf_len s = 4096 \<and> buf_pos s = 0"
    using assms
    by (simp add: stream_fill_buffer_def stream_read_internal.simps [of pipe_ops _ ?s] dev_read_def
        stream_consts file_fill_first fill_loop.simps)
  then show ?thesis using long
    by (auto simp: seek_scan_loop.simps [of pipe_ops _ ?s] stream_tell_def)
qed

theorem pipe_seek_misses_witness:
  "\<exists>s. stream_seek pipe_ops
         (open_pipe \<lparr>contents = replicate 10096 7, offset = 0, chunks = [3000, 3000]\<rparr>) 5000
         = Some (1, s) \<and> stream_tell s = 6904"
  using pipe_seek_misses [of "replicate 10096 7"] by simp


end
