(* ===== verification/Cache.thy ===== *)
theory Cache
  imports Byte_Source
begin

text \<open>
  The stream cache of \<^verbatim>\<open>stream/cache2.c\<close>: a ring of bytes that one thread fills from the stream below
  while another reads it, sharing positions without a lock. A call of \<^verbatim>\<open>cache_fill\<close> or
  \<^verbatim>\<open>cache_read\<close> is cut into the steps at which it looks at or changes what the other thread uses;
  a run interleaves the steps of the two threads in any way. The stream below is used through
  the contract \<open>seekable_source\<close>.

  File positions are integers. The field \<open>c_read_chunk\<close> is the stream's \<^verbatim>\<open>read_chunk\<close>. Left out are the
  \<^verbatim>\<open>STREAM_CTRL\<close> commands passed to the filling thread, and starting and stopping it.
\<close>

section \<open>The shared variables\<close>

record 'd cache_vars =
  c_buffer :: "byte list"
  buffer_size :: int
  c_sector :: int
  back_size :: int
  fill_limit :: int
  seek_limit :: int
  c_read_chunk :: int
  c_eof :: bool
  min_filepos :: int
  max_filepos :: int
  c_offset :: int
  read_filepos :: int
  c_stream :: "'d stream"

definition cache_init :: "int \<Rightarrow> int \<Rightarrow> 'd stream \<Rightarrow> int \<Rightarrow> 'd cache_vars" where
  "cache_init sz sector st chunk =
     (let num = sz sdiv sector;
          num = (if num < 16 then 16 else num)
      in \<lparr>c_buffer = replicate (nat (num * sector)) 0, buffer_size = num * sector,
          c_sector = sector, back_size = num * sector div 2, fill_limit = 8 * sector,
          seek_limit = 0, c_read_chunk = chunk, c_eof = False, min_filepos = 0, max_filepos = 0,
          c_offset = 0, read_filepos = 0, c_stream = st\<rparr>)"

text \<open>
  The start of \<^verbatim>\<open>stream_enable_cache\<close>: the cache for a stream and the number of bytes to wait for,
  with the limits that keep the wait finite.
\<close>

definition enable_cache :: "'d stream \<Rightarrow> int \<Rightarrow> int \<Rightarrow> int \<Rightarrow> int \<Rightarrow> 'd cache_vars \<times> int" where
  "enable_cache st chunk sz lo sl =
     (let ss = (if sector_size st \<noteq> 0 then sector_size st else int STREAM_BUFFER_SIZE);
          s = cache_init sz ss st chunk;
          room = buffer_size s - fill_limit s;
          s = s\<lparr>seek_limit := (if sl > room then room else sl)\<rparr>;
          lo = (if lo > room then room else lo);
          lo = (if lo \<le> 0 then 1 else lo)
      in (s, lo))"

definition cache_fill_status :: "'d cache_vars \<Rightarrow> int option" where
  "cache_fill_status s =
     (let d = buffer_size s sdiv 100
      in if d = 0 then None else Some ((max_filepos s - read_filepos s) sdiv d))"

definition cache_flush :: "'d cache_vars \<Rightarrow> 'd cache_vars" where
  "cache_flush s = s\<lparr>c_offset := read_filepos s, min_filepos := read_filepos s,
                     max_filepos := read_filepos s\<rparr>"

section \<open>Filling\<close>

text \<open>
  After \<^verbatim>\<open>read = s->read_filepos\<close>: the seek when the reader is out of the buffer. Note that the flush
  looks at the reader's position again.
\<close>

definition fill_seek :: "'d stream_ops \<Rightarrow> int \<Rightarrow> 'd cache_vars \<Rightarrow> 'd cache_vars" where
  "fill_seek ops rd s =
     (if (rd < min_filepos s \<or> rd > max_filepos s) \<and>
         (rd < min_filepos s \<or> rd \<ge> max_filepos s + seek_limit s)
      then (let st = (if eof (c_stream s) then stream_reset ops (c_stream s) else c_stream s)
            in (cache_flush s)\<lparr>c_stream := snd (stream_seek_internal ops rd st)\<rparr>)
      else s)"

text \<open>Less than the space up to the end of the ring, unless no sector fits there.\<close>

definition avoid_wrap :: "int \<Rightarrow> int \<Rightarrow> 'd cache_vars \<Rightarrow> int \<times> bool" where
  "avoid_wrap space p s =
     (if space > buffer_size s - p
      then if buffer_size s - p \<ge> c_sector s then (buffer_size s - p, False) else (c_sector s, True)
      else (space, False))"

text \<open>Where and how much to fill, and the new lower end; \<open>None\<close> when there is too little room.\<close>

definition fill_room :: "int \<Rightarrow> 'd cache_vars \<Rightarrow> ('d cache_vars \<times> nat \<times> nat \<times> bool) option" where
  "fill_room rd s =
     (let back = (if rd - min_filepos s < 0 then 0 else rd - min_filepos s);
          back = (if back > back_size s then back_size s else back);
          newb = (if max_filepos s - rd < 0 then 0 else max_filepos s - rd);
          space = buffer_size s - (newb + back);
          p = max_filepos s - c_offset s;
          p = (if p \<ge> buffer_size s then p - buffer_size s else p)
      in if space < fill_limit s then None
         else (let (space, wrap) = avoid_wrap space p s;
                   chunk = (if c_read_chunk s = 0 then 4 * c_sector s else c_read_chunk s);
                   space = min space chunk;
                   back2 = buffer_size s - (space + newb);
                   s = (if min_filepos s < rd - back2 then s\<lparr>min_filepos := rd - back2\<rparr> else s)
               in Some (s, nat p, nat space, wrap)))"

text \<open>The read into the ring, or through the stream's own buffer when it wraps around.\<close>

definition fill_store ::
  "'d stream_ops \<Rightarrow> nat \<Rightarrow> nat \<Rightarrow> bool \<Rightarrow> 'd cache_vars \<Rightarrow> ('d cache_vars \<times> nat) option" where
  "fill_store ops p space wrap s = do {
     (bs, st) \<leftarrow> stream_read_internal ops space (c_stream s);
     let k = min (length bs) (nat (buffer_size s) - p);
     let st = (if wrap then st\<lparr>buffer := store_at (buffer st) 0 bs\<rparr> else st);
     let buf = (if wrap then store_at (store_at (c_buffer s) p (take k bs)) 0 (drop k bs)
                else store_at (c_buffer s) p bs);
     Some (s\<lparr>c_stream := st, c_buffer := buf, c_eof := (bs = [])\<rparr>, length bs) }"

definition fill_publish :: "nat \<Rightarrow> nat \<Rightarrow> 'd cache_vars \<Rightarrow> 'd cache_vars" where
  "fill_publish p len s =
     s\<lparr>max_filepos := max_filepos s + int len,
       c_offset := (if int (p + len) \<ge> buffer_size s then c_offset s + buffer_size s else c_offset s)\<rparr>"

text \<open>A whole call with nothing in between.\<close>

definition cache_fill :: "'d stream_ops \<Rightarrow> 'd cache_vars \<Rightarrow> (nat \<times> 'd cache_vars) option" where
  "cache_fill ops s =
     (let rd = read_filepos s; s = fill_seek ops rd s
      in case fill_room rd s of
           None \<Rightarrow> Some (0, s)
         | Some (s, p, space, wrap) \<Rightarrow>
             do { (s, len) \<leftarrow> fill_store ops p space wrap s; Some (len, fill_publish p len s) })"

section \<open>Reading\<close>

datatype read_turn = At_eof | Wait | Copy (copy_pos: nat) (copy_len: nat)

text \<open>One turn of the loop of \<^verbatim>\<open>cache_read\<close> with \<open>sz\<close> bytes to go: what it does next.\<close>

definition read_check :: "nat \<Rightarrow> 'd cache_vars \<Rightarrow> read_turn" where
  "read_check sz s =
     (if read_filepos s \<ge> max_filepos s \<or> read_filepos s < min_filepos s
      then if c_eof s then At_eof else Wait
      else (let newb = max_filepos s - read_filepos s;
                p = read_filepos s - c_offset s;
                p = (if p < 0 then p + buffer_size s
                     else if p \<ge> buffer_size s then p - buffer_size s else p);
                newb = (if newb > buffer_size s - p then buffer_size s - p else newb);
                newb = (if newb > int sz then int sz else newb)
            in Copy (nat p) (nat newb)))"

definition read_copy :: "nat \<Rightarrow> nat \<Rightarrow> 'd cache_vars \<Rightarrow> byte list \<times> 'd cache_vars" where
  "read_copy p n s =
     (take n (drop p (c_buffer s)), s\<lparr>read_filepos := read_filepos s + int n\<rparr>)"

text \<open>
  \<^verbatim>\<open>cache_read\<close> when each wait lets the filling thread through its loop once and no interrupt comes.
\<close>

partial_function (option) cache_read ::
  "'d stream_ops \<Rightarrow> nat \<Rightarrow> 'd cache_vars \<Rightarrow> (byte list \<times> 'd cache_vars) option" where
  "cache_read ops sz s =
     (if sz = 0 \<or> read_check sz s = At_eof then Some ([], s)
      else if read_check sz s = Wait then do { (k, s) \<leftarrow> cache_fill ops s; cache_read ops sz s }
      else (case read_copy (copy_pos (read_check sz s)) (copy_len (read_check sz s)) s of
              (bs, s') \<Rightarrow> do { (cs, s'') \<leftarrow> cache_read ops (sz - copy_len (read_check sz s)) s';
                             Some (bs @ cs, s'') }))"

text \<open>The reader's seek in \<^verbatim>\<open>cache_stream_seek_long\<close>, before it reads.\<close>

definition cache_seek :: "int \<Rightarrow> 'd cache_vars \<Rightarrow> 'd cache_vars" where
  "cache_seek q s = s\<lparr>read_filepos := (q sdiv c_sector s) * c_sector s, c_eof := False\<rparr>"

text \<open>The calls of a stream that has a cache; \<open>st\<close> is the reader's copy of the stream.\<close>

definition cache_stream_fill_buffer ::
  "'d stream_ops \<Rightarrow> 'd stream \<Rightarrow> 'd cache_vars \<Rightarrow> (nat \<times> 'd stream \<times> 'd cache_vars) option" where
  "cache_stream_fill_buffer ops st s =
     (let ss = (if c_sector s > int STREAM_MAX_SECTOR_SIZE then int STREAM_MAX_SECTOR_SIZE else c_sector s)
      in do { (bs, s) \<leftarrow> cache_read ops (nat ss) s;
              if bs = [] then Some (0, st\<lparr>eof := True, buf_pos := 0, buf_len := 0\<rparr>, s)
              else Some (length bs, st\<lparr>eof := False, buffer := store_at (buffer st) 0 bs, buf_pos := 0,
                                       buf_len := length bs, pos := pos st + int (length bs)\<rparr>, s) })"

definition cache_stream_seek_long ::
  "'d stream_ops \<Rightarrow> 'd stream \<Rightarrow> 'd cache_vars \<Rightarrow> int \<Rightarrow> (int \<times> 'd stream \<times> 'd cache_vars) option" where
  "cache_stream_seek_long ops st s p =
     (let newpos = (p sdiv c_sector s) * c_sector s
      in do { (r, st, s) \<leftarrow> cache_stream_fill_buffer ops (st\<lparr>pos := newpos\<rparr>) (cache_seek p s);
              if p - newpos \<ge> 0 \<and> p - newpos \<le> int (buf_len st)
              then Some (1, st\<lparr>buf_pos := nat (p - newpos)\<rparr>, s)
              else Some (0, st, s) })"

section \<open>Interleavings\<close>

text \<open>
  Where the two threads are: the filler has looked at the reader's position, has chosen where to
  store, or has stored and not published; the reader has found bytes and not copied them.
\<close>

datatype filler = F_idle | F_sampled int | F_store nat nat bool | F_publish nat nat

datatype reader = R_idle | R_copy nat nat

record 'd cache_state =
  cvars :: "'d cache_vars"
  fill_pc :: filler
  read_pc :: reader

datatype event = Sample | Plan | Store | Publish | Check nat | Deliver | Interrupt | Seek_to int

text \<open>
  A step of one of the threads, with the bytes delivered to the reader's buffer and the position
  they are meant to have. \<open>None\<close> is an event that is not possible in the state.
\<close>

fun cache_step ::
  "'d stream_ops \<Rightarrow> event \<Rightarrow> 'd cache_state \<Rightarrow> ('d cache_state \<times> (int \<times> byte list) option) option" where
  "cache_step ops Sample s =
     (if fill_pc s = F_idle then Some (s\<lparr>fill_pc := F_sampled (read_filepos (cvars s))\<rparr>, None) else None)"
| "cache_step ops Plan s =
     (case fill_pc s of
        F_sampled rd \<Rightarrow>
          (let v = fill_seek ops rd (cvars s)
           in case fill_room rd v of
                None \<Rightarrow> Some (s\<lparr>cvars := v, fill_pc := F_idle\<rparr>, None)
              | Some (v, p, space, wrap) \<Rightarrow> Some (s\<lparr>cvars := v, fill_pc := F_store p space wrap\<rparr>, None))
      | _ \<Rightarrow> None)"
| "cache_step ops Store s =
     (case fill_pc s of
        F_store p space wrap \<Rightarrow>
          do { (v, len) \<leftarrow> fill_store ops p space wrap (cvars s);
               Some (s\<lparr>cvars := v, fill_pc := F_publish p len\<rparr>, None) }
      | _ \<Rightarrow> None)"
| "cache_step ops Publish s =
     (case fill_pc s of
        F_publish p len \<Rightarrow> Some (s\<lparr>cvars := fill_publish p len (cvars s), fill_pc := F_idle\<rparr>, None)
      | _ \<Rightarrow> None)"
| "cache_step ops (Check sz) s =
     (if read_pc s = R_idle
      then Some (case read_check sz (cvars s) of
                   Copy p n \<Rightarrow> s\<lparr>read_pc := R_copy p n\<rparr> | _ \<Rightarrow> s, None)
      else None)"
| "cache_step ops Deliver s =
     (case read_pc s of
        R_copy p n \<Rightarrow>
          (case read_copy p n (cvars s) of
             (bs, v) \<Rightarrow> Some (s\<lparr>cvars := v, read_pc := R_idle\<rparr>, Some (read_filepos (cvars s), bs)))
      | R_idle \<Rightarrow> None)"
| "cache_step ops Interrupt s =
     (if read_pc s = R_idle then Some (s\<lparr>cvars := (cvars s)\<lparr>c_eof := True\<rparr>\<rparr>, None) else None)"
| "cache_step ops (Seek_to q) s =
     (if read_pc s = R_idle then Some (s\<lparr>cvars := cache_seek q (cvars s)\<rparr>, None) else None)"

text \<open>A run of events and what it delivers.\<close>

fun cache_run ::
  "'d stream_ops \<Rightarrow> event list \<Rightarrow> 'd cache_state \<Rightarrow> ('d cache_state \<times> (int \<times> byte list) list) option" where
  "cache_run ops [] s = Some (s, [])"
| "cache_run ops (e # es) s = do {
     (s, d) \<leftarrow> cache_step ops e s;
     (s, ds) \<leftarrow> cache_run ops es s;
     Some (s, (case d of None \<Rightarrow> ds | Some x \<Rightarrow> x # ds)) }"

definition cache_start :: "'d cache_vars \<Rightarrow> 'd cache_state" where
  "cache_start v = \<lparr>cvars = v, fill_pc = F_idle, read_pc = R_idle\<rparr>"

end
