(* ===== verification/Cache_Ring.thy ===== *)
theory Cache_Ring
  imports Cache
begin

text \<open>
  Facts of the cache's ring: which slot holds the byte at a position of the file, what a store that
  goes round the end changes, how much room \<^verbatim>\<open>cache_fill\<close> finds, and what a copy out of the ring is.
\<close>

section \<open>The ring\<close>

definition slot :: "'d cache_vars \<Rightarrow> int \<Rightarrow> nat" where
  "slot v x = nat ((x - c_offset v) mod buffer_size v)"

text \<open>The sizes, and where the positions may stand to each other.\<close>

definition geometry :: "'d cache_vars \<Rightarrow> bool" where
  "geometry v \<longleftrightarrow>
     0 < c_sector v \<and> fill_limit v = 8 * c_sector v \<and> 16 * c_sector v \<le> buffer_size v \<and>
     0 \<le> back_size v \<and> 0 \<le> c_read_chunk v \<and> length (c_buffer v) = nat (buffer_size v) \<and>
     0 \<le> max_filepos v - c_offset v \<and> max_filepos v - c_offset v < buffer_size v \<and>
     max_filepos v - buffer_size v \<le> min_filepos v \<and> 0 \<le> read_filepos v \<and> 0 \<le> min_filepos v"

text \<open>The ring holds the content from \<open>lo\<close> up to \<open>hi\<close>.\<close>

definition holds :: "byte list \<Rightarrow> 'd cache_vars \<Rightarrow> int \<Rightarrow> int \<Rightarrow> bool" where
  "holds content v lo hi \<longleftrightarrow>
     (\<forall>x. lo \<le> x \<and> x < hi \<longrightarrow> nat x < length content \<and> c_buffer v ! slot v x = content ! nat x)"

lemma nth_store_at:
  "p + length bs \<le> length m \<Longrightarrow> i < length m \<Longrightarrow>
   store_at m p bs ! i = (if p \<le> i \<and> i < p + length bs then bs ! (i - p) else m ! i)"
  by (auto simp: store_at_def nth_append min_def)

lemma length_store_at_same: "p + length bs \<le> length m \<Longrightarrow> length (store_at m p bs) = length m"
  by (simp add: store_at_def)

text \<open>Bytes stored from a slot on, going round at the end of the ring.\<close>

definition store_ring :: "byte list \<Rightarrow> nat \<Rightarrow> byte list \<Rightarrow> byte list" where
  "store_ring m p bs =
     (let k = min (length bs) (length m - p) in store_at (store_at m p (take k bs)) 0 (drop k bs))"

lemma store_ring_straight: "p + length bs \<le> length m \<Longrightarrow> store_ring m p bs = store_at m p bs"
  by (auto simp: store_ring_def Let_def min_def store_at_def)

lemma length_store_ring: "p < length m \<Longrightarrow> length bs \<le> length m \<Longrightarrow> length (store_ring m p bs) = length m"
  by (auto simp: store_ring_def Let_def length_store_at_same min_def)

lemma nth_store_ring:
  assumes "p < length m" and "length bs \<le> length m" and "i < length m"
  shows "store_ring m p bs ! i =
    (let j = (if p \<le> i then i - p else i + length m - p) in if j < length bs then bs ! j else m ! i)"
proof -
  define k where "k = min (length bs) (length m - p)"
  have k: "p + length (take k bs) \<le> length m" "length (drop k bs) \<le> p" "length (drop k bs) \<le> length m"
    using assms by (auto simp: k_def)
  have 1: "store_at m p (take k bs) ! i =
      (if p \<le> i \<and> i < p + length (take k bs) then take k bs ! (i - p) else m ! i)"
    using nth_store_at [OF k(1) assms(3)] .
  have len: "length (store_at m p (take k bs)) = length m" using length_store_at_same [OF k(1)] .
  have 2: "store_ring m p bs ! i = (if i < length (drop k bs) then drop k bs ! i
      else store_at m p (take k bs) ! i)"
    using nth_store_at [of 0 "drop k bs" "store_at m p (take k bs)" i] assms(3) k(3) len
    by (simp add: store_ring_def Let_def k_def [symmetric])
  show ?thesis
  proof (cases "p \<le> i")
    case True
    then have "\<not> i < length (drop k bs)" using k(2) by simp
    then show ?thesis using 1 2 True assms by (auto simp: Let_def k_def)
  next
    case False
    then have i: "i + length m - p = (length m - p) + i" using assms by simp
    show ?thesis
    proof (cases "i < length (drop k bs)")
      case True
      then have k': "k = length m - p" "i + k < length bs" by (auto simp: k_def min_def split: if_splits)
      with True False 2 show ?thesis by (simp add: Let_def i add.commute)
    next
      case f: False
      then have "\<not> (length m - p) + i < length bs" by (auto simp: k_def min_def split: if_splits)
      with f False 1 2 show ?thesis by (simp add: Let_def i)
    qed
  qed
qed

lemma slot_less: "0 < buffer_size v \<Longrightarrow> slot v x < nat (buffer_size v)"
  by (simp add: slot_def)

lemma slot_near:
  assumes "0 < buffer_size v" and "0 \<le> x - c_offset v + k * buffer_size v"
    and "x - c_offset v + k * buffer_size v < buffer_size v"
  shows "slot v x = nat (x - c_offset v + k * buffer_size v)"
proof -
  have "(x - c_offset v) mod buffer_size v = (x - c_offset v + k * buffer_size v) mod buffer_size v"
    by simp
  also have "\<dots> = x - c_offset v + k * buffer_size v" using assms by (intro mod_pos_pos_trivial)
  finally show ?thesis by (simp add: slot_def)
qed

lemma ring_dist:
  "p < l \<Longrightarrow> int (if p \<le> s then s - p else s + l - p) =
     (if int p \<le> int s then int s - int p else int s + int l - int p)" for p s l :: nat
  by auto

lemma ring_dist_bounds:
  "0 \<le> r \<Longrightarrow> r < n \<Longrightarrow> 0 \<le> p \<Longrightarrow> p < n \<Longrightarrow>
   0 \<le> (if p \<le> r then r - p else r + n - p) \<and> (if p \<le> r then r - p else r + n - p) < n" for r n p :: int
  by auto

lemma ring_same:
  fixes n :: int
  assumes d: "d = q * n + (r - p)"
    and "0 \<le> (if b then d + n else d)" "(if b then d + n else d) < n"
    and "0 \<le> (if c then r - p else r + n - p)" "(if c then r - p else r + n - p) < n"
  shows "(if b then d + n else d) = (if c then r - p else r + n - p)"
proof -
  define A where "A = (if b then d + n else d)"
  define B where "B = (if c then r - p else r + n - p)"
  have "r + n - p = r - p + n" by simp
  then have "B mod n = (r - p) mod n" unfolding B_def by (cases c) (simp_all only: if_True if_False mod_add_self2)
  moreover have "A mod n = d mod n" unfolding A_def by (cases b) (simp_all only: if_True if_False mod_add_self2)
  moreover have "d mod n = (r - p) mod n" unfolding d by (rule mod_mult_self3)
  moreover have "A mod n = A" unfolding A_def using assms(2,3) by (rule mod_pos_pos_trivial)
  moreover have "B mod n = B" unfolding B_def using assms(4,5) by (rule mod_pos_pos_trivial)
  ultimately show ?thesis unfolding A_def [symmetric] B_def [symmetric] by metis
qed

text \<open>How far the slot of \<open>x\<close> is from the slot that is filled next, going round.\<close>

lemma slot_distance:
  assumes n: "0 < buffer_size v" and m: "0 \<le> max_filepos v - c_offset v"
      "max_filepos v - c_offset v < buffer_size v"
    and x: "max_filepos v - buffer_size v \<le> x" "x < max_filepos v + buffer_size v"
    and p: "p = nat (max_filepos v - c_offset v)" and l: "l = nat (buffer_size v)"
  shows "int (if p \<le> slot v x then slot v x - p else slot v x + l - p) =
     (if x < max_filepos v then x - max_filepos v + buffer_size v else x - max_filepos v)"
proof -
  let ?n = "buffer_size v"
  have ip: "int p = max_filepos v - c_offset v" "int p < ?n" "int l = ?n" "p < l" using n m p l by simp_all
  define r where "r = (x - c_offset v) mod ?n"
  have r: "0 \<le> r" "r < ?n" "int (slot v x) = r" using n by (simp_all add: r_def slot_def)
  obtain q where q: "x - c_offset v = q * ?n + r" unfolding r_def by (metis div_mult_mod_eq)
  then have "x - max_filepos v = q * ?n + (r - int p)" using ip(1) by linarith
  moreover have "0 \<le> (if x < max_filepos v then x - max_filepos v + ?n else x - max_filepos v)"
    "(if x < max_filepos v then x - max_filepos v + ?n else x - max_filepos v) < ?n"
    using x by (simp_all split: if_split)
  ultimately have "(if x < max_filepos v then x - max_filepos v + ?n else x - max_filepos v) =
      (if int p \<le> r then r - int p else r + ?n - int p)"
    using ring_dist_bounds [OF r(1,2) of_nat_0_le_iff ip(2)] by (intro ring_same) simp_all
  then show ?thesis using ring_dist [OF ip(4), of "slot v x"] unfolding ip(3) r(3) by (rule trans [OF _ sym, rotated])
qed

text \<open>
  Storing at the upper end: what was held in the window below stays, and the new bytes are held
  above.
\<close>

lemma store_holds:
  assumes g: "geometry v" and h: "holds content v (min_filepos v) (max_filepos v)"
    and bs: "bs = take (length bs) (drop (nat (max_filepos v)) content)"
    and room: "max_filepos v + int (length bs) - buffer_size v \<le> min_filepos v"
    and len: "int (length bs) \<le> buffer_size v" and max0: "0 \<le> max_filepos v"
    and v': "c_buffer v' = store_ring (c_buffer v) (nat (max_filepos v - c_offset v)) bs"
      "c_offset v' = c_offset v" "buffer_size v' = buffer_size v"
  shows "holds content v' (min_filepos v) (max_filepos v + int (length bs))"
  unfolding holds_def
proof (intro allI impI)
  fix x assume x: "min_filepos v \<le> x \<and> x < max_filepos v + int (length bs)"
  define p where "p = nat (max_filepos v - c_offset v)"
  define j where "j = (if p \<le> slot v x then slot v x - p else slot v x + length (c_buffer v) - p)"
  have n: "0 < buffer_size v" "length (c_buffer v) = nat (buffer_size v)"
    "0 \<le> max_filepos v - c_offset v" "max_filepos v - c_offset v < buffer_size v"
    using g by (simp_all add: geometry_def)
  have slot: "slot v' x = slot v x" by (simp add: slot_def v')
  have lens: "p < length (c_buffer v)" "length bs \<le> length (c_buffer v)" "slot v x < length (c_buffer v)"
    using n len slot_less [OF n(1), of x] unfolding n(2) p_def by simp_all
  have nth: "c_buffer v' ! slot v' x = (if j < length bs then bs ! j else c_buffer v ! slot v x)"
    using nth_store_ring [OF lens] unfolding v' slot p_def [symmetric] j_def Let_def .
  have j: "int j = (if x < max_filepos v then x - max_filepos v + buffer_size v else x - max_filepos v)"
    unfolding j_def by (rule slot_distance [OF n(1,3,4) _ _ p_def n(2)]) (use x room len in linarith)+
  show "nat x < length content \<and> c_buffer v' ! slot v' x = content ! nat x"
  proof (cases "x < max_filepos v")
    case True
    then have "int j = x - max_filepos v + buffer_size v" using j by simp
    then have "\<not> j < length bs" using x room by linarith
    then show ?thesis using h x True nth by (simp add: holds_def)
  next
    case False
    then have "int j = x - max_filepos v" using j by simp
    then have jx: "j < length bs" "nat (max_filepos v) + j = nat x" using x max0 by linarith+
    have le: "length bs \<le> length content - nat (max_filepos v)"
      using arg_cong [OF bs, of length] by simp
    have "bs ! j = drop (nat (max_filepos v)) content ! j" using jx(1) by (subst bs) simp
    also have "\<dots> = content ! nat x" using le jx by (subst nth_drop) simp_all
    finally show ?thesis using nth jx le by simp
  qed
qed

section \<open>Reading from the ring\<close>

lemma read_check_copy:
  assumes g: "geometry v" and c: "read_check sz v = Copy p n"
  shows "min_filepos v \<le> read_filepos v" "read_filepos v + int n \<le> max_filepos v"
    "p = slot v (read_filepos v)" "p + n \<le> nat (buffer_size v)" "n \<le> sz" "0 < sz \<Longrightarrow> 0 < n"
proof -
  let ?d = "read_filepos v - c_offset v" and ?n = "buffer_size v"
  define q where "q = (if ?d < 0 then ?d + ?n else if ?d \<ge> ?n then ?d - ?n else ?d)"
  define k where "k = (let b = max_filepos v - read_filepos v; b = (if b > ?n - q then ?n - q else b)
                       in if b > int sz then int sz else b)"
  have r: "min_filepos v \<le> read_filepos v" "read_filepos v < max_filepos v"
    using c by (auto simp: read_check_def split: if_splits)
  have e: "p = nat q" "n = nat k"
    using c r by (auto simp: read_check_def q_def k_def Let_def split: if_splits)
  have g': "0 < ?n" "0 \<le> max_filepos v - c_offset v" "max_filepos v - c_offset v < ?n"
    "max_filepos v - ?n \<le> min_filepos v" using g by (simp_all add: geometry_def)
  have q: "q = ?d \<or> q = ?d + ?n" "0 \<le> q" "q < ?n" using r g' by (auto simp: q_def)
  have k: "0 \<le> k" "k \<le> max_filepos v - read_filepos v" "k \<le> ?n - q" "k \<le> int sz" "0 < sz \<Longrightarrow> 0 < k"
    using r q by (auto simp: k_def Let_def)
  show "min_filepos v \<le> read_filepos v" by (rule r)
  show "read_filepos v + int n \<le> max_filepos v" using k e by simp
  show "p = slot v (read_filepos v)"
    using q slot_near [OF g'(1), of "read_filepos v" 0] slot_near [OF g'(1), of "read_filepos v" 1] e by auto
  show "p + n \<le> nat ?n" using k(1,3) q(2) e by linarith
  show "n \<le> sz" "0 < sz \<Longrightarrow> 0 < n" using k e by simp_all
qed

lemma copied_content:
  assumes g: "geometry v" and h: "holds content v (min_filepos v) (max_filepos v)"
    and r: "min_filepos v \<le> read_filepos v" "read_filepos v + int n \<le> max_filepos v"
      "p = slot v (read_filepos v)" "p + n \<le> nat (buffer_size v)"
  shows "take n (drop p (c_buffer v)) = take n (drop (nat (read_filepos v)) content)"
    and "length (take n (drop p (c_buffer v))) = n"
proof -
  have g': "0 < buffer_size v" "length (c_buffer v) = nat (buffer_size v)" "0 \<le> read_filepos v"
    using g by (simp_all add: geometry_def)
  have at: "nat (read_filepos v) + i < length content \<and>
      c_buffer v ! (p + i) = content ! (nat (read_filepos v) + i)" if i: "i < n" for i
  proof -
    have "slot v (read_filepos v + int i) = p + i"
    proof -
      have "(read_filepos v + int i - c_offset v) mod buffer_size v =
          ((read_filepos v - c_offset v) mod buffer_size v + int i) mod buffer_size v"
        unfolding mod_add_left_eq by (simp add: algebra_simps)
      also have "(read_filepos v - c_offset v) mod buffer_size v = int p"
        using g'(1) by (simp add: r(3) slot_def)
      also have "(int p + int i) mod buffer_size v = int p + int i"
        using i r(4) g'(1) by (intro mod_pos_pos_trivial) linarith+
      finally show ?thesis by (simp add: slot_def nat_add_distrib)
    qed
    moreover have "nat (read_filepos v + int i) = nat (read_filepos v) + i" using g'(3) by simp
    ultimately show ?thesis using h r(1,2) i by (auto simp: holds_def dest!: spec [of _ "read_filepos v + int i"])
  qed
  show len: "length (take n (drop p (c_buffer v))) = n" using r(4) g'(2) by simp
  show "take n (drop p (c_buffer v)) = take n (drop (nat (read_filepos v)) content)"
  proof (rule nth_equalityI)
    show "length (take n (drop p (c_buffer v))) = length (take n (drop (nat (read_filepos v)) content))"
      using len at [of "n - 1"] by (cases n) auto
  next
    fix i assume "i < length (take n (drop p (c_buffer v)))"
    then have i: "i < n" using len by simp
    then show "take n (drop p (c_buffer v)) ! i = take n (drop (nat (read_filepos v)) content) ! i"
      using at [OF i] r(4) g'(2) by simp
  qed
qed

section \<open>The room that is filled\<close>

lemma fill_room_ok:
  assumes g: "geometry v" and rd: "min_filepos v \<le> rd"
    and f: "fill_room rd v = Some (v', p, space, wrap)"
  shows "\<exists>m. v' = v\<lparr>min_filepos := m\<rparr> \<and> min_filepos v \<le> m \<and> m \<le> rd \<and>
      max_filepos v + int space - buffer_size v \<le> m \<and>
      p = nat (max_filepos v - c_offset v) \<and> 0 < space \<and> int space \<le> buffer_size v \<and>
      (\<not> wrap \<longrightarrow> p + space \<le> nat (buffer_size v))"
proof -
  let ?n = "buffer_size v" and ?sec = "c_sector v"
  have g': "0 < ?sec" "fill_limit v = 8 * ?sec" "16 * ?sec \<le> ?n" "0 \<le> back_size v" "0 \<le> c_read_chunk v"
    "0 \<le> max_filepos v - c_offset v" "max_filepos v - c_offset v < ?n" using g by (simp_all add: geometry_def)
  define bk where "bk = (let b = (if rd - min_filepos v < 0 then 0 else rd - min_filepos v)
                             in if b > back_size v then back_size v else b)"
  define newb where "newb = (if max_filepos v - rd < 0 then 0 else max_filepos v - rd)"
  define q where "q = max_filepos v - c_offset v"
  define chunk where "chunk = (if c_read_chunk v = 0 then 4 * ?sec else c_read_chunk v)"
  define q' where "q' = (if q \<ge> ?n then q - ?n else q)"
  define room where "room = avoid_wrap (?n - (newb + bk)) q' v"
  define sp where "sp = min (fst room) chunk"
  have q: "q' = q" using g'(7) by (simp add: q'_def q_def)
  have bk: "0 \<le> bk" using g' by (simp add: bk_def Let_def)
  have newb: "max_filepos v - rd \<le> newb" "0 \<le> newb" by (simp_all add: newb_def)
  have chunk: "0 < chunk" using g' by (simp add: chunk_def)
  have "fill_room rd v = (if ?n - (newb + bk) < fill_limit v then None
      else Some (if min_filepos v < rd - (?n - (sp + newb)) then v\<lparr>min_filepos := rd - (?n - (sp + newb))\<rparr> else v,
                 nat q', nat sp, snd room))"
    by (simp only: fill_room_def Let_def case_prod_beta bk_def newb_def q_def q'_def chunk_def room_def sp_def)
  then have big: "\<not> ?n - (newb + bk) < fill_limit v"
    and out: "v' = (if min_filepos v < rd - (?n - (sp + newb)) then v\<lparr>min_filepos := rd - (?n - (sp + newb))\<rparr> else v)"
      "p = nat q" "space = nat sp" "wrap = snd room"
    using f q by (simp_all split: if_split_asm)
  have room: "0 < fst room" "fst room \<le> ?n - (newb + bk)" "\<not> snd room \<longrightarrow> q + fst room \<le> ?n"
    using big g'(1,2,7) by (auto simp: room_def q avoid_wrap_def q_def)
  then have sp: "0 < sp" "sp \<le> ?n - (newb + bk)" "\<not> snd room \<longrightarrow> q + sp \<le> ?n"
    using chunk by (auto simp: sp_def)
  define m where "m = max (min_filepos v) (rd - (?n - (sp + newb)))"
  have "v' = v\<lparr>min_filepos := m\<rparr>" using out(1) by (simp add: m_def max_def)
  moreover have "min_filepos v \<le> m" "m \<le> rd" using sp bk rd by (simp_all add: m_def)
  moreover have "max_filepos v + sp - ?n \<le> m" using newb by (simp add: m_def)
  moreover have "0 < space" "int space = sp" "sp \<le> ?n" using sp bk newb out by simp_all
  moreover have "\<not> wrap \<longrightarrow> p + space \<le> nat ?n" using sp(1,3) out g'(6) unfolding q_def by linarith
  ultimately show ?thesis using out(2) unfolding q_def by (intro exI [of _ m]) simp
qed

text \<open>A reader that waits is never refused room.\<close>

lemma fill_room_None:
  "fill_room rd v = None \<longleftrightarrow>
     buffer_size v - ((if max_filepos v - rd < 0 then 0 else max_filepos v - rd) +
       (if (if rd - min_filepos v < 0 then 0 else rd - min_filepos v) > back_size v then back_size v
        else if rd - min_filepos v < 0 then 0 else rd - min_filepos v)) < fill_limit v"
  (is "_ \<longleftrightarrow> ?c")
  unfolding fill_room_def Let_def case_prod_beta by (cases ?c) (simp_all only: if_True if_False option.simps simp_thms)

lemma fill_room_waiting:
  assumes g: "geometry v" "back_size v \<le> buffer_size v div 2" and rd: "max_filepos v \<le> rd"
  shows "fill_room rd v \<noteq> None"
proof -
  have "0 \<le> back_size v" "fill_limit v = 8 * c_sector v" "16 * c_sector v \<le> buffer_size v"
    using g by (simp_all add: geometry_def)
  then have "\<not> buffer_size v - (0 + b) < fill_limit v" if "b \<le> back_size v" for b
    using g(2) that by linarith
  moreover have "(if x > back_size v then back_size v else x) \<le> back_size v" for x by simp
  moreover have "(if max_filepos v - rd < 0 then 0 else max_filepos v - rd) = 0" using rd by simp
  ultimately show ?thesis unfolding fill_room_None by (simp only: simp_thms)
qed

end
