(* ===== verification/Cache_Threads.thy ===== *)
theory Cache_Threads
  imports Cache_Ring
begin

text \<open>
  The cache above any stream that can be sought and reset, as the locale \<open>cached_source\<close>: what holds
  between the steps of the two threads, that every step keeps it, and that a reader whose waits are
  answered reads the content. The contract is interpreted on files.
\<close>

lemma holds_empty: "hi \<le> lo \<Longrightarrow> holds content v lo hi"
  by (auto simp: holds_def)

section \<open>The cache above a stream\<close>

text \<open>The contract gains what the filling thread uses before a seek.\<close>

locale cached_source = seekable_source +
  assumes at_reset: "at s \<Longrightarrow> at (stream_reset ops s)"
begin

text \<open>The stream below stands at a position of the content.\<close>

definition below :: "'a cache_vars \<Rightarrow> int \<Rightarrow> bool" where
  "below v q \<longleftrightarrow> at (c_stream v) \<and> pos (c_stream v) = q"

definition filled :: "'a cache_vars \<Rightarrow> bool" where
  "filled v \<longleftrightarrow> geometry v \<and> below v (max_filepos v) \<and> holds content v (min_filepos v) (max_filepos v)"

lemma filledD:
  "filled v \<Longrightarrow> geometry v" "filled v \<Longrightarrow> holds content v (min_filepos v) (max_filepos v)"
  "filled v \<Longrightarrow> below v (max_filepos v)"
  by (simp_all add: filled_def)

lemma filled_max: "filled v \<Longrightarrow> 0 \<le> max_filepos v"
  using at_pos [of "c_stream v"] by (simp add: filled_def below_def)

lemma filled_updates [simp]:
  "filled (v\<lparr>c_eof := e\<rparr>) = filled v"
  "0 \<le> r \<Longrightarrow> 0 \<le> read_filepos v \<Longrightarrow> filled (v\<lparr>read_filepos := r\<rparr>) = filled v"
  by (simp_all add: filled_def below_def geometry_def holds_def slot_def)

lemma filled_min:
  "filled v \<Longrightarrow> min_filepos v \<le> m \<Longrightarrow> filled (v\<lparr>min_filepos := m\<rparr>)"
  by (auto simp: filled_def below_def geometry_def holds_def slot_def)

lemma fill_seek_ok:
  assumes v: "filled v"
    and rd: "rd = read_filepos v \<or>
      min_filepos v \<le> rd \<and> rd \<le> read_filepos v \<and> read_filepos v \<le> max_filepos v"
  shows "filled (fill_seek ops rd v)" "read_filepos (fill_seek ops rd v) = read_filepos v"
    "min_filepos (fill_seek ops rd v) \<le> rd" "rd \<le> read_filepos v"
    "min_filepos v \<le> read_filepos v \<Longrightarrow> read_filepos v \<le> max_filepos v \<Longrightarrow> fill_seek ops rd v = v"
    "fill_seek ops rd v = v \<or> max_filepos (fill_seek ops rd v) = rd"
    "c_eof (fill_seek ops rd v) = c_eof v" "back_size (fill_seek ops rd v) = back_size v"
    "buffer_size (fill_seek ops rd v) = buffer_size v"
proof -
  define c where "c \<longleftrightarrow> (rd < min_filepos v \<or> rd > max_filepos v) \<and>
    (rd < min_filepos v \<or> rd \<ge> max_filepos v + seek_limit v)"
  define st where "st = (if eof (c_stream v) then stream_reset ops (c_stream v) else c_stream v)"
  have g: "geometry v" "below v (max_filepos v)" "0 \<le> read_filepos v"
    using v by (simp_all add: filled_def geometry_def)
  have e: "fill_seek ops rd v =
      (if c then (cache_flush v)\<lparr>c_stream := snd (stream_seek_internal ops rd st)\<rparr> else v)"
    by (simp add: fill_seek_def c_def st_def)
  have c: "c \<Longrightarrow> rd = read_filepos v" using rd by (auto simp: c_def)
  have "at st" using g(2) at_reset by (simp add: st_def below_def)
  have seek: "below (v'\<lparr>c_stream := snd (stream_seek_internal ops rd st)\<rparr>) rd" if "c" for v'
  proof -
    have "0 \<le> rd" using c that g(3) by simp
    from at_seek [OF \<open>at st\<close> this] obtain e d where
      "stream_seek_internal ops rd st = (-1, st\<lparr>pos := rd, eof := e, dev := d\<rparr>)"
      "at (st\<lparr>pos := rd, dev := d\<rparr>)" by blast
    moreover have "st\<lparr>pos := rd, eof := e, dev := d\<rparr> = st\<lparr>pos := rd, dev := d\<rparr>\<lparr>eof := e\<rparr>" by simp
    ultimately show ?thesis by (simp add: below_def del: stream.update_convs)
  qed
  have flush: "geometry (cache_flush v)" using g(1,3) by (simp add: cache_flush_def geometry_def)
  show "filled (fill_seek ops rd v)"
  proof (cases c)
    case True
    let ?v = "(cache_flush v)\<lparr>c_stream := snd (stream_seek_internal ops rd st)\<rparr>"
    have "geometry ?v" using flush by (simp add: geometry_def)
    moreover have "min_filepos ?v = max_filepos ?v" "max_filepos ?v = rd"
      using c [OF True] by (simp_all add: cache_flush_def)
    ultimately have "filled ?v" using seek [OF True, of "cache_flush v"] holds_empty [OF order_refl, of content _ rd]
      by (simp only: filled_def simp_thms order_refl)
    then show ?thesis using True by (simp only: e if_True)
  qed (use v in \<open>simp add: e\<close>)
  show "read_filepos (fill_seek ops rd v) = read_filepos v" "c_eof (fill_seek ops rd v) = c_eof v"
    "back_size (fill_seek ops rd v) = back_size v"
    "buffer_size (fill_seek ops rd v) = buffer_size v" by (simp_all add: e cache_flush_def)
  show "rd \<le> read_filepos v" using rd by auto
  have "\<not> c \<Longrightarrow> min_filepos v \<le> rd" unfolding c_def by auto
  then show "min_filepos (fill_seek ops rd v) \<le> rd"
    unfolding e using c by (cases c) (simp_all add: cache_flush_def)
  show "fill_seek ops rd v = v" if "min_filepos v \<le> read_filepos v" "read_filepos v \<le> max_filepos v"
  proof -
    have "\<not> c" using rd that unfolding c_def by auto
    then show ?thesis by (simp only: e if_False)
  qed
  show "fill_seek ops rd v = v \<or> max_filepos (fill_seek ops rd v) = rd"
    unfolding e using c by (cases c) (simp_all add: cache_flush_def)
qed

text \<open>What \<open>F_store\<close> and \<open>F_publish\<close> know about the variables.\<close>

definition storing :: "nat \<Rightarrow> nat \<Rightarrow> bool \<Rightarrow> 'a cache_vars \<Rightarrow> bool" where
  "storing p space wrap v \<longleftrightarrow>
     filled v \<and> p = nat (max_filepos v - c_offset v) \<and> 0 < space \<and> int space \<le> buffer_size v \<and>
     max_filepos v + int space - buffer_size v \<le> min_filepos v \<and>
     (\<not> wrap \<longrightarrow> p + space \<le> nat (buffer_size v))"

definition stored :: "nat \<Rightarrow> nat \<Rightarrow> 'a cache_vars \<Rightarrow> bool" where
  "stored p len v \<longleftrightarrow>
     geometry v \<and> 0 \<le> max_filepos v \<and> below v (max_filepos v + int len) \<and>
     holds content v (min_filepos v) (max_filepos v + int len) \<and>
     p = nat (max_filepos v - c_offset v) \<and> int len \<le> buffer_size v \<and>
     max_filepos v + int len - buffer_size v \<le> min_filepos v"

lemma planned:
  assumes v: "filled v" and rd: "min_filepos v \<le> rd" and f: "fill_room rd v = Some (v', p, space, wrap)"
  shows "\<exists>m. v' = v\<lparr>min_filepos := m\<rparr> \<and> m \<le> rd \<and> min_filepos v \<le> m \<and> storing p space wrap v'"
proof -
  from fill_room_ok [OF filledD(1) [OF v] rd f] obtain m where
    m: "v' = v\<lparr>min_filepos := m\<rparr>" "min_filepos v \<le> m" "m \<le> rd"
      "max_filepos v + int space - buffer_size v \<le> m" "p = nat (max_filepos v - c_offset v)"
      "0 < space" "int space \<le> buffer_size v" "\<not> wrap \<longrightarrow> p + space \<le> nat (buffer_size v)"
    by (elim exE conjE) (rule that)
  then show ?thesis using filled_min [OF v m(2)] by (intro exI [of _ m]) (simp add: storing_def)
qed

lemma fill_store_ok:
  assumes s: "storing p space wrap v"
  shows "\<exists>v' len. fill_store ops p space wrap v = Some (v', len) \<and> stored p len v' \<and>
    (\<exists>st buf e. v' = v\<lparr>c_stream := st, c_buffer := buf, c_eof := e\<rparr> \<and> (e \<longleftrightarrow> len = 0)) \<and>
    (len = 0 \<longrightarrow> length content \<le> nat (max_filepos v))"
proof -
  let ?st = "c_stream v" and ?n = "buffer_size v"
  have v: "filled v" and g: "geometry v" and b: "at ?st" "pos ?st = max_filepos v"
    and h: "holds content v (min_filepos v) (max_filepos v)"
    using s by (simp_all add: storing_def filled_def below_def)
  have p: "p = nat (max_filepos v - c_offset v)" "0 < space" "int space \<le> ?n"
    "max_filepos v + int space - ?n \<le> min_filepos v" "\<not> wrap \<longrightarrow> p + space \<le> nat ?n"
    using s unfolding storing_def by blast+
  have g': "0 < ?n" "length (c_buffer v) = nat ?n" "0 \<le> max_filepos v" "p < nat ?n"
    using g filled_max [OF v] p(1) by (simp_all add: geometry_def)
  from read_internal [OF b(1) p(2)] obtain bs d where
    r: "stream_read_internal ops space ?st =
          Some (bs, ?st\<lparr>eof := (bs = []), dev := d, pos := max_filepos v + int (length bs)\<rparr>)"
      "length bs \<le> space" "bs = take (length bs) (drop (nat (max_filepos v)) content)"
      "at (?st\<lparr>dev := d, pos := max_filepos v + int (length bs)\<rparr>)"
      "bs = [] \<longrightarrow> length content \<le> nat (max_filepos v)"
    unfolding b(2) by (elim exE conjE) (rule that)
  define st where "st = (let st = ?st\<lparr>eof := (bs = []), dev := d, pos := max_filepos v + int (length bs)\<rparr>
     in if wrap then st\<lparr>buffer := store_at (buffer st) 0 bs\<rparr> else st)"
  define buf where "buf = store_ring (c_buffer v) p bs"
  define v' where "v' = v\<lparr>c_stream := st, c_buffer := buf, c_eof := (bs = [])\<rparr>"
  have len: "length bs \<le> nat ?n" "int (length bs) \<le> ?n" using r(2) p(3) by simp_all
  have "buf = (if wrap then store_at (store_at (c_buffer v) p (take (min (length bs) (nat ?n - p)) bs)) 0
                              (drop (min (length bs) (nat ?n - p)) bs) else store_at (c_buffer v) p bs)"
  proof (cases wrap)
    case True
    then show ?thesis by (simp add: buf_def store_ring_def Let_def g'(2))
  next
    case False
    then have "p + length bs \<le> length (c_buffer v)" using p(5) r(2) g'(2) by simp
    then show ?thesis using store_ring_straight False by (simp add: buf_def)
  qed
  then have f: "fill_store ops p space wrap v = Some (v', length bs)"
    by (simp add: fill_store_def r(1) v'_def st_def Let_def)
  have "at st" "pos st = max_filepos v + int (length bs)"
    using r(4) by (simp_all add: st_def Let_def)
  moreover have "holds content v' (min_filepos v) (max_filepos v + int (length bs))"
    by (rule store_holds [OF g h r(3)]) (use p(1,4) r(2) len(2) g'(3) in \<open>simp_all add: v'_def buf_def\<close>)
  moreover have "geometry v'" using g length_store_ring [of p "c_buffer v" bs] len(1) g'(2,4)
    by (simp add: geometry_def v'_def buf_def)
  ultimately have "stored p (length bs) v'"
    using p(1,4) r(2) len(2) g'(3) by (simp add: stored_def below_def v'_def)
  then show ?thesis using f r(5) unfolding v'_def by (intro exI conjI impI) (auto intro: exI)
qed

lemma fill_publish_ok:
  assumes s: "stored p len v"
  shows "filled (fill_publish p len v)"
    "\<And>x. slot (fill_publish p len v) x = slot v x"
proof -
  show slot: "slot (fill_publish p len v) x = slot v x" for x
  proof -
    have "(x - (c_offset v + buffer_size v)) mod buffer_size v = (x - c_offset v) mod buffer_size v"
      using minus_mod_self2 [of "x - c_offset v" "buffer_size v"] by (simp only: diff_diff_eq)
    then show ?thesis by (simp add: slot_def fill_publish_def)
  qed
  have g: "geometry v" "p = nat (max_filepos v - c_offset v)" "int len \<le> buffer_size v"
    "max_filepos v + int len - buffer_size v \<le> min_filepos v" using s by (simp_all add: stored_def)
  have "geometry (fill_publish p len v)"
    using g by (auto simp: geometry_def fill_publish_def)
  then show "filled (fill_publish p len v)"
    using s slot by (simp add: filled_def stored_def holds_def below_def fill_publish_def)
qed

end

section \<open>Runs of the two threads\<close>

text \<open>
  The events under which the ring is safe: no seek between the filler's look at the reader's position
  and its flush.
\<close>

fun calm :: "event \<Rightarrow> 'd cache_state \<Rightarrow> bool" where
  "calm (Seek_to q) s \<longleftrightarrow> 0 \<le> q \<and> (case fill_pc s of F_sampled rd \<Rightarrow> False | _ \<Rightarrow> True)"
| "calm _ s \<longleftrightarrow> True"

fun calm_run :: "'d stream_ops \<Rightarrow> event list \<Rightarrow> 'd cache_state \<Rightarrow> bool" where
  "calm_run ops [] s \<longleftrightarrow> True"
| "calm_run ops (e # es) s \<longleftrightarrow>
     calm e s \<and> (case cache_step ops e s of None \<Rightarrow> True | Some (s, d) \<Rightarrow> calm_run ops es s)"

fun is_seek :: "event \<Rightarrow> bool" where
  "is_seek (Seek_to q) \<longleftrightarrow> True"
| "is_seek _ \<longleftrightarrow> False"

lemma sdiv_mult_bounds:
  fixes q c :: int
  assumes "0 \<le> q" and "0 < c"
  shows "0 \<le> (q sdiv c) * c" "(q sdiv c) * c \<le> q" "q < (q sdiv c) * c + c"
proof -
  have e: "q sdiv c = q div c" using assms by (simp add: signed_divide_int_def sgn_if)
  show "0 \<le> (q sdiv c) * c" unfolding e using assms pos_imp_zdiv_nonneg_iff [of c q] by simp
  show "(q sdiv c) * c \<le> q" "q < (q sdiv c) * c + c"
    unfolding e using div_mult_mod_eq [of q c] pos_mod_bound [OF assms(2), of q]
      pos_mod_sign [OF assms(2), of q] by linarith+
qed

context cached_source
begin

text \<open>What holds between any two steps.\<close>

definition copying :: "nat \<Rightarrow> nat \<Rightarrow> 'a cache_vars \<Rightarrow> bool" where
  "copying p n v \<longleftrightarrow>
     min_filepos v \<le> read_filepos v \<and> read_filepos v + int n \<le> max_filepos v \<and>
     p = slot v (read_filepos v) \<and> p + n \<le> nat (buffer_size v)"

definition sampled :: "int \<Rightarrow> 'a cache_vars \<Rightarrow> bool" where
  "sampled rd v \<longleftrightarrow> rd = read_filepos v \<or>
     min_filepos v \<le> rd \<and> rd \<le> read_filepos v \<and> read_filepos v \<le> max_filepos v"

definition filler_ok :: "filler \<Rightarrow> 'a cache_vars \<Rightarrow> bool" where
  "filler_ok f v = (case f of
      F_idle \<Rightarrow> filled v
    | F_sampled rd \<Rightarrow> filled v \<and> sampled rd v
    | F_store p space wrap \<Rightarrow> storing p space wrap v
    | F_publish p len \<Rightarrow> stored p len v)"

definition reader_ok :: "reader \<Rightarrow> 'a cache_vars \<Rightarrow> bool" where
  "reader_ok r v = (case r of R_idle \<Rightarrow> True | R_copy p n \<Rightarrow> copying p n v)"

definition sound :: "'a cache_state \<Rightarrow> bool" where
  "sound s \<longleftrightarrow> filler_ok (fill_pc s) (cvars s) \<and> reader_ok (read_pc s) (cvars s)"

lemma filler_ok_holds:
  assumes "filler_ok f v"
  shows "geometry v" "holds content v (min_filepos v) (max_filepos v)"
  using assms
  by (auto simp: filler_ok_def filled_def storing_def stored_def holds_def split: filler.splits)

text \<open>The reader's own steps leave the filler's knowledge alone.\<close>

lemma filler_ok_read:
  assumes f: "filler_ok f v" and r: "read_filepos v \<le> r" "r \<le> max_filepos v" "min_filepos v \<le> read_filepos v"
  shows "filler_ok f (v\<lparr>read_filepos := r\<rparr>)"
proof -
  have "0 \<le> read_filepos v" using filler_ok_holds(1) [OF f] by (simp add: geometry_def)
  moreover from this have "0 \<le> r" using r(1) by simp
  ultimately show ?thesis using f r
    by (auto simp: filler_ok_def sampled_def storing_def stored_def geometry_def below_def holds_def
        slot_def split: filler.splits)
qed

lemma filler_ok_seek:
  assumes f: "filler_ok f v" and "0 \<le> r" and "case f of F_sampled rd \<Rightarrow> False | _ \<Rightarrow> True"
  shows "filler_ok f (v\<lparr>read_filepos := r, c_eof := e\<rparr>)"
proof -
  have "0 \<le> read_filepos v" using filler_ok_holds(1) [OF f] by (simp add: geometry_def)
  then show ?thesis using assms
    by (auto simp: filler_ok_def storing_def stored_def geometry_def below_def holds_def filled_def
        slot_def split: filler.splits)
qed

lemma filler_ok_eof: "filler_ok f (v\<lparr>c_eof := e\<rparr>) = filler_ok f v"
  by (simp add: filler_ok_def sampled_def storing_def stored_def geometry_def below_def holds_def
        slot_def split: filler.splits)

lemma read_check_copying: "geometry v \<Longrightarrow> read_check sz v = Copy p n \<Longrightarrow> copying p n v"
  using read_check_copy [of v sz p n] by (simp add: copying_def)

lemma step_sample: "sound s \<Longrightarrow> cache_step ops Sample s = Some (s', d) \<Longrightarrow> sound s' \<and> d = None"
  by (auto simp: sound_def filler_ok_def sampled_def split: if_splits)

lemma step_plan:
  assumes s: "sound s" and st: "cache_step ops Plan s = Some (s', d)"
  shows "sound s' \<and> d = None \<and> read_filepos (cvars s') = read_filepos (cvars s)"
proof -
  from st obtain rd where pc: "fill_pc s = F_sampled rd" by (auto split: filler.splits)
  let ?v = "cvars s"
  define v where "v = fill_seek ops rd ?v"
  have v: "filled ?v" "rd = read_filepos ?v \<or>
      min_filepos ?v \<le> rd \<and> rd \<le> read_filepos ?v \<and> read_filepos ?v \<le> max_filepos ?v"
    using s pc by (simp_all add: sound_def filler_ok_def sampled_def)
  note fs = fill_seek_ok [OF v, folded v_def]
  have rd: "reader_ok (read_pc s) v"
  proof (cases "read_pc s")
    case (R_copy p n)
    then have "copying p n ?v" using s by (simp add: sound_def reader_ok_def)
    then have "v = ?v" using fs(5) by (simp add: copying_def)
    then show ?thesis using s by (simp add: sound_def)
  qed (simp add: reader_ok_def)
  show ?thesis
  proof (cases "fill_room rd v")
    case None
    then have "s' = s\<lparr>cvars := v, fill_pc := F_idle\<rparr>" "d = None"
      using st pc by (simp_all add: v_def [symmetric] Let_def)
    then show ?thesis using fs(1,2) rd by (simp add: sound_def filler_ok_def)
  next
    case (Some x)
    obtain v' p space wrap where x: "x = (v', p, space, wrap)" by (metis prod_cases4)
    from planned [OF fs(1,3) Some [unfolded x]] obtain m where
      m: "v' = v\<lparr>min_filepos := m\<rparr>" "m \<le> rd" "storing p space wrap v'" by blast
    have "s' = s\<lparr>cvars := v', fill_pc := F_store p space wrap\<rparr>" "d = None"
      using st pc Some x by (simp_all add: v_def [symmetric] Let_def)
    moreover have "reader_ok (read_pc s) v'"
      using rd m(1,2) fs(2,4) by (auto simp: reader_ok_def copying_def slot_def split: reader.splits)
    ultimately show ?thesis using m(1,3) fs(2) by (simp add: sound_def filler_ok_def)
  qed
qed

lemma step_store:
  assumes s: "sound s" and st: "cache_step ops Store s = Some (s', d)"
  shows "sound s' \<and> d = None \<and> read_filepos (cvars s') = read_filepos (cvars s)"
proof -
  from st obtain p space wrap where pc: "fill_pc s = F_store p space wrap" by (auto split: filler.splits)
  then have "storing p space wrap (cvars s)" using s by (simp add: sound_def filler_ok_def)
  from fill_store_ok [OF this] obtain v len sm buf e where
    f: "fill_store ops p space wrap (cvars s) = Some (v, len)" "stored p len v"
      "v = (cvars s)\<lparr>c_stream := sm, c_buffer := buf, c_eof := e\<rparr>" by blast
  have "s' = s\<lparr>cvars := v, fill_pc := F_publish p len\<rparr>" "d = None" using st pc f(1) by simp_all
  moreover have "reader_ok (read_pc s) v"
    using s f(3) by (auto simp: sound_def reader_ok_def copying_def slot_def split: reader.splits)
  ultimately show ?thesis using f(2,3) by (simp add: sound_def filler_ok_def)
qed

lemma step_publish:
  assumes s: "sound s" and st: "cache_step ops Publish s = Some (s', d)"
  shows "sound s' \<and> d = None \<and> read_filepos (cvars s') = read_filepos (cvars s)"
proof -
  from st obtain p len where pc: "fill_pc s = F_publish p len" by (auto split: filler.splits)
  then have "stored p len (cvars s)" using s by (simp add: sound_def filler_ok_def)
  note f = fill_publish_ok [OF this]
  have e: "s' = s\<lparr>cvars := fill_publish p len (cvars s), fill_pc := F_idle\<rparr>" "d = None"
    using st pc by simp_all
  have "reader_ok (read_pc s) (fill_publish p len (cvars s))"
    using s f(2) by (auto simp: sound_def reader_ok_def copying_def fill_publish_def split: reader.splits)
  then show ?thesis using f(1) e by (simp add: sound_def filler_ok_def fill_publish_def)
qed

lemma step_check:
  assumes s: "sound s" and st: "cache_step ops (Check sz) s = Some (s', d)"
  shows "sound s' \<and> d = None \<and> read_filepos (cvars s') = read_filepos (cvars s)"
proof -
  have g: "geometry (cvars s)" using s filler_ok_holds(1) by (auto simp: sound_def)
  have "d = None" "cvars s' = cvars s" "fill_pc s' = fill_pc s"
    using st by (auto split: if_splits read_turn.splits)
  moreover have "reader_ok (read_pc s') (cvars s)"
    using st s read_check_copying [OF g]
    by (auto simp: reader_ok_def sound_def split: if_splits read_turn.splits reader.splits)
  ultimately show ?thesis using s by (simp add: sound_def)
qed

lemma step_deliver:
  assumes s: "sound s" and st: "cache_step ops Deliver s = Some (s', d)"
  shows "\<exists>bs. sound s' \<and> d = Some (read_filepos (cvars s), bs) \<and>
      bs = take (length bs) (drop (nat (read_filepos (cvars s))) content) \<and>
      read_filepos (cvars s') = read_filepos (cvars s) + int (length bs)"
proof -
  from st obtain p n where pc: "read_pc s = R_copy p n" by (auto split: reader.splits)
  let ?v = "cvars s"
  have f: "filler_ok (fill_pc s) ?v" and c: "copying p n ?v"
    using s pc by (simp_all add: sound_def reader_ok_def)
  have c': "min_filepos ?v \<le> read_filepos ?v" "read_filepos ?v + int n \<le> max_filepos ?v"
    "p = slot ?v (read_filepos ?v)" "p + n \<le> nat (buffer_size ?v)" using c by (simp_all add: copying_def)
  define bs where "bs = take n (drop p (c_buffer ?v))"
  note bs = copied_content [OF filler_ok_holds [OF f] c', folded bs_def]
  have "s' = s\<lparr>cvars := ?v\<lparr>read_filepos := read_filepos ?v + int n\<rparr>, read_pc := R_idle\<rparr>"
    "d = Some (read_filepos ?v, bs)"
    using st pc by (simp_all add: read_copy_def bs_def)
  moreover have "filler_ok (fill_pc s) (?v\<lparr>read_filepos := read_filepos ?v + int n\<rparr>)"
    by (rule filler_ok_read [OF f]) (use c' in simp_all)
  moreover have "bs = take (length bs) (drop (nat (read_filepos ?v)) content)" using bs by simp
  ultimately show ?thesis using bs(2) by (intro exI [of _ bs]) (simp add: sound_def reader_ok_def)
qed

lemma step_ok:
  assumes s: "sound s" and c: "calm e s" and st: "cache_step ops e s = Some (s', d)"
  shows "sound s'"
    "\<And>q bs. d = Some (q, bs) \<Longrightarrow> q = read_filepos (cvars s) \<and> bs = take (length bs) (drop (nat q) content)"
    "\<not> is_seek e \<Longrightarrow> read_filepos (cvars s') = read_filepos (cvars s) +
       (case d of None \<Rightarrow> 0 | Some (q, bs) \<Rightarrow> int (length bs))"
proof -
  have "sound s' \<and>
    (\<forall>q bs. d = Some (q, bs) \<longrightarrow> q = read_filepos (cvars s) \<and> bs = take (length bs) (drop (nat q) content)) \<and>
    (\<not> is_seek e \<longrightarrow> read_filepos (cvars s') = read_filepos (cvars s) +
       (case d of None \<Rightarrow> 0 | Some (q, bs) \<Rightarrow> int (length bs)))"
  proof (cases e)
    case Sample
    then show ?thesis using step_sample [OF s] st by (fastforce split: if_splits)
  next
    case Plan
    then show ?thesis using step_plan [OF s] st by auto
  next
    case Store
    then show ?thesis using step_store [OF s] st by auto
  next
    case Publish
    then show ?thesis using step_publish [OF s] st by auto
  next
    case (Check sz)
    then show ?thesis using step_check [OF s st [unfolded Check]] by simp
  next
    case Deliver
    from step_deliver [OF s st [unfolded Deliver]] show ?thesis by auto
  next
    case Interrupt
    then show ?thesis using st s by (auto simp: sound_def filler_ok_eof reader_ok_def split: if_splits)
  next
    case (Seek_to q)
    have g: "0 < c_sector (cvars s)"
      using filler_ok_holds(1) [of "fill_pc s" "cvars s"] s by (simp add: sound_def geometry_def)
    have "0 \<le> (q sdiv c_sector (cvars s)) * c_sector (cvars s)"
      using sdiv_mult_bounds(1) g c Seek_to by simp
    then show ?thesis using st s c Seek_to filler_ok_seek
      by (auto simp: sound_def cache_seek_def reader_ok_def split: if_splits)
  qed
  then show "sound s'"
    "\<And>q bs. d = Some (q, bs) \<Longrightarrow> q = read_filepos (cvars s) \<and> bs = take (length bs) (drop (nat q) content)"
    "\<not> is_seek e \<Longrightarrow> read_filepos (cvars s') = read_filepos (cvars s) +
       (case d of None \<Rightarrow> 0 | Some (q, bs) \<Rightarrow> int (length bs))" by blast+
qed

lemma run_ok:
  assumes "sound s" and "calm_run ops es s" and "cache_run ops es s = Some (s', ds)"
  shows "sound s' \<and> (\<forall>(q, bs) \<in> set ds. bs = take (length bs) (drop (nat q) content))"
  using assms
proof (induction es arbitrary: s ds)
  case (Cons e es)
  from Cons.prems(3) obtain s1 d ds1 where 1: "cache_step ops e s = Some (s1, d)"
    "cache_run ops es s1 = Some (s', ds1)" "ds = (case d of None \<Rightarrow> ds1 | Some x \<Rightarrow> x # ds1)"
    by (auto split: bind_splits prod.splits)
  have c: "calm e s" "calm_run ops es s1" using Cons.prems(2) 1(1) by simp_all
  note st = step_ok [OF Cons.prems(1) c(1) 1(1)]
  from Cons.IH [OF st(1) c(2) 1(2)] show ?case using st(2) 1(3) by (cases d) fastforce+
qed simp

text \<open>Without seeks the chunks follow each other.\<close>

lemma run_in_order:
  assumes "sound s" and "calm_run ops es s" and "cache_run ops es s = Some (s', ds)"
    and "list_all (\<lambda>e. \<not> is_seek e) es"
  shows "concat (map snd ds) =
      take (length (concat (map snd ds))) (drop (nat (read_filepos (cvars s))) content)"
  using assms
proof (induction es arbitrary: s ds)
  case (Cons e es)
  from Cons.prems(3) obtain s1 d ds1 where 1: "cache_step ops e s = Some (s1, d)"
    "cache_run ops es s1 = Some (s', ds1)" "ds = (case d of None \<Rightarrow> ds1 | Some x \<Rightarrow> x # ds1)"
    by (auto split: bind_splits prod.splits)
  have c: "calm e s" "calm_run ops es s1" using Cons.prems(2) 1(1) by simp_all
  note st = step_ok [OF Cons.prems(1) c(1) 1(1)]
  have ns: "\<not> is_seek e" "list_all (\<lambda>e. \<not> is_seek e) es" using Cons.prems(4) by simp_all
  note IH = Cons.IH [OF st(1) c(2) 1(2) ns(2)]
  have r0: "0 \<le> read_filepos (cvars s)"
    using filler_ok_holds(1) Cons.prems(1) by (auto simp: sound_def geometry_def)
  show ?case
  proof (cases d)
    case None
    then show ?thesis using IH st(3) [OF ns(1)] 1(3) by simp
  next
    case (Some x)
    obtain q bs where x: "x = (q, bs)" by force
    have q: "q = read_filepos (cvars s)" and bs: "bs = take (length bs) (drop (nat q) content)"
      using st(2) Some x by blast+
    have "nat (read_filepos (cvars s1)) = nat (read_filepos (cvars s)) + length bs"
      using st(3) [OF ns(1)] Some x r0 by (simp add: nat_add_distrib)
    then have "take (length bs + length (concat (map snd ds1))) (drop (nat q) content) =
        bs @ concat (map snd ds1)"
      using IH bs q by (simp add: take_split)
    then show ?thesis using Some x 1(3) q by simp
  qed
qed simp

end

section \<open>The reader with a filler that gets its turns\<close>

definition gap :: "'d cache_vars \<Rightarrow> nat" where
  "gap v = (if read_filepos v < min_filepos v then 1 else nat (read_filepos v - max_filepos v + 1))"

lemma take_length_take: "take (length (take n xs)) xs = take n xs"
  by (simp add: min_def)

context cached_source
begin

text \<open>Between two calls; an end of file is one of the content.\<close>

definition idle :: "'a cache_vars \<Rightarrow> bool" where
  "idle v \<longleftrightarrow> filled v \<and> back_size v \<le> buffer_size v div 2 \<and>
     (c_eof v \<longrightarrow> length content \<le> nat (max_filepos v) \<and> min_filepos v \<le> read_filepos v)"

lemma cache_fill_waiting:
  assumes v: "idle v" and w: "read_check sz v = Wait"
  shows "\<exists>k v'. cache_fill ops v = Some (k, v') \<and> idle v' \<and> read_filepos v' = read_filepos v \<and>
    c_sector v' = c_sector v \<and> (c_eof v' \<or> gap v' < gap v)"
proof -
  define rd where "rd = read_filepos v"
  define u where "u = fill_seek ops rd v"
  have f: "filled v" and bk: "back_size v \<le> buffer_size v div 2" using v by (simp_all add: idle_def)
  have out: "read_filepos v \<ge> max_filepos v \<or> read_filepos v < min_filepos v"
    using w by (auto simp: read_check_def Let_def split: if_splits)
  note fs = fill_seek_ok [OF f disjI1, of rd, folded u_def, OF rd_def]
  have max: "max_filepos u \<le> rd" using fs(3,6) out by (auto simp: rd_def)
  have "fill_room rd u \<noteq> None"
    by (rule fill_room_waiting [OF filledD(1) [OF fs(1)] _ max]) (simp add: fs(8,9) bk)
  then obtain v1 p space wrap where room: "fill_room rd u = Some (v1, p, space, wrap)" by auto
  from planned [OF fs(1,3) room] obtain m where
    v1: "v1 = u\<lparr>min_filepos := m\<rparr>" "m \<le> rd" "storing p space wrap v1" by blast
  from fill_store_ok [OF v1(3)] obtain v2 len st buf e where
    v2: "fill_store ops p space wrap v1 = Some (v2, len)" "stored p len v2"
      "v2 = v1\<lparr>c_stream := st, c_buffer := buf, c_eof := e\<rparr>" "e \<longleftrightarrow> len = 0"
      "len = 0 \<longrightarrow> length content \<le> nat (max_filepos v1)" by blast
  define v' where "v' = fill_publish p len v2"
  have fill: "cache_fill ops v = Some (len, v')"
    by (simp add: cache_fill_def rd_def [symmetric] u_def [symmetric] room v2(1) v'_def Let_def)
  have sect: "c_sector u = c_sector v" by (simp add: u_def fill_seek_def cache_flush_def Let_def)
  have fields: "read_filepos v' = rd" "min_filepos v' = m" "max_filepos v' = max_filepos u + int len"
    "c_eof v' = (len = 0)" "back_size v' = back_size v" "buffer_size v' = buffer_size v" "c_sector v' = c_sector v"
    using v1(1) v2(3,4) fs(2,8,9) sect by (simp_all add: v'_def fill_publish_def rd_def)
  have "idle v'"
    using fill_publish_ok(1) [OF v2(2), folded v'_def] bk v2(5) v1(1,2) fields by (auto simp: idle_def)
  moreover have "c_eof v' \<or> gap v' < gap v"
  proof (cases "len = 0")
    case False
    show ?thesis
    proof (cases "u = v")
      case True
      then have "\<not> read_filepos v < min_filepos v" using fs(3) by (simp add: rd_def)
      then show ?thesis using out False v1(2) fields True by (auto simp: gap_def rd_def)
    next
      case flush: False
      then have "max_filepos u = rd" using fs(6) by simp
      then have "gap v' = 0" using False v1(2) fields by (simp add: gap_def)
      moreover have "0 < gap v" using out by (auto simp: gap_def)
      ultimately show ?thesis by simp
    qed
  qed (simp add: fields)
  ultimately show ?thesis using fill fields by (auto simp: rd_def)
qed

lemma idle_read:
  assumes v: "idle v" and r: "read_filepos v \<le> r" "r \<le> max_filepos v" "min_filepos v \<le> read_filepos v"
  shows "idle (v\<lparr>read_filepos := r\<rparr>)"
  using filler_ok_read [of F_idle v r] v r by (auto simp: idle_def filler_ok_def)

lemma cache_read_ok:
  assumes "idle v"
  shows "\<exists>v'. cache_read ops sz v = Some (take sz (drop (nat (read_filepos v)) content), v') \<and> idle v' \<and>
    c_sector v' = c_sector v \<and>
    read_filepos v' = read_filepos v + int (length (take sz (drop (nat (read_filepos v)) content)))"
  using assms
proof (induction "(sz, if c_eof v then 0 else Suc (gap v))" arbitrary: sz v
    rule: wf_induct_rule [OF wf_lex_prod [OF wf_less_than wf_less_than]])
  case (1 sz v)
  have f: "filled v" and g: "geometry v" using 1(2) by (simp_all add: idle_def filled_def)
  have r0: "0 \<le> read_filepos v" using g by (simp add: geometry_def)
  show ?case
  proof (cases "read_check sz v")
    case At_eof
    then have "c_eof v" "max_filepos v \<le> read_filepos v \<or> read_filepos v < min_filepos v"
      by (auto simp: read_check_def Let_def split: if_splits)
    then have "length content \<le> nat (read_filepos v)" using 1(2) by (auto simp: idle_def)
    then show ?thesis using At_eof 1(2) by (subst cache_read.simps) simp
  next
    case Wait
    show ?thesis
    proof (cases "sz = 0")
      case False
      have ne: "\<not> c_eof v" using Wait by (auto simp: read_check_def Let_def split: if_splits)
      from cache_fill_waiting [OF 1(2) Wait] obtain k v1 where
        v1: "cache_fill ops v = Some (k, v1)" "idle v1" "read_filepos v1 = read_filepos v"
          "c_sector v1 = c_sector v" "c_eof v1 \<or> gap v1 < gap v" by blast
      have "((sz, if c_eof v1 then 0 else Suc (gap v1)), (sz, if c_eof v then 0 else Suc (gap v)))
          \<in> less_than <*lex*> less_than"
        using v1(5) ne by auto
      from 1(1) [OF this v1(2)] show ?thesis using Wait False v1(1,3,4)
        by (subst cache_read.simps) simp
    qed (use 1(2) in \<open>subst cache_read.simps, simp\<close>)
  next
    case (Copy p n)
    show ?thesis
    proof (cases "sz = 0")
      case False
      note c = read_check_copy [OF g Copy]
      define v1 where "v1 = v\<lparr>read_filepos := read_filepos v + int n\<rparr>"
      define bs where "bs = take n (drop p (c_buffer v))"
      note bs = copied_content [OF g filledD(2) [OF f] c(1-4), folded bs_def]
      have v1: "idle v1" unfolding v1_def by (rule idle_read [OF 1(2)]) (use c in simp_all)
      have lt: "sz - n < sz" using c(6) False by simp
      then have "((sz - n, if c_eof v1 then 0 else Suc (gap v1)), (sz, if c_eof v then 0 else Suc (gap v)))
          \<in> less_than <*lex*> less_than" by simp
      from 1(1) [OF this v1] obtain v' where
        r: "cache_read ops (sz - n) v1 = Some (take (sz - n) (drop (nat (read_filepos v1)) content), v')"
          "idle v'" "c_sector v' = c_sector v1"
          "read_filepos v' = read_filepos v1 + int (length (take (sz - n) (drop (nat (read_filepos v1)) content)))"
        by blast
      have n: "nat (read_filepos v1) = nat (read_filepos v) + n" using r0 by (simp add: v1_def nat_add_distrib)
      have "sz = n + (sz - n)" using c(5) by simp
      then have all: "take sz (drop (nat (read_filepos v)) content) =
          bs @ take (sz - n) (drop (nat (read_filepos v1)) content)"
        using bs(1) unfolding n by (metis take_split)
      have "cache_read ops sz v = Some (take sz (drop (nat (read_filepos v)) content), v')"
        using Copy False r(1) unfolding all
        by (subst cache_read.simps) (simp add: read_copy_def bs_def [symmetric] v1_def [symmetric])
      then show ?thesis using r(2-4) bs(2) unfolding all by (simp add: v1_def)
    qed (use 1(2) in \<open>subst cache_read.simps, simp\<close>)
  qed
qed

text \<open>A seek of the reader, and the buffer it leaves.\<close>

lemma cache_seek_idle:
  assumes v: "idle v" and q: "0 \<le> q"
  shows "idle (cache_seek q v)"
proof -
  have "0 < c_sector v" using v by (simp add: idle_def filled_def geometry_def)
  from sdiv_mult_bounds(1) [OF q this] show ?thesis
    using filler_ok_seek [of F_idle v _ False] v by (simp add: idle_def filler_ok_def cache_seek_def)
qed

lemma fill_from_cache:
  assumes v: "idle v" and p: "pos st = read_filepos v" and sec: "c_sector v \<le> int STREAM_MAX_SECTOR_SIZE"
  shows "\<exists>st' v'. cache_stream_fill_buffer ops st v =
      Some (length (take (nat (c_sector v)) (drop (nat (pos st)) content)), st', v') \<and> idle v' \<and>
    c_sector v' = c_sector v \<and> pos st' = read_filepos v' \<and> buffered content st' \<and> buf_pos st' = 0 \<and>
    buf_len st' = length (take (nat (c_sector v)) (drop (nat (pos st)) content)) \<and>
    pos st' = pos st + int (buf_len st')"
proof -
  define bs where "bs = take (nat (c_sector v)) (drop (nat (pos st)) content)"
  from cache_read_ok [OF v, of "nat (c_sector v)"] obtain v' where
    r: "cache_read ops (nat (c_sector v)) v = Some (bs, v')" "idle v'" "c_sector v' = c_sector v"
      "read_filepos v' = read_filepos v + int (length bs)" unfolding bs_def p by blast
  have p0: "0 \<le> pos st" using v p by (simp add: idle_def filled_def geometry_def)
  define st' where "st' = (if bs = [] then st\<lparr>eof := True, buf_pos := 0, buf_len := 0\<rparr>
    else st\<lparr>eof := False, buffer := store_at (buffer st) 0 bs, buf_pos := 0, buf_len := length bs,
            pos := pos st + int (length bs)\<rparr>)"
  have "cache_stream_fill_buffer ops st v = Some (length bs, st', v')"
    using sec r(1) by (simp add: cache_stream_fill_buffer_def Let_def st'_def)
  moreover have "buffered content st'"
    using p0 take_store_at [of 0 "buffer st" bs] length_store_at [of 0 "buffer st" bs]
      take_length_take [of "nat (c_sector v)" "drop (nat (pos st)) content"]
    by (auto simp: st'_def buffered_def bs_def [symmetric])
  moreover have "buf_pos st' = 0" "buf_len st' = length bs" "pos st' = pos st + int (length bs)"
    by (simp_all add: st'_def)
  ultimately show ?thesis using r p unfolding bs_def [symmetric] by (intro exI [of _ st'] exI [of _ v']) simp
qed

lemma cached_seek:
  assumes v: "idle v" and sec: "c_sector v \<le> int STREAM_MAX_SECTOR_SIZE"
    and q: "0 \<le> q" "q \<le> int (length content)"
  shows "\<exists>st' v'. cache_stream_seek_long ops st v q = Some (1, st', v') \<and> idle v' \<and>
    c_sector v' = c_sector v \<and> pos st' = read_filepos v' \<and> buffered content st' \<and> stream_tell st' = q"
proof -
  define np where "np = (q sdiv c_sector v) * c_sector v"
  have s0: "0 < c_sector v" using v by (simp add: idle_def filled_def geometry_def)
  note np = sdiv_mult_bounds [OF q(1) s0, folded np_def]
  have w: "idle (cache_seek q v)" "read_filepos (cache_seek q v) = np" "c_sector (cache_seek q v) = c_sector v"
    using cache_seek_idle [OF v q(1)] by (simp_all add: cache_seek_def np_def)
  from fill_from_cache [OF w(1), of "st\<lparr>pos := np\<rparr>"] w sec obtain st1 v' where
    f: "cache_stream_fill_buffer ops (st\<lparr>pos := np\<rparr>) (cache_seek q v) =
          Some (length (take (nat (c_sector v)) (drop (nat np) content)), st1, v')" "idle v'"
      "c_sector v' = c_sector v" "pos st1 = read_filepos v'" "buffered content st1" "buf_pos st1 = 0"
      "buf_len st1 = length (take (nat (c_sector v)) (drop (nat np) content))"
      "pos st1 = np + int (buf_len st1)" by auto
  have "nat (q - np) \<le> length content - nat np" "nat (q - np) \<le> nat (c_sector v)"
    using np q(2) by (simp_all add: le_diff_conv2 flip: nat_add_distrib)
  then have "nat (q - np) \<le> buf_len st1" unfolding f(7) by simp
  then have le: "0 \<le> q - np" "q - np \<le> int (buf_len st1)" using np(2) by linarith+
  then have "cache_stream_seek_long ops st v q = Some (1, st1\<lparr>buf_pos := nat (q - np)\<rparr>, v')"
    using f(1) by (simp add: cache_stream_seek_long_def Let_def np_def [symmetric])
  moreover have "buffered content (st1\<lparr>buf_pos := nat (q - np)\<rparr>)"
    using f(5) le by (auto simp: buffered_def)
  moreover have "stream_tell (st1\<lparr>buf_pos := nat (q - np)\<rparr>) = q"
    using f(8) le by (simp add: stream_tell_def)
  ultimately show ?thesis using f(2-4) by (intro exI [of _ "st1\<lparr>buf_pos := nat (q - np)\<rparr>"] exI [of _ v']) simp
qed

end

text \<open>A file is such a source.\<close>

interpretation cached_file: cached_source file_ops content "file_at STREAMTYPE_FILE content" for content
  by unfold_locales (simp add: stream_reset_def file_ops_def file_at_def)

lemma enable_cache_idle:
  assumes "file_at STREAMTYPE_FILE content st" and "pos st = 0" and "0 \<le> sector_size st" and "0 \<le> chunk"
  shows "cached_file.idle content (fst (enable_cache st chunk sz lo sl))"
proof -
  let ?v = "fst (enable_cache st chunk sz lo sl)"
  define ss where "ss = (if sector_size st \<noteq> 0 then sector_size st else int STREAM_BUFFER_SIZE)"
  define num where "num = (if sz sdiv ss < 16 then 16 else sz sdiv ss)"
  have ss: "0 < ss" using assms(3) by (simp add: ss_def stream_consts)
  have num: "16 * ss \<le> num * ss" using ss by (intro mult_right_mono) (simp_all add: num_def)
  have f: "buffer_size ?v = num * ss" "c_sector ?v = ss" "back_size ?v = num * ss div 2"
    "fill_limit ?v = 8 * ss" "length (c_buffer ?v) = nat (num * ss)" "c_read_chunk ?v = chunk"
    "c_stream ?v = st" "c_eof ?v = False" "min_filepos ?v = 0" "max_filepos ?v = 0" "c_offset ?v = 0"
    "read_filepos ?v = 0"
    by (simp_all add: enable_cache_def cache_init_def Let_def ss_def num_def)
  have "geometry ?v" using ss num assms(4) by (simp add: geometry_def f)
  moreover have "cached_file.below content ?v 0"
    using assms(1,2) by (simp add: cached_file.below_def f)
  ultimately show ?thesis
    by (simp add: cached_file.idle_def cached_file.filled_def f holds_empty)
qed

end
