(* ===== verification/Cache_Props.thy ===== *)
theory Cache_Props
  imports Cache_Threads
begin

text \<open>
  The properties of the stream cache on a file, and the races its seeks run into.
\<close>

section \<open>Properties\<close>

text \<open>
  C4. Whatever way the steps of the filling thread and of the reader interleave, every chunk of bytes the
  cache of a file hands out is the file's content at the position the reader stands at, and without
  seeks the chunks put together are the file from its beginning. The runs are those in which the
  reader does not seek between the moment \<^verbatim>\<open>cache_fill\<close> reads \<^verbatim>\<open>read_filepos\<close> and the moment it flushes;
  interrupts may come at any time.
\<close>

theorem cache_delivers_content:
  assumes "file_at STREAMTYPE_FILE content st" and "pos st = 0" and "0 \<le> sector_size st" and "0 \<le> chunk"
    and "calm_run file_ops es (cache_start (fst (enable_cache st chunk sz lo sl)))"
    and "cache_run file_ops es (cache_start (fst (enable_cache st chunk sz lo sl))) = Some (s, ds)"
  shows "(\<forall>(q, bs) \<in> set ds. bs = take (length bs) (drop (nat q) content)) \<and>
    (list_all (\<lambda>e. \<not> is_seek e) es \<longrightarrow>
       concat (map snd ds) = take (length (concat (map snd ds))) content)"
proof -
  note idle = enable_cache_idle [OF assms(1-4), of sz lo sl]
  have sound: "cached_file.sound content (cache_start (fst (enable_cache st chunk sz lo sl)))"
    using idle by (simp add: cached_file.sound_def cached_file.filler_ok_def cached_file.reader_ok_def
        cached_file.idle_def cache_start_def)
  have "read_filepos (cvars (cache_start (fst (enable_cache st chunk sz lo sl)))) = 0"
    by (simp add: cache_start_def enable_cache_def cache_init_def Let_def)
  then show ?thesis
    using cached_file.run_ok [OF sound assms(5,6)] cached_file.run_in_order [OF sound assms(5,6)] by simp
qed

lemmas [code] = stream_read_internal.simps cache_read.simps

definition sample_disk :: os_file where
  "sample_disk = \<lparr>contents = map of_nat [0..<30], offset = 0, chunks = []\<rparr>"

text \<open>A file stream with one-byte sectors over it, and its cache of sixteen bytes.\<close>

definition sample_stream :: "os_file stream" where
  "sample_stream = \<lparr>st_type = STREAMTYPE_FILE, flags = 6, sector_size = 1, buf_pos = 0, buf_len = 0,
     pos = 0, start_pos = 0, end_pos = 30, eof = False, mode = STREAM_READ, buffer = replicate 16 0,
     dev = sample_disk\<rparr>"

definition sample_cache :: "os_file cache_vars" where
  "sample_cache = fst (enable_cache sample_stream 0 16 0 0)"

definition round_trip :: "event list" where
  "round_trip = [Sample, Plan, Store, Publish, Check 3, Sample, Plan, Deliver, Store, Check 9, Publish, Deliver]"

theorem cache_delivers_content_witness:
  "map_option snd (cache_run file_ops round_trip (cache_start sample_cache)) =
     Some [(0, [0, 1, 2]), (3, [3])] \<and>
   [0, 1, 2] = take 3 (contents sample_disk) \<and> [3] = take 1 (drop 3 (contents sample_disk)) \<and>
   [0, 1, 2, 3] = take 4 (contents sample_disk)"
proof -
  have run: "map_option snd (cache_run file_ops round_trip (cache_start sample_cache)) =
      Some [(0, [0, 1, 2]), (3, [3])]" by code_simp
  then obtain s where s: "cache_run file_ops round_trip (cache_start sample_cache) =
      Some (s, [(0, [0, 1, 2]), (3, [3])])" by auto
  have calm: "calm_run file_ops round_trip (cache_start sample_cache)" by code_simp
  have at: "file_at STREAMTYPE_FILE (contents sample_disk) sample_stream" "pos sample_stream = 0"
    "0 \<le> sector_size sample_stream"
    by (simp_all add: file_at_def sample_stream_def sample_disk_def)
  have "list_all (\<lambda>e. \<not> is_seek e) round_trip" by code_simp
  note r = cache_delivers_content [OF at order_refl calm [unfolded sample_cache_def] s [unfolded sample_cache_def]]
  have "[0, 1, 2] = take 3 (contents sample_disk)"
    using bspec [OF conjunct1 [OF r], of "(0, [0, 1, 2])"] by (simp add: numeral_3_eq_3)
  moreover have "[3] = take 1 (drop 3 (contents sample_disk))"
    using bspec [OF conjunct1 [OF r], of "(3, [3])"] by simp
  moreover have "[0, 1, 2, 3] = take 4 (contents sample_disk)"
    using mp [OF conjunct2 [OF r] \<open>list_all _ round_trip\<close>] by (simp add: numeral_eq_Suc)
  ultimately show ?thesis using run by blast
qed

text \<open>
  C24. A cached file is read as if it had no cache, when the filling thread gets a turn whenever the reader
  waits: reading the first bytes returns them, after a seek inside the file the reader's buffer holds
  the file's bytes and \<^verbatim>\<open>stream_tell\<close> is the position asked for, and refilling the buffer goes on from
  there and finds an end only at the end of the file. Every call returns.
\<close>

theorem cached_file_reads:
  assumes "file_at STREAMTYPE_FILE content st" and "pos st = 0" and "0 \<le> sector_size st" and "0 \<le> chunk"
    and "sector_size st \<le> int STREAM_MAX_SECTOR_SIZE" and "0 \<le> q" and "q \<le> int (length content)"
  shows "\<exists>v1 st1 v2 k st2 v3.
    cache_read file_ops n (fst (enable_cache st chunk sz lo sl)) = Some (take n content, v1) \<and>
    cache_stream_seek_long file_ops rst v1 q = Some (1, st1, v2) \<and>
    buffered content st1 \<and> stream_tell st1 = q \<and>
    cache_stream_fill_buffer file_ops st1 v2 = Some (k, st2, v3) \<and>
    buffered content st2 \<and> stream_tell st2 = pos st1 \<and> (k = 0 \<longleftrightarrow> int (length content) \<le> pos st1)"
proof -
  let ?v = "fst (enable_cache st chunk sz lo sl)"
  have v: "read_filepos ?v = 0" "c_sector ?v \<le> int STREAM_MAX_SECTOR_SIZE"
    using assms(5) by (simp_all add: enable_cache_def cache_init_def Let_def stream_consts)
  from cached_file.cache_read_ok [OF enable_cache_idle [OF assms(1-4)], of n sz lo sl] obtain v1 where
    1: "cache_read file_ops n ?v = Some (take n content, v1)" "cached_file.idle content v1"
      "c_sector v1 = c_sector ?v" by (auto simp: v(1))
  from cached_file.cached_seek [OF 1(2) _ assms(6,7), of rst] v(2) 1(3) obtain st1 v2 where
    2: "cache_stream_seek_long file_ops rst v1 q = Some (1, st1, v2)" "cached_file.idle content v2"
      "c_sector v2 = c_sector v1" "pos st1 = read_filepos v2" "buffered content st1" "stream_tell st1 = q" by auto
  from cached_file.fill_from_cache [OF 2(2,4)] v(2) 1(3) 2(3) obtain st2 v3 where
    3: "cache_stream_fill_buffer file_ops st1 v2 =
          Some (length (take (nat (c_sector v2)) (drop (nat (pos st1)) content)), st2, v3)"
      "buffered content st2" "buf_pos st2 = 0" "pos st2 = pos st1 + int (buf_len st2)" by auto
  have s: "0 < c_sector v2" "0 \<le> pos st1"
    using 2(2,4) by (simp_all add: cached_file.idle_def cached_file.filled_def geometry_def)
  have "length (take (nat (c_sector v2)) (drop (nat (pos st1)) content)) = 0 \<longleftrightarrow>
      length content \<le> nat (pos st1)" using s(1) by (auto simp: min_def)
  also have "\<dots> \<longleftrightarrow> int (length content) \<le> pos st1" by (rule le_nat_iff [OF s(2)])
  finally have "length (take (nat (c_sector v2)) (drop (nat (pos st1)) content)) = 0 \<longleftrightarrow>
      int (length content) \<le> pos st1" .
  moreover have "stream_tell st2 = pos st1" using 3(3,4) by (simp add: stream_tell_def)
  ultimately show ?thesis using 1(1) 2(1,5,6) 3(1,2) by blast
qed

theorem cached_file_reads_witness:
  "\<exists>v1 st1 v2. cache_read file_ops 20 sample_cache = Some (map of_nat [0..<20], v1) \<and>
    cache_stream_seek_long file_ops sample_stream v1 2 = Some (1, st1, v2) \<and>
    buffered (contents sample_disk) st1 \<and> stream_tell st1 = 2"
proof -
  have at: "file_at STREAMTYPE_FILE (contents sample_disk) sample_stream" "pos sample_stream = 0"
    "0 \<le> sector_size sample_stream" "sector_size sample_stream \<le> int STREAM_MAX_SECTOR_SIZE"
    "2 \<le> int (length (contents sample_disk))"
    by (simp_all add: file_at_def sample_stream_def sample_disk_def stream_consts)
  have "take 20 (contents sample_disk) = map of_nat [0..<20]"
    by (simp add: sample_disk_def take_map)
  then show ?thesis
    using cached_file_reads [OF at(1-3) order_refl at(4) _ at(5), of 20 16 0 0 sample_stream]
    unfolding sample_cache_def by (auto simp del: take_map)
qed


end
