(* ===== verification/Config.thy ===== *)
theory Config
  imports C_String "HOL-Library.Monad_Syntax"
begin

text \<open>
  The option contexts of \<^verbatim>\<open>m_config.c\<close>: registration with alias detection, the stack of save
  slots, setting by name with suboptions and profiles. Save slots live in a heap, because an
  option that shares its variable with an earlier one also shares that option's slot pointer. An
  access to a freed slot is \<^term>\<open>None\<close>.

  The value of a variable is abstract. The parse function of an option type is a component of the
  option, as in the code; the save, set and copy functions of all types with a variable copy the
  value (\<^verbatim>\<open>copy_opt\<close>, \<^verbatim>\<open>copy_str\<close>).
\<close>

subsection \<open>Options\<close>

definition M_OPT_NOCFG :: c_int where "M_OPT_NOCFG = push_bit 2 1"
definition M_OPT_NOCMD :: c_int where "M_OPT_NOCMD = push_bit 3 1"
definition M_OPT_GLOBAL :: c_int where "M_OPT_GLOBAL = push_bit 4 1"
definition M_OPT_NOSAVE :: c_int where "M_OPT_NOSAVE = push_bit 5 1"
definition M_OPT_OLD :: c_int where "M_OPT_OLD = push_bit 6 1"
definition M_OPT_PRE_PARSE :: c_int where "M_OPT_PRE_PARSE = push_bit 7 1"

definition M_OPT_UNKNOWN :: int where "M_OPT_UNKNOWN = -1"
definition M_OPT_MISSING_PARAM :: int where "M_OPT_MISSING_PARAM = -2"
definition M_OPT_INVALID :: int where "M_OPT_INVALID = -3"
definition M_OPT_EXIT :: int where "M_OPT_EXIT = -6"

datatype parse_mode = M_CONFIG_FILE | M_COMMAND_LINE | M_COMMAND_LINE_PRE_PARSE

text \<open>
  A parser gets the name, the parameter and the mode, and the data of the destination, which is
  \<^term>\<open>None\<close> where the code passes a NULL pointer; it returns the result code and the new
  content of the destination.
\<close>

type_synonym 'v opt_parser =
  "string \<Rightarrow> string option \<Rightarrow> parse_mode \<Rightarrow> 'v option \<Rightarrow> int \<times> 'v option"

text \<open>
  \<open>K_Var\<close> is an option with a variable (its address and parser), \<open>K_NoVar\<close> one without (the
  print functions), \<open>K_Profile\<close> the option \<^verbatim>\<open>profile\<close> with the string list parser, and
  \<open>K_Children\<close> an option with suboptions, whose parser splits the parameter into pairs.
\<close>

datatype 'v m_option = M_option (oname: string) (oflags: c_int) (owild: bool) (okind: "'v opt_kind")
and 'v opt_kind =
    K_Var nat "'v opt_parser"
  | K_NoVar "string \<Rightarrow> string option \<Rightarrow> int"
  | K_Profile "string option \<Rightarrow> int \<times> string list"
  | K_Children "string option \<Rightarrow> int \<times> (string \<times> string option) list" "'v m_option list"

definition has_flag :: "'v m_option \<Rightarrow> c_int \<Rightarrow> bool" where
  "has_flag opt1 fl \<longleftrightarrow> oflags opt1 AND fl \<noteq> 0"

definition has_child :: "'v m_option \<Rightarrow> bool" where
  "has_child opt1 \<longleftrightarrow> (case okind opt1 of K_Children f cs \<Rightarrow> True | _ \<Rightarrow> False)"

definition opt_var :: "'v m_option \<Rightarrow> nat option" where
  "opt_var opt1 = (case okind opt1 of K_Var a f \<Rightarrow> Some a | _ \<Rightarrow> None)"

subsection \<open>The configuration\<close>

record 'v save_slot =
  prev :: "nat option"
  slvl :: nat
  sdata :: "'v option"

record 'v config_option =
  co_name :: string
  co_opt :: "'v m_option"
  co_slots :: "nat option"
  co_set :: bool
  co_alias :: bool

record m_profile =
  pname :: string
  desc :: "string option"
  popts :: "(string \<times> string option) list"

text \<open>\<open>sheap\<close> and \<open>next_slot\<close> are the allocated slots, \<open>vars\<close> the program's variables.\<close>

record 'v m_config =
  opts :: "'v config_option list"
  lvl :: nat
  mode :: parse_mode
  profiles :: "m_profile list"
  profile_depth :: nat
  sheap :: "nat \<rightharpoonup> 'v save_slot"
  next_slot :: nat
  vars :: "nat \<Rightarrow> 'v"

definition alloc_slot :: "'v save_slot \<Rightarrow> 'v m_config \<Rightarrow> nat \<times> 'v m_config" where
  "alloc_slot s c = (next_slot c, c\<lparr>sheap := (sheap c)(next_slot c \<mapsto> s), next_slot := next_slot c + 1\<rparr>)"

text \<open>\<^verbatim>\<open>m_option_save\<close> and \<^verbatim>\<open>m_option_set\<close> between a variable and slot data.\<close>

definition m_option_save :: "'v m_option \<Rightarrow> 'v m_config \<Rightarrow> 'v option \<Rightarrow> 'v option" where
  "m_option_save opt1 c d = (case opt_var opt1 of Some a \<Rightarrow> Some (vars c a) | None \<Rightarrow> d)"

definition m_option_set :: "'v m_option \<Rightarrow> 'v option \<Rightarrow> 'v m_config \<Rightarrow> 'v m_config" where
  "m_option_set opt1 d c = (case (opt_var opt1, d) of
     (Some a, Some v) \<Rightarrow> c\<lparr>vars := (vars c)(a := v)\<rparr> | _ \<Rightarrow> c)"

definition set_co :: "nat \<Rightarrow> 'v config_option \<Rightarrow> 'v m_config \<Rightarrow> 'v m_config" where
  "set_co i co c = c\<lparr>opts := (opts c)[i := co]\<rparr>"

subsection \<open>Push and pop\<close>

definition not_saved :: "'v config_option \<Rightarrow> bool" where
  "not_saved co \<longleftrightarrow> has_child (co_opt co) \<or> has_flag (co_opt co) (M_OPT_GLOBAL OR M_OPT_NOSAVE)"

definition push_one :: "nat \<Rightarrow> 'v m_config \<Rightarrow> 'v m_config option" where
  "push_one i c =
     (let co = opts c ! i in
      if not_saved co \<or> (has_flag (co_opt co) M_OPT_OLD \<and> \<not> co_set co) \<or> co_alias co then Some c
      else do {
        s \<leftarrow> co_slots co;
        sl \<leftarrow> sheap c s;
        let d = m_option_save (co_opt co) c (sdata sl);
        let c = c\<lparr>sheap := (sheap c)(s \<mapsto> sl\<lparr>sdata := d\<rparr>)\<rparr>;
        let (n, c) = alloc_slot \<lparr>prev = Some s, slvl = lvl c, sdata = d\<rparr> c;
        Some (set_co i (co\<lparr>co_slots := Some n, co_set := False\<rparr>) c)
      })"

fun for_all_opts :: "(nat \<Rightarrow> 'v m_config \<Rightarrow> 'v m_config option) \<Rightarrow> nat list \<Rightarrow> 'v m_config \<Rightarrow> 'v m_config option" where
  "for_all_opts f [] c = Some c"
| "for_all_opts f (i # is) c = Option.bind (f i c) (for_all_opts f is)"

definition m_config_push :: "'v m_config \<Rightarrow> 'v m_config option" where
  "m_config_push c0 = (let c = c0\<lparr>lvl := lvl c0 + 1\<rparr> in for_all_opts push_one [0..<length (opts c)] c)"

text \<open>
  The loop that frees the slots of the current level and above: the new top slot, the heap and
  whether anything was freed.
\<close>

partial_function (option) pop_slots ::
  "nat \<Rightarrow> nat \<Rightarrow> (nat \<rightharpoonup> 'v save_slot) \<Rightarrow> bool \<Rightarrow> (nat \<times> (nat \<rightharpoonup> 'v save_slot) \<times> bool) option" where
  "pop_slots l s h popped =
     Option.bind (h s) (\<lambda>sl.
       if slvl sl \<ge> l then Option.bind (prev sl) (\<lambda>p. pop_slots l p (h(s := None)) True)
       else Some (s, h, popped))"

declare pop_slots.simps [code]

definition pop_one :: "nat \<Rightarrow> 'v m_config \<Rightarrow> 'v m_config option" where
  "pop_one i c =
     (let co = opts c ! i in
      if not_saved co \<or> co_alias co then Some c
      else do {
        s \<leftarrow> co_slots co;
        (s', h, popped) \<leftarrow> pop_slots (lvl c) s (sheap c) False;
        sl \<leftarrow> h s';
        let c = set_co i (co\<lparr>co_slots := Some s'\<rparr>) (c\<lparr>sheap := h\<rparr>);
        Some (if popped then m_option_set (co_opt co) (sdata sl) c else c)
      })"

definition m_config_pop :: "'v m_config \<Rightarrow> 'v m_config option" where
  "m_config_pop c = do {
     c \<leftarrow> for_all_opts pop_one [0..<length (opts c)] c;
     Some (c\<lparr>lvl := lvl c - 1\<rparr>)
   }"

subsection \<open>Registration\<close>

definition full_name :: "string \<Rightarrow> string \<Rightarrow> string" where
  "full_name pre nm = (if pre = [] then nm else pre @ '':'' @ nm)"

text \<open>The first registered option with the same variable.\<close>

definition find_alias :: "'v m_option \<Rightarrow> 'v m_config \<Rightarrow> 'v config_option option" where
  "find_alias opt1 c = (case opt_var opt1 of None \<Rightarrow> None
     | Some a \<Rightarrow> find (\<lambda>i. opt_var (co_opt i) = Some a) (opts c))"

definition add_co :: "'v m_option \<Rightarrow> string \<Rightarrow> 'v m_config \<Rightarrow> 'v m_config" where
  "add_co opt1 nm c =
     (case find_alias opt1 c of
        Some i \<Rightarrow> c\<lparr>opts := \<lparr>co_name = nm, co_opt = opt1, co_slots = co_slots i,
                            co_set = False, co_alias = True\<rparr> # opts c\<rparr>
      | None \<Rightarrow>
          let d = m_option_save opt1 c None;
              (s0, c) = alloc_slot \<lparr>prev = None, slvl = 0, sdata = d\<rparr> c;
              (s1, c) = alloc_slot \<lparr>prev = Some s0, slvl = lvl c, sdata = d\<rparr> c
          in c\<lparr>opts := \<lparr>co_name = nm, co_opt = opt1, co_slots = Some s1,
                       co_set = False, co_alias = False\<rparr> # opts c\<rparr>)"

fun m_config_add_option :: "'v m_option \<Rightarrow> string \<Rightarrow> 'v m_config \<Rightarrow> 'v m_config"
and m_config_add_options :: "'v m_option list \<Rightarrow> string \<Rightarrow> 'v m_config \<Rightarrow> 'v m_config" where
  "m_config_add_option (M_option nm fl w (K_Children f cs)) pre c =
     (let n = full_name pre nm; c = m_config_add_options cs n c
      in c\<lparr>opts := \<lparr>co_name = n, co_opt = M_option nm fl w (K_Children f cs), co_slots = None,
                   co_set = False, co_alias = False\<rparr> # opts c\<rparr>)"
| "m_config_add_option opt1 pre c = add_co opt1 (full_name pre (oname opt1)) c"
| "m_config_add_options [] pre c = c"
| "m_config_add_options (x # xs) pre c = m_config_add_options xs pre (m_config_add_option x pre c)"

definition m_config_register_options :: "'v m_option list \<Rightarrow> 'v m_config \<Rightarrow> 'v m_config" where
  "m_config_register_options args c = m_config_add_options args [] c"

text \<open>A new configuration over given variables, with its own three options.\<close>

definition m_config_new ::
  "(string option \<Rightarrow> int \<times> string list) \<Rightarrow> (string \<Rightarrow> string option \<Rightarrow> int)
   \<Rightarrow> (string \<Rightarrow> string option \<Rightarrow> int) \<Rightarrow> (nat \<Rightarrow> 'v) \<Rightarrow> 'v m_config" where
  "m_config_new parse_list show_profile list_options vs =
     m_config_register_options
       [M_option ''profile'' M_OPT_NOSAVE False (K_Profile parse_list),
        M_option ''show-profile'' M_OPT_NOCFG False (K_NoVar show_profile),
        M_option ''list-options'' M_OPT_NOCFG False (K_NoVar list_options)]
       \<lparr>opts = [], lvl = 1, mode = M_CONFIG_FILE, profiles = [], profile_depth = 0,
        sheap = Map.empty, next_slot = 0, vars = vs\<rparr>"

subsection \<open>Setting options\<close>

definition co_matches :: "string \<Rightarrow> 'v config_option \<Rightarrow> bool" where
  "co_matches arg co =
     (let l = length (co_name co) - 1 in
      if owild (co_opt co) \<and> co_name co \<noteq> [] \<and> last (co_name co) = CHR ''*''
      then strncaseeq l (co_name co) arg
      else strcaseeq (co_name co) arg)"

fun find_index :: "('a \<Rightarrow> bool) \<Rightarrow> 'a list \<Rightarrow> nat option" where
  "find_index P [] = None"
| "find_index P (x # xs) = (if P x then Some 0 else map_option Suc (find_index P xs))"

definition m_config_get_co :: "'v m_config \<Rightarrow> string \<Rightarrow> nat option" where
  "m_config_get_co c arg = find_index (co_matches arg) (opts c)"

definition m_config_get_option :: "'v m_config \<Rightarrow> string \<Rightarrow> 'v m_option option" where
  "m_config_get_option c arg = map_option (\<lambda>i. co_opt (opts c ! i)) (m_config_get_co c arg)"

definition m_config_get_profile :: "'v m_config \<Rightarrow> string \<Rightarrow> m_profile option" where
  "m_config_get_profile c nm = find (\<lambda>p. pname p = nm) (profiles c)"

definition m_config_add_profile :: "'v m_config \<Rightarrow> string \<Rightarrow> 'v m_config" where
  "m_config_add_profile c nm = (case m_config_get_profile c nm of
     Some p \<Rightarrow> c
   | None \<Rightarrow> c\<lparr>profiles := \<lparr>pname = nm, desc = None, popts = []\<rparr> # profiles c\<rparr>)"

definition m_profile_set_desc :: "m_profile \<Rightarrow> string option \<Rightarrow> m_profile" where
  "m_profile_set_desc p d = p\<lparr>desc := d\<rparr>"

definition MAX_PROFILE_DEPTH :: nat where "MAX_PROFILE_DEPTH = 20"

text \<open>Whether the option is refused in the current mode, and whether it is really set.\<close>

definition mode_forbids :: "'v m_config \<Rightarrow> 'v config_option \<Rightarrow> bool" where
  "mode_forbids c co \<longleftrightarrow> mode c = M_CONFIG_FILE \<and> has_flag (co_opt co) M_OPT_NOCFG
     \<or> mode c = M_COMMAND_LINE \<and> has_flag (co_opt co) M_OPT_NOCMD"

definition really_set :: "'v m_config \<Rightarrow> 'v config_option \<Rightarrow> bool \<Rightarrow> bool" where
  "really_set c co st \<longleftrightarrow> st
     \<and> \<not> (mode c = M_COMMAND_LINE_PRE_PARSE \<and> \<not> has_flag (co_opt co) M_OPT_PRE_PARSE
        \<or> mode c \<noteq> M_COMMAND_LINE_PRE_PARSE \<and> has_flag (co_opt co) M_OPT_PRE_PARSE \<and> co_set co)"

definition mark_set :: "nat \<Rightarrow> bool \<Rightarrow> 'v m_config \<Rightarrow> 'v m_config" where
  "mark_set i st c = (if st then set_co i ((opts c ! i)\<lparr>co_set := True\<rparr>) c else c)"

definition parse_profile ::
  "(string option \<Rightarrow> int \<times> string list) \<Rightarrow> 'v m_config \<Rightarrow> string option \<Rightarrow> int \<times> string list" where
  "parse_profile parse_list c param =
     (if param = Some ''help'' then (M_OPT_EXIT - 1, [])
      else case parse_list param of (r, list) \<Rightarrow>
        if r < 0 then (r, [])
        else if list = [] then (M_OPT_INVALID, [])
        else (if \<exists>n \<in> set list. m_config_get_profile c n = None then M_OPT_INVALID else r, list))"

text \<open>
  \<^verbatim>\<open>m_config_parse_option\<close> with the loops over suboptions and profile options. The fuel bounds
  the nesting of calls; \<^term>\<open>None\<close> is either the end of the fuel or an access to a freed slot.
\<close>

function (sequential) m_config_parse_option ::
  "nat \<Rightarrow> 'v m_config \<Rightarrow> string \<Rightarrow> string option \<Rightarrow> bool \<Rightarrow> (int \<times> 'v m_config) option"
and parse_children ::
  "nat \<Rightarrow> 'v m_config \<Rightarrow> string \<Rightarrow> (string \<times> string option) list \<Rightarrow> bool \<Rightarrow> int \<Rightarrow> (int \<times> 'v m_config) option"
and set_profiles :: "nat \<Rightarrow> 'v m_config \<Rightarrow> string list \<Rightarrow> 'v m_config option"
and set_profile_options :: "nat \<Rightarrow> 'v m_config \<Rightarrow> (string \<times> string option) list \<Rightarrow> 'v m_config option" where
  "m_config_parse_option 0 c arg param st = None"
| "m_config_parse_option (Suc f) c arg param st =
     (case m_config_get_co c arg of
        None \<Rightarrow> Some (M_OPT_UNKNOWN, c)
      | Some i \<Rightarrow>
          let co = opts c ! i in
          if mode_forbids c co then Some (M_OPT_INVALID, c)
          else let st = really_set c co st in
          (case okind (co_opt co) of
             K_Children g cs \<Rightarrow>
               (case g param of (r, lst) \<Rightarrow>
                  if r < 0 then Some (r, c)
                  else do {
                    (r, c) \<leftarrow> parse_children f c (co_name co) lst st r;
                    Some (r, if r < 0 then c else mark_set i st c)
                  })
           | K_Var a g \<Rightarrow>
               (if \<not> st then Some (fst (g arg param (mode c) None), c)
                else do {
                  s \<leftarrow> co_slots co;
                  sl \<leftarrow> sheap c s;
                  let (r, d) = g arg param (mode c) (sdata sl);
                  let c = c\<lparr>sheap := (sheap c)(s \<mapsto> sl\<lparr>sdata := d\<rparr>)\<rparr>;
                  Some (r, if r < 0 then c else mark_set i st (m_option_set (co_opt co) d c))
                })
           | K_NoVar g \<Rightarrow> (let r = g arg param in Some (r, if r < 0 then c else mark_set i st c))
           | K_Profile g \<Rightarrow>
               (case parse_profile g c param of (r, list) \<Rightarrow>
                  if r < 0 then Some (r, c)
                  else if \<not> st then Some (r, c)
                  else do {
                    c \<leftarrow> set_profiles f c list;
                    Some (r, mark_set i st c)
                  })))"
| "parse_children f c nm [] st r = Some (r, c)"
| "parse_children f c nm ((sub, val) # lst) st r =
     (if r \<ge> 0 then do {
        (sr, c) \<leftarrow> m_config_parse_option f c (nm @ '':'' @ sub) val st;
        parse_children f c nm lst st
          (if sr < 0 then (if sr = M_OPT_UNKNOWN \<or> sr = M_OPT_MISSING_PARAM then M_OPT_INVALID else sr) else r)
      }
      else parse_children f c nm lst st r)"
| "set_profiles f c [] = Some c"
| "set_profiles f c (nm # names) =
     (case m_config_get_profile c nm of
        None \<Rightarrow> set_profiles f c names
      | Some p \<Rightarrow>
          if profile_depth c > MAX_PROFILE_DEPTH then set_profiles f c names
          else do {
            c \<leftarrow> set_profile_options f (c\<lparr>profile_depth := profile_depth c + 1\<rparr>) (popts p);
            set_profiles f (c\<lparr>profile_depth := profile_depth c - 1\<rparr>) names
          })"
| "set_profile_options f c [] = Some c"
| "set_profile_options f c ((nm, val) # os) = do {
     (r, c) \<leftarrow> m_config_parse_option f c nm val True;
     set_profile_options f c os
   }"
  by pat_completeness auto
termination
  by (relation "measures [\<lambda>x. case x of Inl (Inl (f, _)) \<Rightarrow> f | Inl (Inr (f, _)) \<Rightarrow> f
        | Inr (Inl (f, _)) \<Rightarrow> f | Inr (Inr (f, _)) \<Rightarrow> f,
      \<lambda>x. case x of Inl (Inl _) \<Rightarrow> 0 | Inl (Inr _) \<Rightarrow> 1 | Inr (Inl _) \<Rightarrow> 2 | Inr (Inr _) \<Rightarrow> (1 :: nat),
      \<lambda>x. case x of Inl (Inl _) \<Rightarrow> 0 | Inl (Inr (_, _, _, l, _)) \<Rightarrow> length l
        | Inr (Inl (_, _, l)) \<Rightarrow> length l | Inr (Inr (_, _, l)) \<Rightarrow> length l]") auto

definition m_config_set_option ::
  "nat \<Rightarrow> 'v m_config \<Rightarrow> string \<Rightarrow> string option \<Rightarrow> (int \<times> 'v m_config) option" where
  "m_config_set_option f c arg param = m_config_parse_option f c arg param True"

definition m_config_check_option ::
  "nat \<Rightarrow> 'v m_config \<Rightarrow> string \<Rightarrow> string option \<Rightarrow> (int \<times> 'v m_config) option" where
  "m_config_check_option f c arg param =
     map_option (\<lambda>(r, c). (if r = M_OPT_MISSING_PARAM then M_OPT_INVALID else r, c))
       (m_config_parse_option f c arg param False)"

definition m_config_set_profile_option ::
  "nat \<Rightarrow> 'v m_config \<Rightarrow> m_profile \<Rightarrow> string \<Rightarrow> string option \<Rightarrow> (int \<times> m_profile) option" where
  "m_config_set_profile_option f c p nm val = do {
     (r, c) \<leftarrow> m_config_check_option f c nm val;
     Some (if r < 0 then (r, p) else (1, p\<lparr>popts := popts p @ [(nm, val)]\<rparr>))
   }"

definition m_config_set_profile :: "nat \<Rightarrow> 'v m_config \<Rightarrow> m_profile \<Rightarrow> 'v m_config option" where
  "m_config_set_profile f c p =
     (if profile_depth c > MAX_PROFILE_DEPTH then Some c
      else do {
        c \<leftarrow> set_profile_options f (c\<lparr>profile_depth := profile_depth c + 1\<rparr>) (popts p);
        Some (c\<lparr>profile_depth := profile_depth c - 1\<rparr>)
      })"

subsection \<open>The slot stack of one option\<close>

text \<open>
  \<open>stack_ok L v h n ids b\<close>: in the heap \<open>h\<close> with next free slot \<open>n\<close>, the slots \<open>ids\<close> are linked
  down to the slot \<open>b\<close>, belong to levels above \<open>L\<close>, the lowest of them to \<open>L + 1\<close>, while \<open>b\<close> belongs
  to \<open>L\<close> or below and, once something is pushed on it, holds \<open>v\<close>; no other slot links to them.
\<close>

fun links :: "(nat \<rightharpoonup> 'v save_slot) \<Rightarrow> nat list \<Rightarrow> bool" where
  "links h [] = True"
| "links h [x] = True"
| "links h (x # y # r) = ((\<exists>sl. h x = Some sl \<and> prev sl = Some y) \<and> links h (y # r))"

definition stack_ok ::
  "nat \<Rightarrow> 'v \<Rightarrow> (nat \<rightharpoonup> 'v save_slot) \<Rightarrow> nat \<Rightarrow> nat list \<Rightarrow> nat \<Rightarrow> bool" where
  "stack_ok L v h n ids b \<longleftrightarrow>
     links h (ids @ [b]) \<and> distinct (ids @ [b]) \<and> (\<forall>x \<in> set (ids @ [b]). x < n)
     \<and> (\<forall>x \<in> set ids. \<exists>sl. h x = Some sl \<and> slvl sl > L)
     \<and> (\<exists>sl. h b = Some sl \<and> slvl sl \<le> L \<and> (ids \<noteq> [] \<longrightarrow> sdata sl = Some v))
     \<and> (ids \<noteq> [] \<longrightarrow> (\<exists>sl. h (last ids) = Some sl \<and> slvl sl = L + 1))
     \<and> (\<forall>x sl. h x = Some sl \<longrightarrow> x \<notin> set (ids @ [b]) \<longrightarrow> prev sl \<notin> Some ` set (ids @ [b]))
     \<and> (\<forall>x sl. h x = Some sl \<longrightarrow> x < n \<and> (\<forall>p. prev sl = Some p \<longrightarrow> p < n))"

lemma links_other: "x \<notin> set ids \<Longrightarrow> links (h(x := s)) ids = links h ids"
  by (induction h ids rule: links.induct) auto

lemma links_data: "h x = Some sl \<Longrightarrow> links (h(x \<mapsto> sl\<lparr>sdata := d\<rparr>)) ids = links h ids"
  by (induction h ids rule: links.induct) auto

lemma stack_data:
  assumes "stack_ok L v h n ids b" and "h x = Some sl" and "x \<noteq> b \<or> ids = []"
  shows "stack_ok L v (h(x \<mapsto> sl\<lparr>sdata := d\<rparr>)) n ids b"
  using assms unfolding stack_ok_def by (simp add: links_data) (auto split: if_splits)

lemma stack_alloc:
  assumes "stack_ok L v h n ids b" and "p \<notin> set (ids @ [b])" and "prev sl = Some p" and "p < n"
  shows "stack_ok L v (h(n \<mapsto> sl)) (n + 1) ids b"
proof -
  have "n \<notin> set (ids @ [b])" using assms(1) by (auto simp: stack_ok_def)
  then show ?thesis using assms unfolding stack_ok_def
    by (auto simp: links_other less_Suc_eq)
qed

lemma stack_free:
  assumes "stack_ok L v h n ids b" and "x \<notin> set (ids @ [b])"
  shows "stack_ok L v (h(x := None)) n ids b"
proof -
  have "ids \<noteq> [] \<Longrightarrow> x \<noteq> last ids" using assms(2) by auto
  with assms show ?thesis unfolding stack_ok_def by (auto simp: links_other)
qed

lemma stack_push:
  assumes ok: "stack_ok L v h n ids b" and sl: "prev sl = Some (hd (ids @ [b]))" "slvl sl > L"
    and first: "ids = [] \<Longrightarrow> slvl sl = L + 1 \<and> (\<exists>s. h b = Some s \<and> sdata s = Some v)"
  shows "stack_ok L v (h(n \<mapsto> sl)) (n + 1) (n # ids) b"
proof -
  have n: "n \<notin> set (ids @ [b])" using ok by (auto simp: stack_ok_def)
  have "links (h(n \<mapsto> sl)) (n # ids @ [b])"
    using ok n sl by (cases "ids @ [b]") (auto simp: links_other stack_ok_def)
  moreover have "prev s \<notin> Some ` set (n # ids @ [b])"
    if "(h(n \<mapsto> sl)) x = Some s" "x \<notin> set (n # ids @ [b])" for x s
    using ok that unfolding stack_ok_def by (fastforce split: if_splits)
  ultimately show ?thesis
    using ok n sl first unfolding stack_ok_def by (cases ids) (auto simp: less_Suc_eq)
qed

lemma stack_pop_top:
  assumes ok: "stack_ok L v h n (x # ids) b" and "ids \<noteq> []"
  shows "stack_ok L v (h(x := None)) n ids b"
proof -
  have "x \<notin> set (ids @ [b])" using ok by (auto simp: stack_ok_def)
  moreover from this have "links h (ids @ [b])" using ok assms(2) by (cases ids) (auto simp: stack_ok_def)
  ultimately show ?thesis using ok assms(2) unfolding stack_ok_def by (auto simp: links_other)
qed

text \<open>Popping another option's slots never touches the stack.\<close>

definition apart :: "nat \<Rightarrow> 'v \<Rightarrow> nat \<Rightarrow> nat list \<Rightarrow> nat \<Rightarrow> nat \<Rightarrow> (nat \<rightharpoonup> 'v save_slot) \<Rightarrow> bool" where
  "apart L v n ids b s h \<longleftrightarrow> stack_ok L v h n ids b \<and> s \<notin> set (ids @ [b])"

lemma apart_free:
  assumes "apart L v n ids b s h" and "h s = Some sl" and "prev sl = Some p"
  shows "apart L v n ids b p (h(s := None))"
proof -
  have ok: "stack_ok L v h n ids b" and s: "s \<notin> set (ids @ [b])"
    using assms(1) by (auto simp: apart_def)
  then have "prev sl \<notin> Some ` set (ids @ [b])" using assms(2) unfolding stack_ok_def by blast
  then have "p \<notin> set (ids @ [b])" using assms(3) by blast
  then show ?thesis using stack_free [OF ok s] unfolding apart_def by blast
qed

lemma pop_slots_apart:
  assumes "pop_slots l s h pp = Some r"
  shows "apart L v n ids b s h \<longrightarrow> apart L v n ids b (fst r) (fst (snd r))"
proof (rule pop_slots.raw_induct [where P = "\<lambda>l s h pp r.
    apart L v n ids b s h \<longrightarrow> apart L v n ids b (fst r) (fst (snd r))", OF _ assms])
  fix pops :: "nat \<Rightarrow> nat \<Rightarrow> (nat \<rightharpoonup> 'a save_slot) \<Rightarrow> bool \<Rightarrow> (nat \<times> (nat \<rightharpoonup> 'a save_slot) \<times> bool) option"
    and l s :: nat and h :: "nat \<rightharpoonup> 'a save_slot" and pp r
  assume 1: "\<And>l s h pp r. pops l s h pp = Some r \<Longrightarrow>
      apart L v n ids b s h \<longrightarrow> apart L v n ids b (fst r) (fst (snd r))"
    and 2: "Option.bind (h s) (\<lambda>sl. if l \<le> slvl sl
       then Option.bind (prev sl) (\<lambda>p. pops l p (h(s := None)) True) else Some (s, h, pp)) = Some r"
  from 2 obtain sl where sl: "h s = Some sl" by (cases "h s") simp_all
  show "apart L v n ids b s h \<longrightarrow> apart L v n ids b (fst r) (fst (snd r))"
  proof (cases "l \<le> slvl sl")
    case True
    then obtain p where p: "prev sl = Some p" using 2 sl by (cases "prev sl") simp_all
    with 2 sl True have "pops l p (h(s := None)) True = Some r" by simp
    from 1 [OF this] show ?thesis using apart_free [of L v n ids b s h sl p] sl p by blast
  next
    case False
    with 2 sl show ?thesis by auto
  qed
qed

lemma pop_slots_other:
  assumes "pop_slots l s h pp = Some (s', h', pp')" and "stack_ok L v h n ids b"
    and "s \<notin> set (ids @ [b])"
  shows "stack_ok L v h' n ids b \<and> s' \<notin> set (ids @ [b])"
  using pop_slots_apart [OF assms(1), of L v n ids b] assms(2,3) by (simp add: apart_def)

text \<open>Popping the stack itself: above level \<open>L + 1\<close> something stays, at \<open>L + 1\<close> only the base.\<close>

lemma pop_slots_own:
  assumes "stack_ok L v h n ids b" and "ids \<noteq> []" and "l > L + 1"
  shows "\<exists>ids' h' pp'. ids' \<noteq> [] \<and> pop_slots l (hd ids) h pp = Some (hd ids', h', pp')
    \<and> stack_ok L v h' n ids' b \<and> set ids' \<subseteq> set ids"
  using assms(1,2)
proof (induction ids arbitrary: h pp)
  case (Cons x ids)
  obtain sl where sl: "h x = Some sl" using Cons.prems(1) by (auto simp: stack_ok_def)
  show ?case
  proof (cases "slvl sl \<ge> l")
    case False
    then have "pop_slots l x h pp = Some (x, h, pp)" using sl by (subst pop_slots.simps) simp
    then show ?thesis using Cons.prems by (intro exI [of _ "x # ids"]) auto
  next
    case True
    have ne: "ids \<noteq> []"
    proof
      assume "ids = []"
      then have "slvl sl = L + 1" using Cons.prems(1) sl by (auto simp: stack_ok_def)
      with True assms(3) show False by simp
    qed
    have "prev sl = Some (hd ids)" using Cons.prems(1) sl ne by (cases ids) (auto simp: stack_ok_def)
    then have "pop_slots l x h pp = pop_slots l (hd ids) (h(x := None)) True"
      using sl True by (subst pop_slots.simps) simp
    moreover obtain ids' h' pp' where "ids' \<noteq> []" "set ids' \<subseteq> set ids" "stack_ok L v h' n ids' b"
      "pop_slots l (hd ids) (h(x := None)) True = Some (hd ids', h', pp')"
      using Cons.IH [OF stack_pop_top [OF Cons.prems(1) ne] ne, of True] by blast
    ultimately show ?thesis by (metis list.sel(1) set_subset_Cons subset_trans)
  qed
qed simp

lemma pop_slots_base:
  assumes "stack_ok L v h n ids b" and "ids \<noteq> []"
  shows "\<exists>h'. pop_slots (L + 1) (hd ids) h pp = Some (b, h', True) \<and> (\<exists>sl. h' b = Some sl \<and> sdata sl = Some v)"
  using assms
proof (induction ids arbitrary: h pp)
  case (Cons x ids)
  obtain sl where sl: "h x = Some sl" "slvl sl \<ge> L + 1" using Cons.prems(1) by (auto simp: stack_ok_def)
  obtain sb where sb: "h b = Some sb" "slvl sb \<le> L" "sdata sb = Some v"
    using Cons.prems(1) by (auto simp: stack_ok_def)
  show ?case
  proof (cases "ids = []")
    case True
    have "prev sl = Some b" "x \<noteq> b" using Cons.prems(1) sl True by (auto simp: stack_ok_def)
    then show ?thesis using sl sb True
      by (subst pop_slots.simps) (simp, subst pop_slots.simps, simp)
  next
    case False
    have "prev sl = Some (hd ids)" using Cons.prems(1) sl False by (cases ids) (auto simp: stack_ok_def)
    then have "pop_slots (L + 1) x h pp = pop_slots (L + 1) (hd ids) (h(x := None)) True"
      using sl by (subst pop_slots.simps) simp
    then show ?thesis
      using Cons.IH [OF stack_pop_top [OF Cons.prems(1) False] False, of True] unfolding list.sel(1)
      by metis
  qed
qed simp

subsection \<open>An option that owns its slots\<close>

text \<open>
  Option \<open>k\<close> is a saved option with the variable \<open>a\<close>, no other option has this variable, and no
  other option points into its slot stack.
\<close>

definition owned :: "nat \<Rightarrow> nat \<Rightarrow> nat \<Rightarrow> 'v \<Rightarrow> 'v m_config \<Rightarrow> nat list \<Rightarrow> nat \<Rightarrow> bool" where
  "owned k a L v c ids b \<longleftrightarrow>
     k < length (opts c) \<and> \<not> not_saved (opts c ! k) \<and> \<not> co_alias (opts c ! k)
     \<and> \<not> has_flag (co_opt (opts c ! k)) M_OPT_OLD \<and> opt_var (co_opt (opts c ! k)) = Some a
     \<and> co_slots (opts c ! k) = Some (hd (ids @ [b]))
     \<and> (\<forall>j < length (opts c). j \<noteq> k \<longrightarrow> opt_var (co_opt (opts c ! j)) \<noteq> Some a
          \<and> co_slots (opts c ! j) \<notin> Some ` set (ids @ [b]))
     \<and> (\<forall>j < length (opts c). \<forall>s. co_slots (opts c ! j) = Some s \<longrightarrow> s < next_slot c)
     \<and> stack_ok L v (sheap c) (next_slot c) ids b"

lemma set_co_simps [simp]:
  "opts (set_co i co c) = (opts c)[i := co]" "sheap (set_co i co c) = sheap c"
  "next_slot (set_co i co c) = next_slot c" "vars (set_co i co c) = vars c" "lvl (set_co i co c) = lvl c"
  "mode (set_co i co c) = mode c"
  by (simp_all add: set_co_def)

lemma m_option_set_simps [simp]:
  "opts (m_option_set opt1 d c) = opts c" "sheap (m_option_set opt1 d c) = sheap c"
  "next_slot (m_option_set opt1 d c) = next_slot c" "lvl (m_option_set opt1 d c) = lvl c"
  by (auto simp: m_option_set_def split: option.splits)

lemma m_option_set_var:
  "opt_var opt1 \<noteq> Some a \<Longrightarrow> vars (m_option_set opt1 d c) a = vars c a"
  by (auto simp: m_option_set_def split: option.splits)

lemma owned_flag:
  assumes "owned k a L v c ids b"
  shows "owned k a L v (set_co i ((opts c ! i)\<lparr>co_set := s\<rparr>) c) ids b"
proof -
  have upd: "(opts c)[i := x] ! j = (if j = i \<and> i < length (opts c) then x else opts c ! j)" for x j
    by (cases "i < length (opts c)") (auto simp: nth_list_update list_update_beyond)
  show ?thesis using assms unfolding owned_def not_saved_def set_co_simps upd length_list_update
    by simp blast
qed

lemma owned_mark: "owned k a L v c ids b \<Longrightarrow> owned k a L v (mark_set i st c) ids b"
  by (simp add: mark_set_def owned_flag)

lemma owned_same:
  "owned k a L v (m_option_set opt1 d c) ids b = owned k a L v c ids b"
  "owned k a L v (c\<lparr>lvl := l\<rparr>) ids b = owned k a L v c ids b"
  by (simp_all add: owned_def)

lemma owned_write:
  assumes "owned k a L v c ids b" and "i < length (opts c)" and "co_slots (opts c ! i) = Some s"
    and "sheap c s = Some sl"
  shows "owned k a L v (c\<lparr>sheap := (sheap c)(s \<mapsto> sl\<lparr>sdata := d\<rparr>)\<rparr>) ids b"
proof -
  have "s \<noteq> b \<or> ids = []"
  proof (cases "i = k")
    case True
    then show ?thesis using assms unfolding owned_def stack_ok_def by (cases ids) auto
  next
    case False
    then show ?thesis using assms unfolding owned_def by auto
  qed
  with assms have "stack_ok L v ((sheap c)(s \<mapsto> sl\<lparr>sdata := d\<rparr>)) (next_slot c) ids b"
    by (intro stack_data) (auto simp: owned_def)
  with assms(1) show ?thesis by (simp add: owned_def)
qed

subsection \<open>Setting options keeps the stack\<close>

lemma find_index_Some: "find_index P xs = Some i \<Longrightarrow> i < length xs \<and> P (xs ! i)"
  by (induction xs arbitrary: i) (auto split: if_splits)

lemma lvl_mark [simp]: "lvl (mark_set i st c) = lvl c"
  by (simp add: mark_set_def)

definition kept :: "nat \<Rightarrow> nat \<Rightarrow> nat \<Rightarrow> 'v \<Rightarrow> nat list \<Rightarrow> nat \<Rightarrow> nat \<Rightarrow> 'v m_config \<Rightarrow> bool" where
  "kept k a L v ids b l c \<longleftrightarrow> owned k a L v c ids b \<and> lvl c = l"

lemma kept_depth: "kept k a L v ids b l (c\<lparr>profile_depth := d\<rparr>) = kept k a L v ids b l c"
  by (simp add: kept_def owned_def)

lemma kept_mark: "kept k a L v ids b l c \<Longrightarrow> kept k a L v ids b l (mark_set i st c)"
  by (simp add: kept_def owned_mark)

lemma kept_set: "kept k a L v ids b l c \<Longrightarrow> kept k a L v ids b l (m_option_set opt1 d c)"
  by (simp add: kept_def owned_def)

lemma kept_write:
  assumes "kept k a L v ids b l c" and "i < length (opts c)" and "co_slots (opts c ! i) = Some s"
    and "sheap c s = Some sl"
  shows "kept k a L v ids b l (c\<lparr>sheap := (sheap c)(s \<mapsto> sl\<lparr>sdata := d\<rparr>)\<rparr>)"
  using assms owned_write [of k a L v c ids b i s sl d] by (simp add: kept_def)

lemma parse_kept:
  "kept k a L v ids b l c \<Longrightarrow> m_config_parse_option f c arg param st = Some (r, c1)
    \<Longrightarrow> kept k a L v ids b l c1"
  and "kept k a L v ids b l c \<Longrightarrow> parse_children f c nm lst st r0 = Some (r, c1)
    \<Longrightarrow> kept k a L v ids b l c1"
  and "kept k a L v ids b l c \<Longrightarrow> set_profiles f c names = Some c1 \<Longrightarrow> kept k a L v ids b l c1"
  and "kept k a L v ids b l c \<Longrightarrow> set_profile_options f c os = Some c1 \<Longrightarrow> kept k a L v ids b l c1"
proof (induction f c arg param st and f c nm lst st r0 and f c names and f c os
    arbitrary: r c1 and r c1 and c1 and c1
    rule: m_config_parse_option_parse_children_set_profiles_set_profile_options.induct)
  case (2 f c arg param st)
  show ?case
  proof (cases "m_config_get_co c arg")
    case None
    then show ?thesis using 2(3,4) by simp
  next
    case (Some i)
    let ?co = "opts c ! i"
    have i: "i < length (opts c)" using Some by (auto simp: m_config_get_co_def dest: find_index_Some)
    show ?thesis
    proof (cases "mode_forbids c ?co")
      case True
      then show ?thesis using 2(3,4) Some by simp
    next
      case ok: False
      show ?thesis
      proof (cases "okind (co_opt ?co)")
        case (K_Children g cs)
        obtain r1 lst where g: "g param = (r1, lst)" by fastforce
        show ?thesis
        proof (cases "r1 < 0")
          case True
          then show ?thesis using 2(3,4) Some ok K_Children g by (simp add: Let_def)
        next
          case False
          then obtain r2 c2 where c2: "parse_children f c (co_name ?co) lst (really_set c ?co st) r1 = Some (r2, c2)"
            "c1 = (if r2 < 0 then c2 else mark_set i (really_set c ?co st) c2)"
            using 2(4) Some ok K_Children g by (auto simp: Let_def bind_eq_Some_conv)
          from 2(2) [OF Some refl ok refl K_Children g [symmetric] False 2(3) c2(1)]
          show ?thesis using c2(2) by (simp add: kept_mark)
        qed
      next
        case (K_Var a g)
        show ?thesis
        proof (cases "really_set c ?co st")
          case False
          then show ?thesis using 2(3,4) Some ok K_Var by (simp add: Let_def)
        next
          case True
          then obtain s sl where s: "co_slots ?co = Some s" "sheap c s = Some sl"
            using 2(4) Some ok K_Var by (auto simp: Let_def bind_eq_Some_conv)
          obtain r' d where "g arg param (mode c) (sdata sl) = (r', d)" by fastforce
          with True s show ?thesis using 2(4) Some ok K_Var kept_write [OF 2(3) i s, of d]
            by (auto simp: Let_def intro!: kept_mark kept_set split: if_splits)
        qed
      next
        case (K_NoVar g)
        then show ?thesis using 2(3,4) Some ok
          by (auto simp: Let_def kept_mark split: if_splits)
      next
        case (K_Profile g)
        obtain r1 lst where g: "parse_profile g c param = (r1, lst)" by fastforce
        show ?thesis
        proof (cases "r1 < 0 \<or> \<not> really_set c ?co st")
          case True
          then show ?thesis using 2(3,4) Some ok K_Profile g by (auto simp: Let_def split: if_splits)
        next
          case False
          then obtain c2 where c2: "set_profiles f c lst = Some c2" "c1 = mark_set i True c2"
            using 2(4) Some ok K_Profile g by (auto simp: Let_def bind_eq_Some_conv)
          have "\<not> r1 < 0" "\<not> \<not> really_set c ?co st" using False by auto
          from 2(1) [OF Some refl ok refl K_Profile g [symmetric] this 2(3) c2(1)]
          show ?thesis using c2(2) by (simp add: kept_mark)
        qed
      qed
    qed
  qed
next
  case (4 f c nm sub val lst st r0)
  show ?case
  proof (cases "0 \<le> r0")
    case True
    then obtain sr c2 where c2: "m_config_parse_option f c (nm @ '':'' @ sub) val st = Some (sr, c2)"
      and rest: "parse_children f c2 nm lst st (if sr < 0 then (if sr = M_OPT_UNKNOWN \<or> sr = M_OPT_MISSING_PARAM
          then M_OPT_INVALID else sr) else r0) = Some (r, c1)"
      using 4(5) by (auto simp: bind_eq_Some_conv)
    show ?thesis by (rule 4(2) [OF True c2 refl 4(1) [OF True 4(4) c2] rest])
  next
    case False
    have "parse_children f c nm lst st r0 = Some (r, c1)" using 4(5) False by simp
    then show ?thesis by (rule 4(3) [OF False 4(4)])
  qed
next
  case (6 f c nm names)
  show ?case
  proof (cases "m_config_get_profile c nm")
    case None
    then show ?thesis using 6(1) [OF None 6(5)] 6(6) by simp
  next
    case (Some p)
    show ?thesis
    proof (cases "MAX_PROFILE_DEPTH < profile_depth c")
      case True
      then show ?thesis using 6(2) [OF Some True 6(5)] 6(6) Some by simp
    next
      case False
      then obtain c2 where c2: "set_profile_options f (c\<lparr>profile_depth := profile_depth c + 1\<rparr>) (popts p) = Some c2"
        and rest: "set_profiles f (c2\<lparr>profile_depth := profile_depth c2 - 1\<rparr>) names = Some c1"
        using 6(6) Some by (auto simp: bind_eq_Some_conv)
      have "kept k a L v ids b l c2"
        by (rule 6(3) [OF Some False _ c2]) (simp only: kept_depth 6(5))
      then show ?thesis by (intro 6(4) [OF Some False c2 _ rest]) (simp only: kept_depth)
    qed
  qed
next
  case (8 f c nm val os)
  then obtain sr c2 where c2: "m_config_parse_option f c nm val True = Some (sr, c2)"
    and rest: "set_profile_options f c2 os = Some c1" by (auto simp: bind_eq_Some_conv)
  show ?case by (rule 8(2) [OF c2 refl 8(1) [OF 8(3) c2] rest])
qed simp_all

subsection \<open>Push and pop keep or restore the stack\<close>

lemma alloc_slot_simps:
  "alloc_slot s c = (next_slot c, c\<lparr>sheap := (sheap c)(next_slot c \<mapsto> s), next_slot := next_slot c + 1\<rparr>)"
  by (simp add: alloc_slot_def)

lemma push_one_other:
  assumes ow: "owned k a L v c ids b" and j: "j < length (opts c)" "j \<noteq> k"
    and p: "push_one j c = Some c1"
  shows "owned k a L v c1 ids b \<and> vars c1 = vars c \<and> lvl c1 = lvl c \<and> length (opts c1) = length (opts c)
    \<and> opts c1 ! k = opts c ! k"
proof -
  let ?co = "opts c ! j"
  show ?thesis
  proof (cases "not_saved ?co \<or> (has_flag (co_opt ?co) M_OPT_OLD \<and> \<not> co_set ?co) \<or> co_alias ?co")
    case True
    then show ?thesis using p ow by (auto simp: push_one_def)
  next
    case False
    then obtain s sl where s: "co_slots ?co = Some s" "sheap c s = Some sl"
      using p by (auto simp: push_one_def Let_def bind_eq_Some_conv)
    let ?d = "m_option_save (co_opt ?co) c (sdata sl)"
    let ?c = "c\<lparr>sheap := (sheap c)(s \<mapsto> sl\<lparr>sdata := ?d\<rparr>)\<rparr>"
    have s': "s \<notin> set (ids @ [b])" using ow j s unfolding owned_def by fastforce
    have st: "stack_ok L v (sheap ?c) (next_slot c) ids b"
      using ow s(2) s' unfolding owned_def by (auto intro!: stack_data)
    have "s < next_slot c" using st s(2) unfolding stack_ok_def by (auto split: if_splits)
    from stack_alloc [OF st s' _ this, of "\<lparr>prev = Some s, slvl = lvl c, sdata = ?d\<rparr>"]
    have st1: "stack_ok L v ((sheap ?c)(next_slot c \<mapsto> \<lparr>prev = Some s, slvl = lvl c, sdata = ?d\<rparr>))
        (next_slot c + 1) ids b" by simp
    have n: "next_slot c \<notin> set (ids @ [b])" using st by (auto simp: stack_ok_def)
    have c1: "c1 = set_co j (?co\<lparr>co_slots := Some (next_slot c), co_set := False\<rparr>)
        (c\<lparr>sheap := (sheap ?c)(next_slot c \<mapsto> \<lparr>prev = Some s, slvl = lvl c, sdata = ?d\<rparr>),
           next_slot := next_slot c + 1\<rparr>)"
      using p False s by (simp add: push_one_def Let_def alloc_slot_simps)
    show ?thesis using ow st1 n j unfolding c1 owned_def by (auto simp: nth_list_update less_Suc_eq)
  qed
qed

lemma push_one_own:
  assumes ow: "owned k a L v0 c ids b" and lv: "ids = [] \<Longrightarrow> lvl c = L + 1" "lvl c > L"
    and v: "ids \<noteq> [] \<Longrightarrow> v = v0" "ids = [] \<Longrightarrow> v = vars c a"
    and p: "push_one k c = Some c1"
    and first: "ids = [] \<Longrightarrow> \<not> (has_flag (co_opt (opts c ! k)) M_OPT_OLD \<and> \<not> co_set (opts c ! k))"
  shows "\<exists>ids1. ids1 \<noteq> [] \<and> owned k a L v c1 ids1 b \<and> vars c1 = vars c \<and> lvl c1 = lvl c
    \<and> length (opts c1) = length (opts c)"
proof -
  let ?co = "opts c ! k"
  have k: "k < length (opts c)" "\<not> not_saved ?co" "\<not> co_alias ?co"
    "opt_var (co_opt ?co) = Some a" "co_slots ?co = Some (hd (ids @ [b]))"
    using ow by (auto simp: owned_def)
  show ?thesis
  proof (cases "has_flag (co_opt ?co) M_OPT_OLD \<and> \<not> co_set ?co")
    case True
    then have "ids \<noteq> []" using first by blast
    then show ?thesis using True p ow k v by (intro exI [of _ ids]) (auto simp: push_one_def)
  next
    case False
    let ?s = "hd (ids @ [b])"
    have "?s \<in> set (ids @ [b])" by (rule hd_in_set) simp
    then obtain sl where sl: "sheap c ?s = Some sl"
      using ow by (auto simp: owned_def stack_ok_def)
    let ?h = "(sheap c)(?s \<mapsto> sl\<lparr>sdata := Some (vars c a)\<rparr>)"
    have "?s \<noteq> b \<or> ids = []" using ow by (cases ids) (auto simp: owned_def stack_ok_def)
    then have st0: "stack_ok L v0 ?h (next_slot c) ids b"
      using ow sl unfolding owned_def by (auto intro!: stack_data)
    then have st: "stack_ok L v ?h (next_slot c) ids b"
      using v(1) by (cases "ids = []") (auto simp: stack_ok_def)
    have "stack_ok L v (?h(next_slot c \<mapsto> \<lparr>prev = Some ?s, slvl = lvl c, sdata = Some (vars c a)\<rparr>))
        (next_slot c + 1) (next_slot c # ids) b"
      by (rule stack_push [OF st]) (use lv v(2) in auto)
    moreover have c1: "c1 = set_co k (?co\<lparr>co_slots := Some (next_slot c), co_set := False\<rparr>)
        (c\<lparr>sheap := ?h(next_slot c \<mapsto> \<lparr>prev = Some ?s, slvl = lvl c, sdata = Some (vars c a)\<rparr>),
           next_slot := next_slot c + 1\<rparr>)"
      using p False k sl by (simp add: push_one_def Let_def alloc_slot_simps m_option_save_def)
    moreover have "\<forall>j < length (opts c). j \<noteq> k \<longrightarrow> co_slots (opts c ! j) \<noteq> Some (next_slot c)"
      using ow unfolding owned_def by blast
    ultimately show ?thesis using ow k
      by (intro exI [of _ "next_slot c # ids"]) (auto simp: owned_def nth_list_update not_saved_def less_Suc_eq)
  qed
qed

text \<open>
  Loops over all options: what every step on another option keeps, and what the step on option
  \<open>k\<close> establishes.
\<close>

lemma for_all_opts_append:
  "for_all_opts f (xs @ ys) c = Option.bind (for_all_opts f xs c) (for_all_opts f ys)"
proof (induction xs arbitrary: c)
  case (Cons x xs)
  then show ?case by (cases "f x c") simp_all
qed simp

lemma for_all_opts_inv:
  assumes "for_all_opts f is c = Some c1" and "P c" and "set is \<subseteq> S"
    and "\<And>i c c'. i \<in> S \<Longrightarrow> P c \<Longrightarrow> f i c = Some c' \<Longrightarrow> P c'"
  shows "P c1"
  using assms(1-3)
proof (induction "is" arbitrary: c)
  case (Cons i js)
  then obtain c2 where "f i c = Some c2" "for_all_opts f js c2 = Some c1"
    by (auto simp: bind_eq_Some_conv)
  then show ?case using Cons assms(4) [of i c c2] by auto
qed simp

lemma for_all_opts_at:
  assumes "for_all_opts f [0..<n] c = Some c1" and "k < n"
  obtains c2 c3 where "for_all_opts f [0..<k] c = Some c2" "f k c2 = Some c3"
    "for_all_opts f [Suc k..<n] c3 = Some c1"
proof -
  have "[0..<n] = [0..<k] @ k # [Suc k..<n]"
    using upt_add_eq_append [of 0 k "n - k"] upt_conv_Cons [OF assms(2)] assms(2) by simp
  with assms(1) that show thesis by (auto simp: for_all_opts_append bind_eq_Some_conv)
qed

definition steady ::
  "nat \<Rightarrow> nat \<Rightarrow> nat \<Rightarrow> 'v \<Rightarrow> nat list \<Rightarrow> nat \<Rightarrow> 'v m_config \<Rightarrow> 'v m_config \<Rightarrow> bool" where
  "steady k a L v ids b c0 c \<longleftrightarrow> owned k a L v c ids b \<and> vars c a = vars c0 a \<and> lvl c = lvl c0
     \<and> length (opts c) = length (opts c0) \<and> opts c ! k = opts c0 ! k"

definition others :: "nat \<Rightarrow> nat \<Rightarrow> nat set" where
  "others k n = {j. j < n \<and> j \<noteq> k}"

lemma others_ranges: "k < n \<Longrightarrow> set [0..<k] \<subseteq> others k n" "set [Suc k..<n] \<subseteq> others k n"
  by (auto simp: others_def)

lemma steady_push:
  assumes "j \<in> others k (length (opts c0))" and "steady k a L v ids b c0 c" and "push_one j c = Some c'"
  shows "steady k a L v ids b c0 c'"
  using assms push_one_other [of k a L v c ids b j c'] by (simp add: steady_def others_def)

lemma owned_move:
  assumes ow: "owned k a L v c ids b" and j: "j < length (opts c)" "j \<noteq> k"
    and st: "stack_ok L v h (next_slot c) ids b" and s: "s \<notin> set (ids @ [b])" "s < next_slot c"
  shows "owned k a L v (set_co j ((opts c ! j)\<lparr>co_slots := Some s\<rparr>) (c\<lparr>sheap := h\<rparr>)) ids b"
proof -
  have upd: "(opts c)[j := x] ! i = (if i = j then x else opts c ! i)" for x i
    using j(1) by (simp add: nth_list_update)
  have sl: "co_slots (opts c ! i) = Some s' \<Longrightarrow> i < length (opts c) \<Longrightarrow> s' < next_slot c"
    "i < length (opts c) \<Longrightarrow> i \<noteq> k \<Longrightarrow> opt_var (co_opt (opts c ! i)) \<noteq> Some a
      \<and> co_slots (opts c ! i) \<notin> Some ` set (ids @ [b])" for i s'
    using ow unfolding owned_def by blast+
  have "Some s \<notin> Some ` set (ids @ [b])" using s(1) by blast
  then show ?thesis
    using ow st s sl j unfolding owned_def by (simp add: upd)
qed

lemma owned_shrink:
  assumes ow: "owned k a L v c ids b" and st: "stack_ok L v h (next_slot c) ids1 b"
    and ids1: "set ids1 \<subseteq> set ids"
  shows "owned k a L v (set_co k ((opts c ! k)\<lparr>co_slots := Some (hd (ids1 @ [b]))\<rparr>) (c\<lparr>sheap := h\<rparr>)) ids1 b"
proof -
  have k: "k < length (opts c)" using ow by (simp add: owned_def)
  have upd: "(opts c)[k := x] ! i = (if i = k then x else opts c ! i)" for x i
    using k by (simp add: nth_list_update)
  have sl: "co_slots (opts c ! i) = Some s' \<Longrightarrow> i < length (opts c) \<Longrightarrow> s' < next_slot c"
    "i < length (opts c) \<Longrightarrow> i \<noteq> k \<Longrightarrow> opt_var (co_opt (opts c ! i)) \<noteq> Some a
      \<and> co_slots (opts c ! i) \<notin> Some ` set (ids1 @ [b])" for i s'
    using ow ids1 unfolding owned_def by (blast, auto)
  have "hd (ids1 @ [b]) < next_slot c" using st by (cases ids1) (simp_all add: stack_ok_def)
  then show ?thesis
    using ow st sl unfolding owned_def not_saved_def by (simp add: upd)
qed

lemma steady_pop:
  assumes j: "j \<in> others k (length (opts c0))" and st: "steady k a L v ids b c0 c"
    and p: "pop_one j c = Some c'"
  shows "steady k a L v ids b c0 c'"
proof -
  let ?co = "opts c ! j"
  have ow: "owned k a L v c ids b" and j': "j < length (opts c)" "j \<noteq> k"
    using st j by (auto simp: steady_def others_def)
  show ?thesis
  proof (cases "not_saved ?co \<or> co_alias ?co")
    case True
    then show ?thesis using p st by (auto simp: pop_one_def)
  next
    case False
    then obtain s s' h pp sl where s: "co_slots ?co = Some s"
      and ps: "pop_slots (lvl c) s (sheap c) False = Some (s', h, pp)" and sl: "h s' = Some sl"
      and c': "c' = (let c = set_co j (?co\<lparr>co_slots := Some s'\<rparr>) (c\<lparr>sheap := h\<rparr>)
        in if pp then m_option_set (co_opt ?co) (sdata sl) c else c)"
      using p by (auto simp: pop_one_def Let_def bind_eq_Some_conv)
    have "s \<notin> set (ids @ [b])" using ow j' s unfolding owned_def by force
    from pop_slots_other [OF ps _ this, of L v "next_slot c"] ow
    have st1: "stack_ok L v h (next_slot c) ids b" and s': "s' \<notin> set (ids @ [b])"
      by (simp_all add: owned_def)
    have "s' < next_slot c" using st1 sl by (auto simp: stack_ok_def)
    then have own: "owned k a L v (set_co j (?co\<lparr>co_slots := Some s'\<rparr>) (c\<lparr>sheap := h\<rparr>)) ids b"
      using owned_move [OF ow j' st1 s'] by simp
    moreover have "opt_var (co_opt ?co) \<noteq> Some a" using ow j' by (simp add: owned_def)
    ultimately show ?thesis
      using st j' by (simp add: c' Let_def steady_def owned_same m_option_set_var)
  qed
qed

text \<open>A loop over other options.\<close>

lemma steady_refl: "owned k a L v c ids b \<Longrightarrow> steady k a L v ids b c c"
  by (simp add: steady_def)

lemma steady_push_loop:
  assumes "for_all_opts push_one is c = Some c1" and "owned k a L v c ids b"
    and "set is \<subseteq> others k (length (opts c))"
  shows "steady k a L v ids b c c1"
  by (rule for_all_opts_inv [where P = "steady k a L v ids b c", OF assms(1) steady_refl [OF assms(2)] assms(3)])
    (rule steady_push)

lemma steady_pop_loop:
  assumes "for_all_opts pop_one is c = Some c1" and "owned k a L v c ids b"
    and "set is \<subseteq> others k (length (opts c))"
  shows "steady k a L v ids b c c1"
  by (rule for_all_opts_inv [where P = "steady k a L v ids b c", OF assms(1) steady_refl [OF assms(2)] assms(3)])
    (rule steady_pop)

text \<open>The push at level \<open>L\<close>: it saves the variable's value below a new slot.\<close>

definition pushable :: "nat \<Rightarrow> nat \<Rightarrow> nat \<Rightarrow> 'v m_config \<Rightarrow> nat \<Rightarrow> bool" where
  "pushable k a L c b \<longleftrightarrow> owned k a L (vars c a) c [] b
     \<and> \<not> (has_flag (co_opt (opts c ! k)) M_OPT_OLD \<and> \<not> co_set (opts c ! k))"

lemma push_first:
  assumes "pushable k a L c b" and "lvl c = L" and "m_config_push c = Some c1"
  shows "\<exists>ids. ids \<noteq> [] \<and> kept k a L (vars c a) ids b (L + 1) c1"
proof -
  let ?v = "vars c a" and ?n = "length (opts c)" and ?c = "c\<lparr>lvl := L + 1\<rparr>"
  have k: "k < ?n" using assms(1) by (simp add: pushable_def owned_def)
  have loop: "for_all_opts push_one [0..<?n] ?c = Some c1"
    using assms(2,3) by (simp add: m_config_push_def Let_def)
  from for_all_opts_at [OF loop k] obtain c2 c3 where c2: "for_all_opts push_one [0..<k] ?c = Some c2"
    and c3: "push_one k c2 = Some c3" and c1: "for_all_opts push_one [Suc k..<?n] c3 = Some c1" .
  have "owned k a L ?v ?c [] b" using assms(1) by (simp add: pushable_def owned_def)
  have before: "steady k a L ?v [] b ?c c2"
    using steady_push_loop [OF c2 \<open>owned k a L ?v ?c [] b\<close>] others_ranges(1) [OF k] by simp
  obtain ids where own: "ids \<noteq> []" "owned k a L ?v c3 ids b" "lvl c3 = L + 1" "length (opts c3) = ?n"
  proof -
    have "owned k a L ?v c2 [] b" "lvl c2 = L + 1" "?v = vars c2 a" "length (opts c2) = ?n"
      "\<not> (has_flag (co_opt (opts c2 ! k)) M_OPT_OLD \<and> \<not> co_set (opts c2 ! k))"
      using before assms(1) by (simp_all add: steady_def pushable_def)
    with push_one_own [of k a L ?v c2 "[]" b ?v c3] c3 that show thesis by auto
  qed
  have "set [Suc k..<?n] \<subseteq> others k (length (opts c3))" using others_ranges(2) own(4) by simp
  then have "steady k a L ?v ids b c3 c1" by (rule steady_push_loop [OF c1 own(2)])
  then show ?thesis using own by (auto simp: steady_def kept_def)
qed

text \<open>A nested push and the matching pop.\<close>

lemma push_nested:
  assumes "kept k a L v ids b l c" and ne: "ids \<noteq> []" and "l > L" and "m_config_push c = Some c1"
  shows "\<exists>ids. ids \<noteq> [] \<and> kept k a L v ids b (l + 1) c1"
proof -
  let ?n = "length (opts c)" and ?c = "c\<lparr>lvl := l + 1\<rparr>"
  have ow: "owned k a L v ?c ids b" and k: "k < ?n"
    using assms(1) by (simp_all add: kept_def owned_def)
  have loop: "for_all_opts push_one [0..<?n] ?c = Some c1"
    using assms(1,4) by (simp add: m_config_push_def Let_def kept_def)
  from for_all_opts_at [OF loop k] obtain c2 c3 where c2: "for_all_opts push_one [0..<k] ?c = Some c2"
    and c3: "push_one k c2 = Some c3" and c1: "for_all_opts push_one [Suc k..<?n] c3 = Some c1" .
  have before: "steady k a L v ids b ?c c2"
    using steady_push_loop [OF c2 ow] others_ranges(1) [OF k] by simp
  obtain ids1 where own: "ids1 \<noteq> []" "owned k a L v c3 ids1 b" "lvl c3 = l + 1" "length (opts c3) = ?n"
    using push_one_own [of k a L v c2 ids b v c3] c3 before ne assms(3)
    by (auto simp: steady_def)
  have "set [Suc k..<?n] \<subseteq> others k (length (opts c3))" using others_ranges(2) own(4) by simp
  then have "steady k a L v ids1 b c3 c1" by (rule steady_push_loop [OF c1 own(2)])
  then show ?thesis using own by (auto simp: steady_def kept_def)
qed

lemma pop_nested:
  assumes "kept k a L v ids b l c" and ne: "ids \<noteq> []" and "l > L + 1" and "m_config_pop c = Some c1"
  shows "\<exists>ids. ids \<noteq> [] \<and> kept k a L v ids b (l - 1) c1"
proof -
  let ?n = "length (opts c)"
  have ow: "owned k a L v c ids b" and k: "k < ?n" and lv: "lvl c = l"
    using assms(1) by (simp_all add: kept_def owned_def)
  obtain c4 where loop: "for_all_opts pop_one [0..<?n] c = Some c4" and c1: "c1 = c4\<lparr>lvl := lvl c4 - 1\<rparr>"
    using assms(4) by (auto simp: m_config_pop_def bind_eq_Some_conv)
  from for_all_opts_at [OF loop k] obtain c2 c3 where c2: "for_all_opts pop_one [0..<k] c = Some c2"
    and c3: "pop_one k c2 = Some c3" and c4: "for_all_opts pop_one [Suc k..<?n] c3 = Some c4" .
  have before: "steady k a L v ids b c c2"
    using steady_pop_loop [OF c2 ow] others_ranges(1) [OF k] by simp
  let ?co = "opts c2 ! k"
  have ow2: "owned k a L v c2 ids b" and lv2: "lvl c2 = l" using before lv by (auto simp: steady_def)
  then obtain ids1 h pp where ids1: "ids1 \<noteq> []" "stack_ok L v h (next_slot c2) ids1 b" "set ids1 \<subseteq> set ids"
    and ps: "pop_slots l (hd ids) (sheap c2) False = Some (hd ids1, h, pp)"
    using pop_slots_own [of L v "sheap c2" "next_slot c2" ids b l False] ne assms(3)
    by (auto simp: owned_def)
  have co: "\<not> not_saved ?co" "\<not> co_alias ?co" "co_slots ?co = Some (hd ids)"
    using ow2 ne by (auto simp: owned_def)
  obtain sl where sl: "h (hd ids1) = Some sl" using ids1(1,2) by (cases ids1) (auto simp: stack_ok_def)
  have c3': "c3 = (let c = set_co k (?co\<lparr>co_slots := Some (hd ids1)\<rparr>) (c2\<lparr>sheap := h\<rparr>)
      in if pp then m_option_set (co_opt ?co) (sdata sl) c else c)"
    using c3 co ps sl lv2 by (auto simp: pop_one_def Let_def)
  have "owned k a L v (set_co k (?co\<lparr>co_slots := Some (hd ids1)\<rparr>) (c2\<lparr>sheap := h\<rparr>)) ids1 b"
    using owned_shrink [OF ow2 ids1(2,3)] ids1(1) by simp
  then have own: "owned k a L v c3 ids1 b" "lvl c3 = l" "length (opts c3) = ?n"
    using lv2 before by (simp_all add: c3' Let_def owned_same steady_def)
  have "set [Suc k..<?n] \<subseteq> others k (length (opts c3))" using others_ranges(2) own(3) by simp
  then have "steady k a L v ids1 b c3 c4" by (rule steady_pop_loop [OF c4 own(1)])
  then show ?thesis using own ids1(1) c1 by (auto simp: steady_def kept_def owned_same)
qed

text \<open>The pop of the first level writes the saved value back.\<close>

definition restored :: "nat \<Rightarrow> nat \<Rightarrow> 'v \<Rightarrow> nat \<Rightarrow> 'v m_config \<Rightarrow> bool" where
  "restored k a v n c \<longleftrightarrow> vars c a = v \<and> length (opts c) = n
     \<and> (\<forall>j < n. j \<noteq> k \<longrightarrow> opt_var (co_opt (opts c ! j)) \<noteq> Some a)"

lemma pop_restored:
  assumes j: "j \<in> others k n" and r: "restored k a v n c" and p: "pop_one j c = Some c'"
  shows "restored k a v n c'"
proof -
  let ?co = "opts c ! j"
  have j': "j < length (opts c)" "opt_var (co_opt ?co) \<noteq> Some a"
    using j r by (auto simp: others_def restored_def)
  show ?thesis
  proof (cases "not_saved ?co \<or> co_alias ?co")
    case True
    then show ?thesis using p r by (auto simp: pop_one_def)
  next
    case False
    then obtain s s' h pp sl where "co_slots ?co = Some s"
      and "pop_slots (lvl c) s (sheap c) False = Some (s', h, pp)" and "h s' = Some sl"
      and c': "c' = (let c = set_co j (?co\<lparr>co_slots := Some s'\<rparr>) (c\<lparr>sheap := h\<rparr>)
        in if pp then m_option_set (co_opt ?co) (sdata sl) c else c)"
      using p by (auto simp: pop_one_def Let_def bind_eq_Some_conv)
    have upd: "(opts c)[j := x] ! i = (if i = j then x else opts c ! i)" for x i
      using j'(1) by (simp add: nth_list_update)
    show ?thesis using r j' by (simp add: c' Let_def restored_def m_option_set_var upd)
  qed
qed

lemma pop_first:
  assumes "kept k a L v ids b (L + 1) c" and ne: "ids \<noteq> []" and "m_config_pop c = Some c1"
  shows "vars c1 a = v"
proof -
  let ?n = "length (opts c)"
  have ow: "owned k a L v c ids b" and k: "k < ?n" and lv: "lvl c = L + 1"
    using assms(1) by (simp_all add: kept_def owned_def)
  obtain c4 where loop: "for_all_opts pop_one [0..<?n] c = Some c4" and c1: "c1 = c4\<lparr>lvl := lvl c4 - 1\<rparr>"
    using assms(3) by (auto simp: m_config_pop_def bind_eq_Some_conv)
  from for_all_opts_at [OF loop k] obtain c2 c3 where c2: "for_all_opts pop_one [0..<k] c = Some c2"
    and c3: "pop_one k c2 = Some c3" and c4: "for_all_opts pop_one [Suc k..<?n] c3 = Some c4" .
  have before: "steady k a L v ids b c c2"
    using steady_pop_loop [OF c2 ow] others_ranges(1) [OF k] by simp
  let ?co = "opts c2 ! k"
  have ow2: "owned k a L v c2 ids b" and lv2: "lvl c2 = L + 1" and n2: "length (opts c2) = ?n"
    using before lv by (simp_all add: steady_def)
  have st: "stack_ok L v (sheap c2) (next_slot c2) ids b" using ow2 by (simp add: owned_def)
  obtain h sl where ps: "pop_slots (L + 1) (hd ids) (sheap c2) False = Some (b, h, True)"
    and sl: "h b = Some sl" "sdata sl = Some v"
    using pop_slots_base [OF st ne, of False] by blast
  have co: "\<not> not_saved ?co" "\<not> co_alias ?co" "co_slots ?co = Some (hd ids)" "opt_var (co_opt ?co) = Some a"
    using ow2 ne by (simp_all add: owned_def)
  have "pop_one k c2 = Some (m_option_set (co_opt ?co) (sdata sl)
      (set_co k (?co\<lparr>co_slots := Some b\<rparr>) (c2\<lparr>sheap := h\<rparr>)))"
    using co(1-3) ps sl lv2 by (simp add: pop_one_def Let_def)
  with c3 have c3': "c3 = m_option_set (co_opt ?co) (Some v)
      (set_co k (?co\<lparr>co_slots := Some b\<rparr>) (c2\<lparr>sheap := h\<rparr>))" using sl by simp
  have other: "i < ?n \<Longrightarrow> i \<noteq> k \<Longrightarrow> opt_var (co_opt (opts c2 ! i)) \<noteq> Some a" for i
    using ow2 n2 by (simp add: owned_def)
  have "vars c3 a = v" using co(4) by (simp add: c3' m_option_set_def)
  then have r3: "restored k a v ?n c3"
    using other n2 k by (auto simp: restored_def c3' nth_list_update)
  have "restored k a v ?n c4"
    by (rule for_all_opts_inv [where P = "restored k a v ?n", OF c4 r3 others_ranges(2)])
      (rule pop_restored)
  then show ?thesis by (simp add: c1 restored_def)
qed

subsection \<open>Sequences of operations\<close>

datatype cfg_op = Op_set string "string option" | Op_check string "string option" | Op_push | Op_pop

definition run_op :: "nat \<Rightarrow> cfg_op \<Rightarrow> 'v m_config \<Rightarrow> 'v m_config option" where
  "run_op f x c = (case x of
     Op_set n p \<Rightarrow> map_option snd (m_config_set_option f c n p)
   | Op_check n p \<Rightarrow> map_option snd (m_config_check_option f c n p)
   | Op_push \<Rightarrow> m_config_push c
   | Op_pop \<Rightarrow> m_config_pop c)"

fun run_ops :: "nat \<Rightarrow> cfg_op list \<Rightarrow> 'v m_config \<Rightarrow> 'v m_config option" where
  "run_ops f [] c = Some c"
| "run_ops f (x # xs) c = Option.bind (run_op f x c) (run_ops f xs)"

text \<open>Every pop has its push; \<open>d\<close> pushes are open.\<close>

fun nested :: "nat \<Rightarrow> cfg_op list \<Rightarrow> bool" where
  "nested d [] = (d = 0)"
| "nested d (Op_push # xs) = nested (d + 1) xs"
| "nested d (Op_pop # xs) = (d > 0 \<and> nested (d - 1) xs)"
| "nested d (Op_set n p # xs) = nested d xs"
| "nested d (Op_check n p # xs) = nested d xs"

lemma run_ops_kept:
  assumes "kept k a L v ids b (L + 1 + d) c" and "ids \<noteq> []" and "nested d xs"
    and "run_ops f xs c = Some c1"
  shows "\<exists>ids. ids \<noteq> [] \<and> kept k a L v ids b (L + 1) c1"
  using assms
proof (induction d xs arbitrary: c ids rule: nested.induct)
  case (1 d)
  then show ?case by auto
next
  case (2 d xs)
  then obtain c2 where c2: "m_config_push c = Some c2" "run_ops f xs c2 = Some c1"
    by (auto simp: run_op_def bind_eq_Some_conv)
  from push_nested [OF 2(2,3) _ c2(1)] obtain ids2 where "ids2 \<noteq> []" "kept k a L v ids2 b (L + 1 + (d + 1)) c2"
    by auto
  from 2(1) [OF this(2,1) _ c2(2)] show ?case using 2(4) by simp
next
  case (3 d xs)
  then obtain c2 where c2: "m_config_pop c = Some c2" "run_ops f xs c2 = Some c1"
    by (auto simp: run_op_def bind_eq_Some_conv)
  have d: "d > 0" "nested (d - 1) xs" using 3(4) by simp_all
  from pop_nested [OF 3(2,3) _ c2(1)] d obtain ids2 where "ids2 \<noteq> []" "kept k a L v ids2 b (L + 1 + d - 1) c2"
    by auto
  moreover have "L + 1 + d - 1 = L + 1 + (d - 1)" using d by simp
  ultimately show ?case using 3(1) [OF _ _ d(2) c2(2)] by simp
next
  case (4 d n p xs)
  then obtain r c2 where c2: "m_config_parse_option f c n p True = Some (r, c2)" "run_ops f xs c2 = Some c1"
    by (auto simp: run_op_def m_config_set_option_def bind_eq_Some_conv)
  from 4(1) [OF parse_kept(1) [OF 4(2) c2(1)] 4(3) _ c2(2)] 4(4) show ?case by simp
next
  case (5 d n p xs)
  then obtain r c2 where c2: "m_config_parse_option f c n p False = Some (r, c2)" "run_ops f xs c2 = Some c1"
    by (auto simp: run_op_def m_config_check_option_def bind_eq_Some_conv)
  from 5(1) [OF parse_kept(1) [OF 5(2) c2(1)] 5(3) _ c2(2)] 5(4) show ?case by simp
qed

lemma run_sets_kept:
  assumes "kept k a L v ids b l c" and "\<forall>x \<in> set xs. x \<noteq> Op_push \<and> x \<noteq> Op_pop"
    and "run_ops f xs c = Some c1"
  shows "kept k a L v ids b l c1"
  using assms
proof (induction xs arbitrary: c)
  case (Cons x xs)
  then obtain c2 where c2: "run_op f x c = Some c2" "run_ops f xs c2 = Some c1"
    by (auto simp: bind_eq_Some_conv)
  have "\<exists>r n p st. m_config_parse_option f c n p st = Some (r, c2)"
    using c2(1) Cons.prems(2)
    by (cases x) (auto simp: run_op_def m_config_set_option_def m_config_check_option_def)
  then have "kept k a L v ids b l c2" using parse_kept(1) [OF Cons.prems(1)] by blast
  from Cons.IH [OF this _ c2(2)] Cons.prems(2) show ?case by simp
qed simp

subsection \<open>Registration\<close>

text \<open>
  After registration, slots are shared by options of one variable only, every option's slot is of
  the current level and at the top of its stack.
\<close>

definition share_ok :: "'v config_option \<Rightarrow> 'v config_option \<Rightarrow> bool" where
  "share_ok co co' \<longleftrightarrow> (co_slots co \<noteq> None \<longrightarrow> co_slots co' = co_slots co
     \<longrightarrow> opt_var (co_opt co') = opt_var (co_opt co) \<and> opt_var (co_opt co) \<noteq> None)"

fun shares_ok :: "'v config_option list \<Rightarrow> bool" where
  "shares_ok [] = True"
| "shares_ok (co # cos) = ((\<forall>co' \<in> set cos. share_ok co co') \<and> shares_ok cos)"

lemma shares_ok_nth:
  "shares_ok cos \<Longrightarrow> i < j \<Longrightarrow> j < length cos \<Longrightarrow> share_ok (cos ! i) (cos ! j)"
proof (induction cos arbitrary: i j)
  case (Cons co cos)
  then obtain j' where "j = Suc j'" "j' < length cos" by (cases j) auto
  with Cons show ?case by (cases i) auto
qed simp

definition slot_top :: "nat \<Rightarrow> (nat \<rightharpoonup> 'v save_slot) \<Rightarrow> nat \<Rightarrow> bool" where
  "slot_top l h s \<longleftrightarrow> (\<exists>sl. h s = Some sl \<and> slvl sl = l) \<and> (\<forall>x sl. h x = Some sl \<longrightarrow> prev sl \<noteq> Some s)"

definition heap_below :: "nat \<Rightarrow> (nat \<rightharpoonup> 'v save_slot) \<Rightarrow> bool" where
  "heap_below n h \<longleftrightarrow> (\<forall>x sl. h x = Some sl \<longrightarrow> x < n \<and> (\<forall>p. prev sl = Some p \<longrightarrow> p < n))"

definition reg_ok :: "'v m_config \<Rightarrow> bool" where
  "reg_ok c \<longleftrightarrow> heap_below (next_slot c) (sheap c)
     \<and> (\<forall>co \<in> set (opts c). \<forall>s. co_slots co = Some s \<longrightarrow> slot_top (lvl c) (sheap c) s)
     \<and> shares_ok (opts c)
     \<and> (\<forall>co \<in> set (opts c). \<not> has_child (co_opt co) \<longrightarrow> co_slots co \<noteq> None)"

lemma reg_ok_cons:
  assumes "reg_ok c" and "\<forall>s. co_slots co = Some s \<longrightarrow> slot_top (lvl c) (sheap c) s"
    and "\<forall>co' \<in> set (opts c). share_ok co co'"
    and "\<not> has_child (co_opt co) \<longrightarrow> co_slots co \<noteq> None"
  shows "reg_ok (c\<lparr>opts := co # opts c\<rparr>)"
  using assms by (simp add: reg_ok_def)

lemma slot_top_below: "heap_below n h \<Longrightarrow> slot_top l h s \<Longrightarrow> s < n"
  by (auto simp: heap_below_def slot_top_def)

lemma heap_alloc:
  assumes "heap_below n h" and "\<forall>p. prev sl = Some p \<longrightarrow> p < n"
  shows "heap_below (Suc n) (h(n \<mapsto> sl))" and "slot_top l h s \<Longrightarrow> prev sl \<noteq> Some s \<Longrightarrow> slot_top l (h(n \<mapsto> sl)) s"
    and "slot_top (slvl sl) (h(n \<mapsto> sl)) n"
proof -
  show "heap_below (Suc n) (h(n \<mapsto> sl))"
    using assms by (fastforce simp: heap_below_def less_Suc_eq)
  show "slot_top (slvl sl) (h(n \<mapsto> sl)) n"
    using assms by (fastforce simp: heap_below_def slot_top_def)
  show "slot_top l (h(n \<mapsto> sl)) s" if t: "slot_top l h s" "prev sl \<noteq> Some s"
    using t slot_top_below [OF assms(1) t(1)] by (auto simp: slot_top_def)
qed

lemma reg_ok_alloc:
  assumes ok: "reg_ok c" and d: "alloc_slot \<lparr>prev = None, slvl = 0, sdata = d\<rparr> c = (s0, c1)"
    "alloc_slot \<lparr>prev = Some s0, slvl = lvl c1, sdata = d\<rparr> c1 = (s1, c2)"
  shows "reg_ok c2 \<and> opts c2 = opts c \<and> lvl c2 = lvl c \<and> vars c2 = vars c
    \<and> slot_top (lvl c) (sheap c2) s1 \<and> (\<forall>co \<in> set (opts c). co_slots co \<noteq> Some s1)"
proof -
  let ?n = "next_slot c"
  let ?h1 = "(sheap c)(?n \<mapsto> \<lparr>prev = None, slvl = 0, sdata = d\<rparr>)"
  let ?h2 = "?h1(Suc ?n \<mapsto> \<lparr>prev = Some ?n, slvl = lvl c, sdata = d\<rparr>)"
  have c2: "s1 = Suc ?n" "opts c2 = opts c" "lvl c2 = lvl c" "vars c2 = vars c"
    "next_slot c2 = Suc (Suc ?n)" "sheap c2 = ?h2"
    using d by (auto simp: alloc_slot_def)
  have h0: "heap_below ?n (sheap c)" using ok by (simp add: reg_ok_def)
  have h1: "heap_below (Suc ?n) ?h1" using heap_alloc(1) [OF h0] by simp
  have h2: "heap_below (Suc (Suc ?n)) ?h2" using heap_alloc(1) [OF h1] by simp
  have t: "slot_top (lvl c) ?h2 s \<and> s < ?n" if "co \<in> set (opts c)" "co_slots co = Some s" for co s
  proof -
    have t0: "slot_top (lvl c) (sheap c) s" using ok that by (simp add: reg_ok_def)
    then have s: "s < ?n" by (rule slot_top_below [OF h0])
    have "slot_top (lvl c) ?h1 s" using heap_alloc(2) [OF h0 _ t0] by simp
    from heap_alloc(2) [OF h1 _ this] s show ?thesis by simp
  qed
  have "slot_top (lvl c) ?h2 (Suc ?n)"
    using heap_alloc(3) [OF h1, of "\<lparr>prev = Some ?n, slvl = lvl c, sdata = d\<rparr>"] by simp
  then show ?thesis using ok t h2 unfolding reg_ok_def c2 by fastforce
qed

lemma find_Some_in: "find P xs = Some x \<Longrightarrow> x \<in> set xs \<and> P x"
  by (auto simp: find_Some_iff)

lemma add_co_ok:
  assumes ok: "reg_ok c" and nc: "\<not> has_child opt1"
  shows "reg_ok (add_co opt1 nm c) \<and> lvl (add_co opt1 nm c) = lvl c \<and> vars (add_co opt1 nm c) = vars c"
proof (cases "find_alias opt1 c")
  case (Some i)
  then obtain a where a: "opt_var opt1 = Some a" "i \<in> set (opts c)" "opt_var (co_opt i) = Some a"
    by (auto simp: find_alias_def split: option.splits dest: find_Some_in)
  have ch: "\<not> has_child (co_opt i)"
    using a(3) by (auto simp: opt_var_def has_child_def split: opt_kind.splits)
  have sh: "opt_var (co_opt co') = Some a"
    if co': "co' \<in> set (opts c)" "co_slots co' = co_slots i" "co_slots i \<noteq> None" for co'
  proof -
    obtain m j where mj: "m < length (opts c)" "opts c ! m = co'" "j < length (opts c)" "opts c ! j = i"
      using co'(1) a(2) unfolding in_set_conv_nth by blast
    have "shares_ok (opts c)" using ok by (simp add: reg_ok_def)
    from shares_ok_nth [OF this, of m j] shares_ok_nth [OF this, of j m] mj
    show ?thesis using co' a(3) by (cases m j rule: linorder_cases) (auto simp: share_ok_def)
  qed
  have "reg_ok (c\<lparr>opts := \<lparr>co_name = nm, co_opt = opt1, co_slots = co_slots i,
                            co_set = False, co_alias = True\<rparr> # opts c\<rparr>)"
    by (rule reg_ok_cons [OF ok]) (use ok a sh ch in \<open>auto simp: reg_ok_def share_ok_def\<close>)
  then show ?thesis using Some by (simp add: add_co_def)
next
  case None
  obtain s0 c1 where d0: "alloc_slot \<lparr>prev = None, slvl = 0, sdata = m_option_save opt1 c None\<rparr> c = (s0, c1)"
    by fastforce
  obtain s1 c2 where d1: "alloc_slot \<lparr>prev = Some s0, slvl = lvl c1, sdata = m_option_save opt1 c None\<rparr> c1 = (s1, c2)"
    by fastforce
  note al = reg_ok_alloc [OF ok d0 d1]
  have "reg_ok (c2\<lparr>opts := \<lparr>co_name = nm, co_opt = opt1, co_slots = Some s1,
                            co_set = False, co_alias = False\<rparr> # opts c2\<rparr>)"
    by (rule reg_ok_cons) (use al in \<open>auto simp: share_ok_def\<close>)
  then show ?thesis using None d0 d1 al by (simp add: add_co_def Let_def)
qed

lemma add_option_ok:
  "reg_ok c \<Longrightarrow> reg_ok (m_config_add_option opt1 pre c)
     \<and> lvl (m_config_add_option opt1 pre c) = lvl c \<and> vars (m_config_add_option opt1 pre c) = vars c"
  "reg_ok c \<Longrightarrow> reg_ok (m_config_add_options os pre c)
     \<and> lvl (m_config_add_options os pre c) = lvl c \<and> vars (m_config_add_options os pre c) = vars c"
proof (induction opt1 pre c and os pre c rule: m_config_add_option_m_config_add_options.induct)
  case (1 nm fl w f cs pre c)
  then show ?case
    by (auto simp: Let_def has_child_def share_ok_def intro!: reg_ok_cons)
qed (auto simp: add_co_ok has_child_def)

lemma reg_ok_new:
  "reg_ok (m_config_register_options args (m_config_new pl sp lo vs))
   \<and> lvl (m_config_register_options args (m_config_new pl sp lo vs)) = 1"
proof -
  let ?e = "\<lparr>opts = [], lvl = 1, mode = M_CONFIG_FILE, profiles = [], profile_depth = 0,
        sheap = Map.empty, next_slot = 0, vars = vs\<rparr>"
  have e: "reg_ok ?e" by (simp add: reg_ok_def heap_below_def)
  have "reg_ok (m_config_new pl sp lo vs) \<and> lvl (m_config_new pl sp lo vs) = lvl ?e"
    using add_option_ok(2) [OF e] unfolding m_config_new_def m_config_register_options_def by blast
  then show ?thesis using add_option_ok(2) [of "m_config_new pl sp lo vs" args "[]"]
    unfolding m_config_register_options_def by simp
qed

text \<open>An option with a variable of its own that push and pop save.\<close>

definition own_saved :: "'v m_config \<Rightarrow> nat \<Rightarrow> nat \<Rightarrow> bool" where
  "own_saved c k a \<longleftrightarrow> k < length (opts c) \<and> \<not> not_saved (opts c ! k) \<and> \<not> co_alias (opts c ! k)
     \<and> \<not> has_flag (co_opt (opts c ! k)) M_OPT_OLD \<and> opt_var (co_opt (opts c ! k)) = Some a
     \<and> (\<forall>j < length (opts c). j \<noteq> k \<longrightarrow> opt_var (co_opt (opts c ! j)) \<noteq> Some a)"

lemma reg_owned:
  assumes ok: "reg_ok c" and k: "own_saved c k a"
  shows "\<exists>b. owned k a (lvl c) v c [] b"
proof -
  let ?co = "opts c ! k"
  have kk: "k < length (opts c)" "?co \<in> set (opts c)" "opt_var (co_opt ?co) = Some a"
    using k by (simp_all add: own_saved_def)
  have "\<not> has_child (co_opt ?co)" using k by (simp add: own_saved_def not_saved_def)
  then obtain b where b: "co_slots ?co = Some b" using ok kk(2) by (fastforce simp: reg_ok_def)
  have h: "heap_below (next_slot c) (sheap c)" using ok by (simp add: reg_ok_def)
  have t: "slot_top (lvl c) (sheap c) s" if "j < length (opts c)" "co_slots (opts c ! j) = Some s" for j s
    using ok that nth_mem [of j "opts c"] unfolding reg_ok_def by blast
  have lt: "s < next_slot c" if "j < length (opts c)" "co_slots (opts c ! j) = Some s" for j s
    using slot_top_below [OF h t [OF that]] .
  have other: "co_slots (opts c ! j) \<noteq> Some b" if "j < length (opts c)" "j \<noteq> k" for j
  proof
    assume e: "co_slots (opts c ! j) = Some b"
    have "shares_ok (opts c)" using ok by (simp add: reg_ok_def)
    from shares_ok_nth [OF this, of j k] shares_ok_nth [OF this, of k j] that kk(1)
    have "opt_var (co_opt (opts c ! j)) = Some a"
      using e b kk(3) by (cases j k rule: linorder_cases) (auto simp: share_ok_def)
    then show False using k that by (simp add: own_saved_def)
  qed
  have st: "stack_ok (lvl c) v (sheap c) (next_slot c) [] b"
    using t [OF kk(1) b] h lt [OF kk(1) b] unfolding stack_ok_def slot_top_def heap_below_def by auto
  show ?thesis
    using k kk b other lt st by (intro exI [of _ b]) (simp add: owned_def own_saved_def)
qed

lemma owned_initial: "owned k a L v c [] b = owned k a L v' c [] b"
  by (simp add: owned_def stack_ok_def)

text \<open>A configuration made by registering options and setting some, with \<open>a\<close> the variable of option \<open>k\<close>.\<close>

definition settled :: "nat \<Rightarrow> nat \<Rightarrow> nat \<Rightarrow> 'v m_config \<Rightarrow> bool" where
  "settled f k a c \<longleftrightarrow>
     (\<exists>args pl sp lo vs pre c0. c0 = m_config_register_options args (m_config_new pl sp lo vs) \<and>
        own_saved c0 k a \<and> (\<forall>x \<in> set pre. x \<noteq> Op_push \<and> x \<noteq> Op_pop) \<and> run_ops f pre c0 = Some c)"

lemma pop_restores:
  assumes "settled f k a c" and "m_config_push c = Some c1" and "nested 0 ops"
    and "run_ops f ops c1 = Some c2" and "m_config_pop c2 = Some c3"
  shows "vars c3 a = vars c a"
proof -
  obtain args pl sp lo vs pre c0 where c0: "c0 = m_config_register_options args (m_config_new pl sp lo vs)"
    "own_saved c0 k a" "\<forall>x \<in> set pre. x \<noteq> Op_push \<and> x \<noteq> Op_pop" "run_ops f pre c0 = Some c"
    using assms(1) unfolding settled_def by (elim exE conjE) (rule that)
  obtain b where "owned k a 1 (vars c a) c0 [] b"
    using reg_owned [OF _ c0(2)] reg_ok_new [of args pl sp lo vs] c0(1) by fastforce
  then have "kept k a 1 (vars c a) [] b 1 c0 "
    using reg_ok_new [of args pl sp lo vs] c0(1) by (simp add: kept_def)
  from run_sets_kept [OF this c0(3,4)] have own: "owned k a 1 (vars c a) c [] b" "lvl c = 1"
    by (simp_all add: kept_def)
  have "pushable k a 1 c b" using own by (simp add: pushable_def owned_def)
  from push_first [OF this own(2) assms(2)] obtain ids where
    "ids \<noteq> []" "kept k a 1 (vars c a) ids b (1 + 1 + 0) c1" by auto
  from run_ops_kept [OF this(2,1) assms(3,4)] obtain ids2 where
    "ids2 \<noteq> []" "kept k a 1 (vars c a) ids2 b (1 + 1) c2" by blast
  from pop_first [OF this(2,1) assms(5)] show ?thesis .
qed


text \<open>Options for the examples: two flags on one variable, as \<^verbatim>\<open>fs\<close> and \<^verbatim>\<open>nofs\<close>, and one of its own.\<close>

definition flag_parser :: "int \<Rightarrow> int opt_parser" where
  "flag_parser v nm param m d = (0, if d = None then None else Some v)"

definition sample_options :: "int m_option list" where
  "sample_options = [M_option ''fs'' 0 False (K_Var 7 (flag_parser 1)),
     M_option ''nofs'' 0 False (K_Var 7 (flag_parser 0)),
     M_option ''ontop'' 0 False (K_Var 8 (flag_parser 1))]"

definition sample_config :: "int m_config" where
  "sample_config = m_config_register_options sample_options
     (m_config_new (\<lambda>_. (1, [])) (\<lambda>_ _. 0) (\<lambda>_ _. 0) (\<lambda>_. 0))"

definition sample_run :: "cfg_op list \<Rightarrow> nat \<Rightarrow> int option" where
  "sample_run ops a = map_option (\<lambda>c. vars c a) (run_ops 1 ops sample_config)"



subsection \<open>Checking\<close>

lemma check_unchanged:
  "\<not> st \<Longrightarrow> m_config_parse_option f c arg param st = Some (r, c1) \<Longrightarrow> c1 = c"
  "\<not> st \<Longrightarrow> parse_children f c nm lst st r0 = Some (r, c1) \<Longrightarrow> c1 = c"
  "set_profiles f c names = set_profiles f c names"
  "set_profile_options f c os = set_profile_options f c os"
proof (induction f c arg param st and f c nm lst st r0 and f c names and f c os
    arbitrary: r c1 and r c1
    rule: m_config_parse_option_parse_children_set_profiles_set_profile_options.induct)
  case (2 f c arg param st)
  have st: "\<not> really_set c co st" for co using 2(3) by (simp add: really_set_def)
  show ?case
  proof (cases "m_config_get_co c arg")
    case None
    then show ?thesis using 2(4) by simp
  next
    case (Some i)
    let ?co = "opts c ! i"
    show ?thesis
    proof (cases "mode_forbids c ?co")
      case True
      then show ?thesis using 2(4) Some by simp
    next
      case ok: False
      show ?thesis
      proof (cases "okind (co_opt ?co)")
        case (K_Children g cs)
        obtain r1 lst where g: "g param = (r1, lst)" by fastforce
        show ?thesis
        proof (cases "r1 < 0")
          case True
          then show ?thesis using 2(4) Some ok K_Children g by (simp add: Let_def)
        next
          case False
          then obtain r2 c2 where c2: "parse_children f c (co_name ?co) lst (really_set c ?co st) r1 = Some (r2, c2)"
            "c1 = (if r2 < 0 then c2 else mark_set i (really_set c ?co st) c2)"
            using 2(4) Some ok K_Children g by (auto simp: Let_def bind_eq_Some_conv)
          from 2(2) [OF Some refl ok refl K_Children g [symmetric] False st c2(1)]
          show ?thesis using c2(2) st by (simp add: mark_set_def)
        qed
      qed (use 2(4) Some ok st in \<open>auto simp: Let_def mark_set_def split: prod.splits if_splits\<close>)
    qed
  qed
next
  case (4 f c nm sub val lst st r0)
  show ?case
  proof (cases "0 \<le> r0")
    case True
    then obtain sr c2 where c2: "m_config_parse_option f c (nm @ '':'' @ sub) val st = Some (sr, c2)"
      and rest: "parse_children f c2 nm lst st (if sr < 0 then (if sr = M_OPT_UNKNOWN \<or> sr = M_OPT_MISSING_PARAM
          then M_OPT_INVALID else sr) else r0) = Some (r, c1)"
      using 4(5) by (auto simp: bind_eq_Some_conv)
    have "c2 = c" by (rule 4(1) [OF True 4(4) c2])
    moreover have "c1 = c2" by (rule 4(2) [OF True c2 refl 4(4) rest])
    ultimately show ?thesis by simp
  next
    case False
    have "parse_children f c nm lst st r0 = Some (r, c1)" using 4(5) False by simp
    then show ?thesis by (rule 4(3) [OF False 4(4)])
  qed
qed simp_all

text \<open>
  Checking an option setting, suboptions included, never changes the configuration, the save
  slots or a variable, and reports a missing parameter as an invalid one.
\<close>

theorem config_check_pure:
  assumes "m_config_check_option f c nm param = Some (r, c1)"
  shows "c1 = c \<and> r \<noteq> M_OPT_MISSING_PARAM"
proof -
  obtain r0 where "m_config_parse_option f c nm param False = Some (r0, c1)"
    and "r = (if r0 = M_OPT_MISSING_PARAM then M_OPT_INVALID else r0)"
    using assms by (auto simp: m_config_check_option_def)
  then show ?thesis using check_unchanged(1) [of False f c nm param r0 c1]
    by (auto simp: M_OPT_MISSING_PARAM_def M_OPT_INVALID_def)
qed

theorem config_check_pure_witness:
  "\<exists>r c1. m_config_check_option 1 sample_config ''ontop'' None = Some (r, c1)
     \<and> c1 = sample_config \<and> r \<noteq> M_OPT_MISSING_PARAM"
proof -
  have "map_option fst (m_config_check_option 1 sample_config ''ontop'' None) = Some 0" by code_simp
  then obtain r c1 where "m_config_check_option 1 sample_config ''ontop'' None = Some (r, c1)" by auto
  with config_check_pure [OF this] show ?thesis by blast
qed

subsection \<open>Showing a profile\<close>

text \<open>
  The loop of \<^verbatim>\<open>show_profile\<close> over the value of a \<^verbatim>\<open>profile\<close> option: the names it shows, in
  order. \<^term>\<open>None\<close> is a loop that does not end.
\<close>

partial_function (option) show_profile_items :: "string \<Rightarrow> string list option" where
  "show_profile_items list = (case strstr list '','' of
     None \<Rightarrow> Some (if list \<noteq> [] then [list] else [])
   | Some l \<Rightarrow>
       if l = 0 then show_profile_items list
       else Option.bind (show_profile_items (drop (l + 1) list)) (\<lambda>items. Some (take l list # items)))"

fun comma_list :: "string list \<Rightarrow> string" where
  "comma_list [] = []"
| "comma_list [x] = x"
| "comma_list (x # y # xs) = x @ '','' @ comma_list (y # xs)"

lemma show_profile_items_loops:
  assumes "show_profile_items s = Some r"
  shows "s = [] \<or> hd s \<noteq> CHR '',''"
proof (rule show_profile_items.raw_induct [where P = "\<lambda>s r. s = [] \<or> hd s \<noteq> CHR '',''", OF _ assms])
  fix show_items and s :: string and r :: "string list"
  assume 1: "\<And>s r. show_items s = Some r \<Longrightarrow> s = [] \<or> hd s \<noteq> CHR '',''"
    and 2: "(case strstr s '','' of None \<Rightarrow> Some (if s \<noteq> [] then [s] else [])
      | Some l \<Rightarrow> if l = 0 then show_items s
          else Option.bind (show_items (drop (l + 1) s)) (\<lambda>items. Some (take l s # items))) = Some r"
  show "s = [] \<or> hd s \<noteq> CHR '',''"
  proof (cases "s \<noteq> [] \<and> hd s = CHR '',''")
    case True
    then have "strstr s '','' = Some 0" by (cases s) auto
    then show ?thesis using 1 2 by simp
  qed auto
qed

text \<open>
  C38. Showing a profile ends on a list of non-empty names and shows exactly these; on a list that
  begins with a comma it never ends.
\<close>

theorem show_profile_ends:
  assumes "\<forall>x \<in> set names. x \<noteq> [] \<and> CHR '','' \<notin> set x"
  shows "show_profile_items (comma_list names) = Some names \<and> show_profile_items (CHR '','' # rest) = None"
proof
  show "show_profile_items (comma_list names) = Some names"
    using assms
  proof (induction names rule: comma_list.induct)
    case 1
    then show ?case by (simp add: show_profile_items.simps)
  next
    case (2 x)
    then have "strstr x '','' = None" by (simp add: strstr_single_None)
    then show ?case using 2 by (simp add: show_profile_items.simps [of x])
  next
    case (3 x y xs)
    then have "strstr (x @ '','' @ comma_list (y # xs)) '','' = Some (length x)"
      by (simp add: strstr_single_append)
    then show ?case using 3
      by (subst comma_list.simps, subst show_profile_items.simps) simp
  qed
  show "show_profile_items (CHR '','' # rest) = None"
    using show_profile_items_loops [of "CHR '','' # rest"] by (cases "show_profile_items (CHR '','' # rest)") auto
qed

theorem show_profile_ends_witness:
  "show_profile_items (comma_list [''hq'', ''low'']) = Some [''hq'', ''low'']
   \<and> show_profile_items (CHR '','' # ''hq'') = None"
  by (rule show_profile_ends) simp

end
