(* ===== verification/Play_Tree.thy ===== *)
theory Play_Tree
  imports Config
begin

text \<open>
  The play tree of \<^verbatim>\<open>playtree.c\<close> and \<^verbatim>\<open>playtree.h\<close>: items linked to their parent, first child and
  siblings, the operations that link, unlink and free them, and the iterator that walks them in
  playing order. Items live in a heap from addresses to items; \<^verbatim>\<open>NULL\<close> is \<open>None\<close>. An operation is
  \<open>None\<close> when the code would dereference \<^verbatim>\<open>NULL\<close> or a freed item, or never return. Allocation
  does not fail, and a new item's address is an argument. An empty list of files or parameters is
  their \<^verbatim>\<open>NULL\<close> pointer (the code never keeps an empty array). The iterator's configuration is a
  type parameter with its three operations in the record \<open>config_ops\<close>.
\<close>

section \<open>Items\<close>

record play_tree =
  pt_parent :: "nat option"
  pt_child :: "nat option"
  pt_next :: "nat option"
  pt_prev :: "nat option"
  pt_params :: "(string \<times> string option) list"
  pt_loop :: int
  pt_files :: "string list"
  entry_type :: int
  pt_flags :: c_int

type_synonym pt_heap = "nat \<Rightarrow> play_tree option"

definition PLAY_TREE_ENTRY_NODE :: int where "PLAY_TREE_ENTRY_NODE = -1"
definition PLAY_TREE_ENTRY_FILE :: int where "PLAY_TREE_ENTRY_FILE = 3"
definition PLAY_TREE_RND :: c_int where "PLAY_TREE_RND = 1"
definition PLAY_TREE_RND_PLAYED :: c_int where "PLAY_TREE_RND_PLAYED = push_bit 8 1"

definition upd :: "pt_heap \<Rightarrow> nat \<Rightarrow> (play_tree \<Rightarrow> play_tree) \<Rightarrow> pt_heap option" where
  "upd h p f = do { n \<leftarrow> h p; Some (h(p \<mapsto> f n)) }"

text \<open>An update through a pointer that may be \<^verbatim>\<open>NULL\<close>, which the code tests first.\<close>

definition upd_opt :: "pt_heap \<Rightarrow> nat option \<Rightarrow> (play_tree \<Rightarrow> play_tree) \<Rightarrow> pt_heap option" where
  "upd_opt h p f = (case p of None \<Rightarrow> Some h | Some q \<Rightarrow> upd h q f)"

definition play_tree_new :: "nat \<Rightarrow> pt_heap \<Rightarrow> pt_heap" where
  "play_tree_new p h = h(p \<mapsto> \<lparr>pt_parent = None, pt_child = None, pt_next = None, pt_prev = None,
     pt_params = [], pt_loop = 0, pt_files = [], entry_type = PLAY_TREE_ENTRY_NODE, pt_flags = 0\<rparr>)"

subsection \<open>Linking\<close>

partial_function (option) last_sibling :: "pt_heap \<Rightarrow> nat \<Rightarrow> nat option" where
  "last_sibling h p =
     do { n \<leftarrow> h p; case pt_next n of None \<Rightarrow> Some p | Some q \<Rightarrow> last_sibling h q }"

partial_function (option) first_sibling :: "pt_heap \<Rightarrow> nat \<Rightarrow> nat option" where
  "first_sibling h p =
     do { n \<leftarrow> h p; case pt_prev n of None \<Rightarrow> Some p | Some q \<Rightarrow> first_sibling h q }"

partial_function (option) set_parents :: "pt_heap \<Rightarrow> nat option \<Rightarrow> nat option \<Rightarrow> pt_heap option" where
  "set_parents h it par =
     (case it of None \<Rightarrow> Some h
      | Some p \<Rightarrow> do { h \<leftarrow> upd h p (\<lambda>n. n\<lparr>pt_parent := par\<rparr>); n \<leftarrow> h p; set_parents h (pt_next n) par })"

definition play_tree_append_entry :: "pt_heap \<Rightarrow> nat \<Rightarrow> nat \<Rightarrow> pt_heap option" where
  "play_tree_append_entry h pt entry =
     (if pt = entry then Some h
      else do {
        iter \<leftarrow> last_sibling h pt;
        n \<leftarrow> h iter;
        h \<leftarrow> upd h entry (\<lambda>e. e\<lparr>pt_parent := pt_parent n, pt_prev := Some iter, pt_next := None\<rparr>);
        upd h iter (\<lambda>n. n\<lparr>pt_next := Some entry\<rparr>) })"

definition play_tree_prepend_entry :: "pt_heap \<Rightarrow> nat \<Rightarrow> nat \<Rightarrow> pt_heap option" where
  "play_tree_prepend_entry h pt entry = do {
     iter \<leftarrow> first_sibling h pt;
     n \<leftarrow> h iter;
     h \<leftarrow> upd h entry (\<lambda>e. e\<lparr>pt_prev := None, pt_next := Some iter, pt_parent := pt_parent n\<rparr>);
     h \<leftarrow> upd h iter (\<lambda>n. n\<lparr>pt_prev := Some entry\<rparr>);
     e \<leftarrow> h entry;
     upd_opt h (pt_parent e) (\<lambda>n. n\<lparr>pt_child := Some entry\<rparr>) }"

definition play_tree_insert_entry :: "pt_heap \<Rightarrow> nat \<Rightarrow> nat \<Rightarrow> pt_heap option" where
  "play_tree_insert_entry h pt entry = do {
     n \<leftarrow> h pt;
     h \<leftarrow> upd h entry (\<lambda>e. e\<lparr>pt_parent := pt_parent n, pt_prev := Some pt, pt_next := pt_next n\<rparr>);
     h \<leftarrow> upd_opt h (pt_next n) (\<lambda>n. n\<lparr>pt_prev := Some entry\<rparr>);
     upd h pt (\<lambda>n. n\<lparr>pt_next := Some entry\<rparr>) }"

text \<open>\<^verbatim>\<open>play_tree_remove(pt, 0, 0)\<close>: the four cases of the code, then the item's own links.\<close>

definition play_tree_unlink :: "pt_heap \<Rightarrow> nat \<Rightarrow> pt_heap option" where
  "play_tree_unlink h pt = do {
     n \<leftarrow> h pt;
     h \<leftarrow> (case (pt_prev n, pt_next n) of
            (Some a, Some b) \<Rightarrow>
              do { h \<leftarrow> upd h a (\<lambda>m. m\<lparr>pt_next := Some b\<rparr>); upd h b (\<lambda>m. m\<lparr>pt_prev := Some a\<rparr>) }
          | (Some a, None) \<Rightarrow> upd h a (\<lambda>m. m\<lparr>pt_next := None\<rparr>)
          | (None, Some b) \<Rightarrow>
              do { h \<leftarrow> upd h b (\<lambda>m. m\<lparr>pt_prev := None\<rparr>);
                   upd_opt h (pt_parent n) (\<lambda>m. m\<lparr>pt_child := Some b\<rparr>) }
          | (None, None) \<Rightarrow> upd_opt h (pt_parent n) (\<lambda>m. m\<lparr>pt_child := None\<rparr>));
     upd h pt (\<lambda>n. n\<lparr>pt_prev := None, pt_next := None, pt_parent := None\<rparr>) }"

text \<open>
  \<^verbatim>\<open>play_tree_free(c, 1)\<close> for \<open>c\<close> and the siblings after it, as its loop over the children calls it.
\<close>

partial_function (option) free_children :: "pt_heap \<Rightarrow> nat option \<Rightarrow> pt_heap option" where
  "free_children h it =
     (case it of None \<Rightarrow> Some h
      | Some c \<Rightarrow> do {
          n \<leftarrow> h c;
          h \<leftarrow> free_children h (pt_child n);
          h \<leftarrow> upd h c (\<lambda>n. n\<lparr>pt_child := None\<rparr>);
          h \<leftarrow> play_tree_unlink h c;
          free_children (h(c := None)) (pt_next n) })"

definition play_tree_free :: "pt_heap \<Rightarrow> nat \<Rightarrow> bool \<Rightarrow> pt_heap option" where
  "play_tree_free h pt children = do {
     h \<leftarrow> (if children
          then do { n \<leftarrow> h pt; h \<leftarrow> free_children h (pt_child n);
                    upd h pt (\<lambda>n. n\<lparr>pt_child := None\<rparr>) }
          else Some h);
     h \<leftarrow> play_tree_unlink h pt;
     n \<leftarrow> h pt;
     h \<leftarrow> set_parents h (pt_child n) None;
     Some (h(pt := None)) }"

partial_function (option) free_siblings :: "pt_heap \<Rightarrow> nat option \<Rightarrow> bool \<Rightarrow> pt_heap option" where
  "free_siblings h it children =
     (case it of None \<Rightarrow> Some h
      | Some p \<Rightarrow> do { n \<leftarrow> h p; h \<leftarrow> play_tree_free h p children; free_siblings h (pt_next n) children })"

definition play_tree_free_list :: "pt_heap \<Rightarrow> nat \<Rightarrow> bool \<Rightarrow> pt_heap option" where
  "play_tree_free_list h pt children =
     do { iter \<leftarrow> first_sibling h pt; free_siblings h (Some iter) children }"

definition play_tree_remove :: "pt_heap \<Rightarrow> nat \<Rightarrow> bool \<Rightarrow> bool \<Rightarrow> pt_heap option" where
  "play_tree_remove h pt free_it with_children = do {
     h \<leftarrow> play_tree_unlink h pt;
     if free_it then play_tree_free h pt with_children else Some h }"

definition play_tree_set_child :: "pt_heap \<Rightarrow> nat option \<Rightarrow> nat option \<Rightarrow> pt_heap option" where
  "play_tree_set_child h pt child =
     (case (pt, child) of
        (Some p, Some c) \<Rightarrow> do {
          n \<leftarrow> h p;
          h \<leftarrow> set_parents h (pt_child n) None;
          iter \<leftarrow> first_sibling h c;
          h \<leftarrow> upd h p (\<lambda>n. n\<lparr>pt_child := Some iter\<rparr>);
          set_parents h (Some iter) (Some p) }
      | _ \<Rightarrow> Some h)"

text \<open>The loop of \<^verbatim>\<open>play_tree_set_parent\<close> over the siblings before: the first of them.\<close>

partial_function (option) set_parents_back ::
  "pt_heap \<Rightarrow> nat \<Rightarrow> nat \<Rightarrow> (pt_heap \<times> nat) option" where
  "set_parents_back h p par = do {
     h \<leftarrow> upd h p (\<lambda>n. n\<lparr>pt_parent := Some par\<rparr>);
     n \<leftarrow> h p;
     case pt_prev n of None \<Rightarrow> Some (h, p) | Some q \<Rightarrow> set_parents_back h q par }"

definition play_tree_set_parent :: "pt_heap \<Rightarrow> nat \<Rightarrow> nat \<Rightarrow> pt_heap option" where
  "play_tree_set_parent h pt par = do {
     n \<leftarrow> h pt;
     h \<leftarrow> upd_opt h (pt_parent n) (\<lambda>m. m\<lparr>pt_child := None\<rparr>);
     h \<leftarrow> set_parents h (Some pt) (Some par);
     n \<leftarrow> h pt;
     case pt_prev n of
       Some q \<Rightarrow> do { (h, first) \<leftarrow> set_parents_back h q par;
                     upd h par (\<lambda>m. m\<lparr>pt_child := Some first\<rparr>) }
     | None \<Rightarrow> upd h par (\<lambda>m. m\<lparr>pt_child := Some pt\<rparr>) }"

subsection \<open>Files and parameters\<close>

definition play_tree_add_file :: "pt_heap \<Rightarrow> nat \<Rightarrow> string \<Rightarrow> pt_heap option" where
  "play_tree_add_file h pt fl = upd h pt (\<lambda>n.
     if entry_type n \<noteq> PLAY_TREE_ENTRY_NODE \<and> entry_type n \<noteq> PLAY_TREE_ENTRY_FILE then n
     else n\<lparr>pt_files := pt_files n @ [fl], entry_type := PLAY_TREE_ENTRY_FILE\<rparr>)"

text \<open>The last index of an element that satisfies \<open>P\<close>, as a search that does not stop finds it.\<close>

fun last_index :: "('a \<Rightarrow> bool) \<Rightarrow> 'a list \<Rightarrow> nat option" where
  "last_index P [] = None"
| "last_index P (x # xs) =
     (case last_index P xs of Some i \<Rightarrow> Some (Suc i) | None \<Rightarrow> if P x then Some 0 else None)"

definition remove_at :: "nat \<Rightarrow> 'a list \<Rightarrow> 'a list" where
  "remove_at i xs = take i xs @ drop (Suc i) xs"

text \<open>The files and the parameters are scanned without a test for \<^verbatim>\<open>NULL\<close>.\<close>

definition play_tree_remove_file :: "pt_heap \<Rightarrow> nat \<Rightarrow> string \<Rightarrow> (int \<times> pt_heap) option" where
  "play_tree_remove_file h pt fl = do {
     n \<leftarrow> h pt;
     if pt_files n = [] then None
     else case last_index (\<lambda>x. x = fl) (pt_files n) of
       None \<Rightarrow> Some (0, h)
     | Some i \<Rightarrow> Some (1, h(pt \<mapsto> n\<lparr>pt_files := remove_at i (pt_files n)\<rparr>)) }"

definition play_tree_set_param :: "pt_heap \<Rightarrow> nat \<Rightarrow> string \<Rightarrow> string option \<Rightarrow> pt_heap option" where
  "play_tree_set_param h pt nm val =
     upd h pt (\<lambda>n. n\<lparr>pt_params := pt_params n @ [(nm, val)]\<rparr>)"

definition play_tree_unset_param :: "pt_heap \<Rightarrow> nat \<Rightarrow> string \<Rightarrow> (int \<times> pt_heap) option" where
  "play_tree_unset_param h pt nm = do {
     n \<leftarrow> h pt;
     if pt_params n = [] then None
     else case last_index (\<lambda>(x, _). strcaseeq x nm) (pt_params n) of
       None \<Rightarrow> Some (0, h)
     | Some i \<Rightarrow> Some (1, h(pt \<mapsto> n\<lparr>pt_params := remove_at i (pt_params n)\<rparr>)) }"

text \<open>
  The parameters are copied one at a time while \<^verbatim>\<open>src\<close> is read, which when both are the same item
  reads the copies as well: then the loop does not end.
\<close>

definition play_tree_set_params_from :: "pt_heap \<Rightarrow> nat \<Rightarrow> nat \<Rightarrow> pt_heap option" where
  "play_tree_set_params_from h dest src = do {
     s \<leftarrow> h src;
     if pt_params s = [] then Some h
     else if dest = src then None
     else upd h dest (\<lambda>d. d\<lparr>pt_params := pt_params d @ pt_params s,
                           pt_flags := (if pt_flags s AND PLAY_TREE_RND \<noteq> 0
                                        then pt_flags d OR PLAY_TREE_RND else pt_flags d)\<rparr>) }"

section \<open>Validity and cleaning up\<close>

text \<open>\<^verbatim>\<open>play_tree_is_valid\<close> on an item and the siblings after it: is one of them valid?\<close>

partial_function (option) any_valid :: "pt_heap \<Rightarrow> nat option \<Rightarrow> bool option" where
  "any_valid h it =
     (case it of None \<Rightarrow> Some False
      | Some p \<Rightarrow> do {
          n \<leftarrow> h p;
          v \<leftarrow> (if entry_type n \<noteq> PLAY_TREE_ENTRY_NODE then Some True else any_valid h (pt_child n));
          if v then Some True else any_valid h (pt_next n) })"

definition play_tree_is_valid :: "pt_heap \<Rightarrow> nat \<Rightarrow> bool option" where
  "play_tree_is_valid h p = do {
     n \<leftarrow> h p;
     if entry_type n \<noteq> PLAY_TREE_ENTRY_NODE then Some True else any_valid h (pt_child n) }"

text \<open>The first loop of \<^verbatim>\<open>play_tree_cleanup\<close>, which removes the invalid children.\<close>

partial_function (option) remove_invalid ::
  "pt_heap \<Rightarrow> nat option \<Rightarrow> nat option \<Rightarrow> (nat option \<times> pt_heap) option" where
  "remove_invalid h it first =
     (case it of None \<Rightarrow> Some (first, h)
      | Some tmp \<Rightarrow> do {
          n \<leftarrow> h tmp;
          v \<leftarrow> play_tree_is_valid h tmp;
          if v then remove_invalid h (pt_next n) first
          else do { h \<leftarrow> play_tree_remove h tmp True True;
                    remove_invalid h (pt_next n) (if Some tmp = first then pt_next n else first) } })"

text \<open>\<^verbatim>\<open>play_tree_cleanup\<close> of an item and the siblings after it, as its second loop calls it.\<close>

partial_function (option) cleanup_list :: "pt_heap \<Rightarrow> nat option \<Rightarrow> pt_heap option" where
  "cleanup_list h it =
     (case it of None \<Rightarrow> Some h
      | Some tmp \<Rightarrow> do {
          n \<leftarrow> h tmp;
          v \<leftarrow> play_tree_is_valid h tmp;
          h \<leftarrow> (if \<not> v then play_tree_remove h tmp True True
               else do { (first, h) \<leftarrow> remove_invalid h (pt_child n) (pt_child n);
                         cleanup_list h first });
          cleanup_list h (pt_next n) })"

definition play_tree_cleanup :: "pt_heap \<Rightarrow> nat \<Rightarrow> (nat option \<times> pt_heap) option" where
  "play_tree_cleanup h pt = do {
     v \<leftarrow> play_tree_is_valid h pt;
     if \<not> v then do { h \<leftarrow> play_tree_remove h pt True True; Some (None, h) }
     else do {
       n \<leftarrow> h pt;
       (first, h) \<leftarrow> remove_invalid h (pt_child n) (pt_child n);
       h \<leftarrow> cleanup_list h first;
       Some (Some pt, h) } }"

subsection \<open>Flags\<close>

definition clear_flags :: "c_int \<Rightarrow> play_tree \<Rightarrow> play_tree" where
  "clear_flags fl n = n\<lparr>pt_flags := pt_flags n AND NOT fl\<rparr>"

definition deeper :: "int \<Rightarrow> int" where
  "deeper deep = (if deep > 0 then deep - 1 else deep)"

text \<open>\<^verbatim>\<open>play_tree_unset_flag\<close> on an item and the siblings after it.\<close>

partial_function (option) unset_flag_list ::
  "c_int \<Rightarrow> int \<Rightarrow> nat option \<Rightarrow> pt_heap \<Rightarrow> pt_heap option" where
  "unset_flag_list fl deep it h =
     (case it of None \<Rightarrow> Some h
      | Some p \<Rightarrow> do {
          h \<leftarrow> upd h p (clear_flags fl);
          n \<leftarrow> h p;
          h \<leftarrow> (if deep \<noteq> 0 \<and> pt_child n \<noteq> None
               then unset_flag_list fl (deeper deep) (pt_child n) h
               else Some h);
          n \<leftarrow> h p;
          unset_flag_list fl deep (pt_next n) h })"

definition play_tree_unset_flag :: "pt_heap \<Rightarrow> nat \<Rightarrow> c_int \<Rightarrow> int \<Rightarrow> pt_heap option" where
  "play_tree_unset_flag h p fl deep = do {
     h \<leftarrow> upd h p (clear_flags fl);
     n \<leftarrow> h p;
     if deep \<noteq> 0 \<and> pt_child n \<noteq> None
     then unset_flag_list fl (deeper deep) (pt_child n) h
     else Some h }"

section \<open>The iterator\<close>

record 'c config_ops =
  cfg_push :: "'c \<Rightarrow> 'c option"
  cfg_set :: "'c \<Rightarrow> string \<Rightarrow> string option \<Rightarrow> (int \<times> 'c) option"
  cfg_pop :: "'c \<Rightarrow> 'c option"

text \<open>
  \<open>status_stack\<close> has its top first; its length is \<^verbatim>\<open>stack_size\<close>. \<open>it_rands\<close> are the choices the calls
  of \<^verbatim>\<open>rand\<close> amount to (0 when there are no more).
\<close>

record 'c pt_iter =
  it_root :: nat
  it_tree :: "nat option"
  it_config :: "'c option"
  it_loop :: int
  it_file :: int
  it_num_files :: int
  entry_pushed :: bool
  it_rnd :: bool
  status_stack :: "int list"
  it_rands :: "nat list"

definition PLAY_TREE_ITER_ERROR :: int where "PLAY_TREE_ITER_ERROR = 0"
definition PLAY_TREE_ITER_ENTRY :: int where "PLAY_TREE_ITER_ENTRY = 1"
definition PLAY_TREE_ITER_NODE :: int where "PLAY_TREE_ITER_NODE = 2"
definition PLAY_TREE_ITER_END :: int where "PLAY_TREE_ITER_END = 3"

lemmas iter_consts = PLAY_TREE_ITER_ERROR_def PLAY_TREE_ITER_ENTRY_def PLAY_TREE_ITER_NODE_def
  PLAY_TREE_ITER_END_def PLAY_TREE_ENTRY_NODE_def PLAY_TREE_ENTRY_FILE_def

text \<open>An option that cannot be set is only reported; its error is not an error of the iterator.\<close>

fun set_params :: "'c config_ops \<Rightarrow> (string \<times> string option) list \<Rightarrow> 'c \<Rightarrow> 'c option" where
  "set_params ops [] c = Some c"
| "set_params ops ((nm, val) # ps) c = do { (e, c) \<leftarrow> cfg_set ops c nm val; set_params ops ps c }"

definition play_tree_iter_push_params ::
  "'c config_ops \<Rightarrow> pt_heap \<Rightarrow> 'c pt_iter \<Rightarrow> 'c pt_iter option" where
  "play_tree_iter_push_params ops h i = do {
     t \<leftarrow> it_tree i;
     n \<leftarrow> h t;
     c \<leftarrow> it_config i;
     c \<leftarrow> cfg_push ops c;
     if pt_params n = [] then Some (i\<lparr>it_config := Some c\<rparr>)
     else do {
       c \<leftarrow> set_params ops (pt_params n) c;
       Some (i\<lparr>it_config := Some c,
               entry_pushed := (if pt_child n = None then True else entry_pushed i)\<rparr>) } }"

definition play_tree_iter_new ::
  "pt_heap \<Rightarrow> nat \<Rightarrow> 'c option \<Rightarrow> nat list \<Rightarrow> 'c pt_iter option option" where
  "play_tree_iter_new h pt config rands = do {
     v \<leftarrow> play_tree_is_valid h pt;
     if \<not> v then Some None
     else do {
       n \<leftarrow> h pt;
       lp \<leftarrow> (case pt_parent n of None \<Rightarrow> Some 0 | Some p \<Rightarrow> do { pn \<leftarrow> h p; Some (pt_loop pn) });
       Some (Some \<lparr>it_root = pt, it_tree = None, it_config = config, it_loop = lp, it_file = 0,
                   it_num_files = 0, entry_pushed = False, it_rnd = False, status_stack = [],
                   it_rands = rands\<rparr>) } }"

definition play_tree_iter_new_copy :: "'c pt_iter \<Rightarrow> 'c pt_iter" where
  "play_tree_iter_new_copy old = old\<lparr>it_config := None\<rparr>"

definition not_played :: "play_tree \<Rightarrow> bool" where
  "not_played n \<longleftrightarrow> pt_flags n AND PLAY_TREE_RND_PLAYED = 0"

text \<open>
  \<^verbatim>\<open>play_tree_rnd_step\<close>: the siblings not played yet are counted and one of them is chosen. The
  random number scaled by the count is the argument \<open>r\<close>; it can reach the count by rounding, and
  then nothing is found.
\<close>

partial_function (option) unplayed :: "pt_heap \<Rightarrow> nat option \<Rightarrow> nat list option" where
  "unplayed h it =
     (case it of None \<Rightarrow> Some []
      | Some p \<Rightarrow> do { n \<leftarrow> h p; ps \<leftarrow> unplayed h (pt_next n);
                       Some (if not_played n then p # ps else ps) })"

definition play_tree_rnd_step :: "pt_heap \<Rightarrow> nat \<Rightarrow> nat \<Rightarrow> nat option option" where
  "play_tree_rnd_step h pt r = do {
     head \<leftarrow> first_sibling h pt;
     ps \<leftarrow> unplayed h (Some head);
     Some (if r < length ps then Some (ps ! r) else None) }"

text \<open>At most \<open>k\<close> steps along a link: where they end and how many were not made.\<close>

fun advance ::
  "pt_heap \<Rightarrow> (play_tree \<Rightarrow> nat option) \<Rightarrow> nat \<Rightarrow> nat option \<Rightarrow> (nat option \<times> nat) option" where
  "advance h f 0 p = Some (p, 0)"
| "advance h f (Suc k) None = Some (None, Suc k)"
| "advance h f (Suc k) (Some q) = do { n \<leftarrow> h q; advance h f k (f n) }"

text \<open>
  \<^verbatim>\<open>play_tree_iter_step\<close>, \<^verbatim>\<open>play_tree_iter_up_step\<close> and \<^verbatim>\<open>play_tree_iter_down_step\<close> call each other,
  always as the last thing they do. The body of each is a function to what it ends in: a return or
  a call.
\<close>

datatype iter_call = Step int | Up int | Down int

datatype 'c iter_end = Return int pt_heap "'c pt_iter" | Call iter_call pt_heap "'c pt_iter"

text \<open>The parts of a step before it decides: leaving the entry, and choosing the item to look at.\<close>

definition leave_entry :: "'c config_ops \<Rightarrow> 'c pt_iter \<Rightarrow> 'c pt_iter option" where
  "leave_entry ops i =
     (case it_config i of
        Some c \<Rightarrow> if entry_pushed i
                  then do { c \<leftarrow> cfg_pop ops c; Some (i\<lparr>entry_pushed := False, it_config := Some c\<rparr>) }
                  else Some i
      | None \<Rightarrow> Some i)"

definition choose_item ::
  "pt_heap \<Rightarrow> 'c pt_iter \<Rightarrow> int \<Rightarrow> nat \<Rightarrow> (nat option \<times> int \<times> 'c pt_iter) option" where
  "choose_item h i d t =
     (if it_rnd i then do {
        pt \<leftarrow> play_tree_rnd_step h t (case it_rands i of [] \<Rightarrow> 0 | r # _ \<Rightarrow> r);
        Some (pt, d, i\<lparr>it_rands := tl (it_rands i)\<rparr>) }
      else if d > 0 then do {
        (pt, k) \<leftarrow> advance h pt_next (nat d) (Some t);
        Some (pt, if k \<noteq> 0 then int k else 1, i) }
      else if d < 0 then do {
        (pt, k) \<leftarrow> advance h pt_prev (nat (- d)) (Some t);
        Some (pt, if k \<noteq> 0 then - int k else -1, i) }
      else Some (Some t, d, i))"

definition parent_is_rnd :: "pt_heap \<Rightarrow> nat \<Rightarrow> bool option" where
  "parent_is_rnd h t = do {
     n \<leftarrow> h t;
     case pt_parent n of None \<Rightarrow> Some False
     | Some p \<Rightarrow> do { pn \<leftarrow> h p; Some (pt_flags pn AND PLAY_TREE_RND \<noteq> 0) } }"

text \<open>Whether the items of the parent are to be played again, and the iterator if they are.\<close>

definition must_loop :: "int \<Rightarrow> int \<Rightarrow> int \<Rightarrow> bool" where
  "must_loop parent_loop lp d \<longleftrightarrow>
     parent_loop \<noteq> 0 \<and> (d > 0 \<and> lp \<noteq> 0 \<or> d < 0 \<and> (lp < 0 \<or> lp < parent_loop))"

definition next_loop :: "int \<Rightarrow> int \<Rightarrow> int \<Rightarrow> int" where
  "next_loop parent_loop lp d =
     (if d > 0 then (if lp > 0 then lp - 1 else lp)
      else if d < 0 then (if lp \<ge> 0 \<and> lp < parent_loop then lp + 1 else lp)
      else lp)"

text \<open>The end of a list of siblings: play them again, or go up.\<close>

definition no_next :: "pt_heap \<Rightarrow> 'c pt_iter \<Rightarrow> int \<Rightarrow> nat \<Rightarrow> 'c iter_end option" where
  "no_next h i d t =
     (if it_rnd i then do {
        root \<leftarrow> h (it_root i);
        if pt_loop root = 0 then Some (Return PLAY_TREE_ITER_END h i)
        else do {
          h \<leftarrow> play_tree_unset_flag h (it_root i) PLAY_TREE_RND_PLAYED (-1);
          h \<leftarrow> upd h (it_root i)
                 (\<lambda>n. n\<lparr>pt_loop := (if pt_loop n > 0 then pt_loop n - 1 else pt_loop n)\<rparr>);
          Some (Call (Step 0) h i) } }
      else do {
        n \<leftarrow> h t;
        case pt_parent n of
          None \<Rightarrow> Some (Call (Up d) h i)
        | Some p \<Rightarrow> do {
            pn \<leftarrow> h p;
            if must_loop (pt_loop pn) (it_loop i) d then do {
              q \<leftarrow> (if d > 0 then first_sibling h t else last_sibling h t);
              Some (Call (Step 0) h
                (i\<lparr>it_loop := next_loop (pt_loop pn) (it_loop i) d, it_tree := Some q\<rparr>)) }
            else Some (Call (Up d) h i) } })"

text \<open>An item to look at: follow its children, pass over it, or stop on it.\<close>

definition look_at ::
  "'c config_ops \<Rightarrow> bool \<Rightarrow> pt_heap \<Rightarrow> 'c pt_iter \<Rightarrow> int \<Rightarrow> nat \<Rightarrow> 'c iter_end option" where
  "look_at ops with_nodes h i d q = do {
     n \<leftarrow> h q;
     children \<leftarrow> (case pt_child n of None \<Rightarrow> Some False | Some c \<Rightarrow> play_tree_is_valid h c);
     if children then
       Some (if with_nodes then Return PLAY_TREE_ITER_NODE h (i\<lparr>it_tree := Some q\<rparr>)
             else Call (Down d) h (i\<lparr>it_tree := Some q\<rparr>))
     else do {
       v \<leftarrow> play_tree_is_valid h q;
       if \<not> v then
         Some (if d = 0 then Return PLAY_TREE_ITER_ERROR h i else Call (Step d) h i)
       else if pt_files n = [] then None
       else (let i = i\<lparr>it_tree := Some q, it_num_files := int (length (pt_files n))\<rparr>
             in if it_config i = None then Some (Return PLAY_TREE_ITER_ENTRY h i)
                else do {
                  i \<leftarrow> play_tree_iter_push_params ops h i;
                  h \<leftarrow> (if it_rnd i
                       then upd h q (\<lambda>n. n\<lparr>pt_flags := pt_flags n OR PLAY_TREE_RND_PLAYED\<rparr>)
                       else Some h);
                  Some (Return PLAY_TREE_ITER_ENTRY h (i\<lparr>entry_pushed := True\<rparr>)) }) } }"

definition iter_step_body ::
  "'c config_ops \<Rightarrow> bool \<Rightarrow> int \<Rightarrow> pt_heap \<Rightarrow> 'c pt_iter \<Rightarrow> 'c iter_end option" where
  "iter_step_body ops with_nodes d h i =
     (case it_tree i of
        None \<Rightarrow> Some (Call (Step 0) h (i\<lparr>it_tree := Some (it_root i)\<rparr>))
      | Some t \<Rightarrow> do {
          i \<leftarrow> leave_entry ops i;
          rnd \<leftarrow> parent_is_rnd h t;
          (pt, d, i) \<leftarrow> choose_item h (i\<lparr>it_rnd := rnd, it_file := -1\<rparr>) d t;
          case pt of None \<Rightarrow> no_next h i d t | Some q \<Rightarrow> look_at ops with_nodes h i d q })"

definition iter_up_body ::
  "'c config_ops \<Rightarrow> int \<Rightarrow> pt_heap \<Rightarrow> 'c pt_iter \<Rightarrow> 'c iter_end option" where
  "iter_up_body ops d h i = do {
     t \<leftarrow> it_tree i;
     n \<leftarrow> h t;
     root \<leftarrow> h (it_root i);
     let i = i\<lparr>it_file := -1\<rparr>;
     if pt_parent n = pt_parent root then Some (Return PLAY_TREE_ITER_END h i)
     else case status_stack i of
       [] \<Rightarrow> None
     | l # st \<Rightarrow> do {
         p \<leftarrow> pt_parent n;
         let i = i\<lparr>status_stack := st, it_loop := l, it_tree := Some p\<rparr>;
         case it_config i of
           None \<Rightarrow> Some (Call (Step d) h i)
         | Some c \<Rightarrow> do {
             c \<leftarrow> cfg_pop ops c;
             h \<leftarrow> (if it_rnd i
                  then upd h p (\<lambda>n. n\<lparr>pt_flags := pt_flags n OR PLAY_TREE_RND_PLAYED\<rparr>)
                  else Some h);
             Some (Call (Step d) h (i\<lparr>it_config := Some c\<rparr>)) } } }"

definition iter_down_body ::
  "'c config_ops \<Rightarrow> int \<Rightarrow> pt_heap \<Rightarrow> 'c pt_iter \<Rightarrow> 'c iter_end option" where
  "iter_down_body ops d h i = do {
     let i = i\<lparr>it_file := -1\<rparr>;
     i \<leftarrow> (if it_config i \<noteq> None then play_tree_iter_push_params ops h i else Some i);
     t \<leftarrow> it_tree i;
     n \<leftarrow> h t;
     c \<leftarrow> pt_child n;
     c \<leftarrow> (if d \<ge> 0 then Some c else last_sibling h c);
     Some (Call (Step 0) h
       (i\<lparr>status_stack := it_loop i # status_stack i, it_loop := pt_loop n - 1,
          it_tree := Some c\<rparr>)) }"

fun iter_body ::
  "'c config_ops \<Rightarrow> bool \<Rightarrow> iter_call \<Rightarrow> pt_heap \<Rightarrow> 'c pt_iter \<Rightarrow> 'c iter_end option" where
  "iter_body ops with_nodes (Step d) h i = iter_step_body ops with_nodes d h i"
| "iter_body ops with_nodes (Up d) h i = iter_up_body ops d h i"
| "iter_body ops with_nodes (Down d) h i = iter_down_body ops d h i"

definition call_of :: "'c iter_end \<Rightarrow> (iter_call \<times> pt_heap \<times> 'c pt_iter) option" where
  "call_of r = (case r of Return _ _ _ \<Rightarrow> None | Call c h i \<Rightarrow> Some (c, h, i))"

definition result_of :: "'c iter_end \<Rightarrow> (int \<times> pt_heap \<times> 'c pt_iter) option" where
  "result_of r = (case r of Return e h i \<Rightarrow> Some (e, h, i) | Call _ _ _ \<Rightarrow> None)"

partial_function (option) iter_go ::
  "'c config_ops \<Rightarrow> bool \<Rightarrow> iter_call \<Rightarrow> pt_heap \<Rightarrow> 'c pt_iter \<Rightarrow> (int \<times> pt_heap \<times> 'c pt_iter) option"
where
  "iter_go ops with_nodes call h i = do {
     r \<leftarrow> iter_body ops with_nodes call h i;
     case call_of r of
       None \<Rightarrow> result_of r
     | Some (call, h, i) \<Rightarrow> iter_go ops with_nodes call h i }"

definition play_tree_iter_step ::
  "'c config_ops \<Rightarrow> pt_heap \<Rightarrow> 'c pt_iter \<Rightarrow> int \<Rightarrow> bool \<Rightarrow> (int \<times> pt_heap \<times> 'c pt_iter) option" where
  "play_tree_iter_step ops h i d with_nodes = iter_go ops with_nodes (Step d) h i"

definition play_tree_iter_up_step ::
  "'c config_ops \<Rightarrow> pt_heap \<Rightarrow> 'c pt_iter \<Rightarrow> int \<Rightarrow> bool \<Rightarrow> (int \<times> pt_heap \<times> 'c pt_iter) option" where
  "play_tree_iter_up_step ops h i d with_nodes = iter_go ops with_nodes (Up d) h i"

definition play_tree_iter_down_step ::
  "'c config_ops \<Rightarrow> pt_heap \<Rightarrow> 'c pt_iter \<Rightarrow> int \<Rightarrow> bool \<Rightarrow> (int \<times> pt_heap \<times> 'c pt_iter) option" where
  "play_tree_iter_down_step ops h i d with_nodes = iter_go ops with_nodes (Down d) h i"

text \<open>The outer \<open>None\<close> is a crash, the inner one the result \<^verbatim>\<open>NULL\<close>.\<close>

definition play_tree_iter_get_file ::
  "pt_heap \<Rightarrow> 'c pt_iter \<Rightarrow> int \<Rightarrow> (string option \<times> 'c pt_iter) option" where
  "play_tree_iter_get_file h i d = do {
     t \<leftarrow> it_tree i;
     n \<leftarrow> h t;
     if pt_files n = [] then Some (None, i)
     else if it_file i \<ge> it_num_files i - 1 \<or> it_file i < -1 then Some (None, i)
     else (let f = (if d > 0 then (if it_file i \<ge> it_num_files i - 1 then 0 else it_file i + 1)
                    else if d < 0 then (if it_file i \<le> 0 then it_num_files i - 1 else it_file i - 1)
                    else it_file i)
           in if 0 \<le> f \<and> nat f < length (pt_files n)
              then Some (Some (pt_files n ! nat f), i\<lparr>it_file := f\<rparr>) else None) }"

section \<open>The high-level interface\<close>

definition pt_iter_create ::
  "'c config_ops \<Rightarrow> pt_heap \<Rightarrow> nat \<Rightarrow> 'c option \<Rightarrow> nat list \<Rightarrow> ('c pt_iter option \<times> pt_heap) option" where
  "pt_iter_create ops h pt config rands = do {
     (pt, h) \<leftarrow> play_tree_cleanup h pt;
     case pt of None \<Rightarrow> Some (None, h)
     | Some p \<Rightarrow> do {
         r \<leftarrow> play_tree_iter_new h p config rands;
         case r of None \<Rightarrow> Some (None, h)
         | Some i \<Rightarrow> do {
             (res, h, i) \<leftarrow> play_tree_iter_step ops h i 0 False;
             Some (if res = PLAY_TREE_ITER_ENTRY then Some i else None, h) } } }"

partial_function (option) get_file_loop ::
  "'c config_ops \<Rightarrow> pt_heap \<Rightarrow> 'c pt_iter \<Rightarrow> int \<Rightarrow> (string option \<times> pt_heap \<times> 'c pt_iter) option" where
  "get_file_loop ops h i d = do {
     (res, h, i) \<leftarrow> play_tree_iter_step ops h i d False;
     if res \<noteq> PLAY_TREE_ITER_ENTRY then Some (None, h, i)
     else do {
       (r, i) \<leftarrow> play_tree_iter_get_file h i d;
       case r of Some f \<Rightarrow> Some (Some f, h, i) | None \<Rightarrow> get_file_loop ops h i d } }"

definition pt_iter_get_file ::
  "'c config_ops \<Rightarrow> pt_heap \<Rightarrow> 'c pt_iter \<Rightarrow> int \<Rightarrow> (string option \<times> pt_heap \<times> 'c pt_iter) option" where
  "pt_iter_get_file ops h i d = do {
     (r, i) \<leftarrow> play_tree_iter_get_file h i d;
     case r of
       Some f \<Rightarrow> Some (Some f, h, i)
     | None \<Rightarrow> if d \<noteq> 0 then get_file_loop ops h i d else Some (None, h, i) }"

definition pt_iter_insert_entry :: "pt_heap \<Rightarrow> 'c pt_iter \<Rightarrow> nat \<Rightarrow> pt_heap option" where
  "pt_iter_insert_entry h i entry = do {
     pt \<leftarrow> it_tree i;
     h \<leftarrow> play_tree_insert_entry h pt entry;
     play_tree_set_params_from h entry pt }"

definition pt_iter_replace_entry ::
  "pt_heap \<Rightarrow> 'c pt_iter \<Rightarrow> nat \<Rightarrow> (pt_heap \<times> 'c pt_iter) option" where
  "pt_iter_replace_entry h i entry = do {
     pt \<leftarrow> it_tree i;
     h \<leftarrow> pt_iter_insert_entry h i entry;
     h \<leftarrow> play_tree_remove h pt True True;
     Some (h, i\<lparr>it_tree := Some entry\<rparr>) }"

definition pt_add_file :: "pt_heap \<Rightarrow> nat option \<Rightarrow> nat \<Rightarrow> string \<Rightarrow> (nat \<times> pt_heap) option" where
  "pt_add_file h ppt entry filename = do {
     h \<leftarrow> play_tree_add_file (play_tree_new entry h) entry filename;
     (pt, h) \<leftarrow> (case ppt of
        Some pt \<Rightarrow> do { h \<leftarrow> play_tree_append_entry h pt entry; Some (pt, h) }
      | None \<Rightarrow> Some (entry, h));
     h \<leftarrow> play_tree_set_params_from h entry pt;
     Some (pt, h) }"

definition pt_iter_goto_head ::
  "'c config_ops \<Rightarrow> pt_heap \<Rightarrow> 'c pt_iter \<Rightarrow> (pt_heap \<times> 'c pt_iter) option" where
  "pt_iter_goto_head ops h i = do {
     (res, h, i) \<leftarrow> play_tree_iter_step ops h (i\<lparr>it_tree := Some (it_root i)\<rparr>) 0 False;
     Some (h, i) }"

text \<open>
  Iterators are freed in a heap of their own. \<^verbatim>\<open>pt_iter_destroy\<close> gets the address of the caller's
  pointer, and its last assignment changes only its own copy of that address: the caller's pointer,
  the second result, still points at the freed iterator.
\<close>

definition play_tree_iter_free ::
  "(nat \<Rightarrow> 'c pt_iter option) \<Rightarrow> nat option \<Rightarrow> (nat \<Rightarrow> 'c pt_iter option)" where
  "play_tree_iter_free its iter = (case iter of None \<Rightarrow> its | Some q \<Rightarrow> its(q := None))"

definition pt_iter_destroy ::
  "(nat \<Rightarrow> 'c pt_iter option) \<Rightarrow> nat option \<Rightarrow> (nat \<Rightarrow> 'c pt_iter option) \<times> nat option" where
  "pt_iter_destroy its ptr = (case ptr of None \<Rightarrow> (its, ptr) | Some q \<Rightarrow> (its(q := None), ptr))"

end
