(* ===== verification/Play_Iter.thy ===== *)
theory Play_Iter
  imports Play_Tree
begin

text \<open>
  What the iterator of the play tree does on a clean tree: the playing order of an abstract tree, what
  the iterator asks of the configuration, and that stepping follows both. The configuration is used
  through the locale \<open>config_stack\<close>, which the contexts of \<^verbatim>\<open>m_config.c\<close> satisfy.
\<close>

section \<open>Trees in the heap\<close>

text \<open>
  The abstract tree: addresses with the list of children. \<open>trees\<close> says that the heap holds a list of
  trees as siblings, with all their links right.
\<close>

datatype ptree = PT (pid: nat) (kids: "ptree list")

fun hd_opt :: "'a list \<Rightarrow> 'a option" where
  "hd_opt [] = None"
| "hd_opt (x # xs) = Some x"

fun trees :: "pt_heap \<Rightarrow> nat option \<Rightarrow> nat option \<Rightarrow> ptree list \<Rightarrow> bool" where
  "trees h par pv [] \<longleftrightarrow> True"
| "trees h par pv (PT p cs # ts) \<longleftrightarrow>
     (case h p of None \<Rightarrow> False
      | Some n \<Rightarrow> pt_parent n = par \<and> pt_prev n = pv \<and> pt_next n = map_option pid (hd_opt ts) \<and>
          pt_child n = map_option pid (hd_opt cs)) \<and>
     trees h (Some p) None cs \<and> trees h par (Some p) ts"

lemma trees_nth:
  "trees h par pv ts \<Longrightarrow> i < length ts \<Longrightarrow>
   \<exists>n. h (pid (ts ! i)) = Some n \<and> pt_parent n = par \<and>
       pt_prev n = (if i = 0 then pv else Some (pid (ts ! (i - 1)))) \<and>
       pt_next n = (if Suc i < length ts then Some (pid (ts ! Suc i)) else None)"
proof (induction h par pv ts arbitrary: i rule: trees.induct)
  case (2 h par pv p cs ts)
  show ?case
  proof (cases i)
    case 0
    with 2(3) show ?thesis by (cases ts) (auto split: option.splits)
  next
    case (Suc j)
    with 2(3,4) 2(2) [of j] show ?thesis by (cases j) auto
  qed
qed simp

lemma trees_first_sibling:
  "trees h par None ts \<Longrightarrow> i < length ts \<Longrightarrow> first_sibling h (pid (ts ! i)) = Some (pid (ts ! 0))"
proof (induction i)
  case 0
  with trees_nth [OF 0] show ?case by (subst first_sibling.simps) auto
next
  case (Suc i)
  with trees_nth [OF Suc(2,3)] show ?case by (subst first_sibling.simps) auto
qed

lemma trees_last:
  assumes "trees h par pv ts" and "ts \<noteq> []"
  obtains n where "h (pid (last ts)) = Some n" "pt_next n = None" "pt_parent n = par"
  using trees_nth [OF assms(1), of "length ts - 1"] assms(2) by (auto simp: last_conv_nth)

text \<open>An item that can be played, and a node with children that all can.\<close>

fun playable :: "pt_heap \<Rightarrow> ptree \<Rightarrow> bool" where
  "playable h (PT p cs) \<longleftrightarrow>
     (case h p of None \<Rightarrow> False
      | Some n \<Rightarrow> (if cs = [] then entry_type n \<noteq> PLAY_TREE_ENTRY_NODE \<and> pt_files n \<noteq> []
                   else entry_type n = PLAY_TREE_ENTRY_NODE \<and> pt_loop n \<ge> 0 \<and>
                        pt_flags n AND PLAY_TREE_RND = 0)) \<and>
     list_all (playable h) cs"

text \<open>
  The playing order: an item's children one after the other, as often as its loop count says (once
  for 0 and 1). The second function is what the iterator asks of the configuration meanwhile.
\<close>

definition loops :: "pt_heap \<Rightarrow> nat \<Rightarrow> nat" where
  "loops h p = (case h p of None \<Rightarrow> 0 | Some n \<Rightarrow> max 1 (nat (pt_loop n)))"

fun play_order :: "pt_heap \<Rightarrow> ptree \<Rightarrow> nat list" where
  "play_order h (PT p cs) =
     (if cs = [] then [p] else concat (replicate (loops h p) (concat (map (play_order h) cs))))"

definition param_sets :: "pt_heap \<Rightarrow> nat \<Rightarrow> cfg_op list" where
  "param_sets h p = (case h p of None \<Rightarrow> [] | Some n \<Rightarrow> map (\<lambda>(nm, v). Op_set nm v) (pt_params n))"

fun config_calls :: "pt_heap \<Rightarrow> ptree \<Rightarrow> cfg_op list" where
  "config_calls h (PT p cs) =
     Op_push # param_sets h p @
     (if cs = [] then [] else concat (replicate (loops h p) (concat (map (config_calls h) cs)))) @
     [Op_pop]"

fun run_cfg :: "'c config_ops \<Rightarrow> cfg_op list \<Rightarrow> 'c \<Rightarrow> 'c option" where
  "run_cfg ops [] c = Some c"
| "run_cfg ops (Op_push # xs) c = do { c \<leftarrow> cfg_push ops c; run_cfg ops xs c }"
| "run_cfg ops (Op_pop # xs) c = do { c \<leftarrow> cfg_pop ops c; run_cfg ops xs c }"
| "run_cfg ops (Op_set nm v # xs) c = do { (e, c) \<leftarrow> cfg_set ops c nm v; run_cfg ops xs c }"
| "run_cfg ops (Op_check nm v # xs) c = run_cfg ops xs c"

lemma run_cfg_append: "run_cfg ops (xs @ ys) c = Option.bind (run_cfg ops xs c) (run_cfg ops ys)"
proof (induction xs arbitrary: c)
  case (Cons x xs)
  then show ?case
    by (cases x) (auto split: Option.bind_splits)
qed simp

lemma run_cfg_sets:
  "run_cfg ops (map (\<lambda>(nm, v). Op_set nm v) ps) c = set_params ops ps c"
proof (induction ps arbitrary: c)
  case (Cons x ps)
  then show ?case by (cases x; cases "cfg_set ops c (fst x) (snd x)") auto
qed simp

text \<open>Playing everything: the items stepped onto, until a step finds no entry.\<close>

partial_function (option) play_from ::
  "'c config_ops \<Rightarrow> iter_call \<Rightarrow> pt_heap \<Rightarrow> 'c pt_iter \<Rightarrow>
     (nat list \<times> int \<times> pt_heap \<times> 'c pt_iter) option" where
  "play_from ops call h i = do {
     (r, h, i) \<leftarrow> iter_go ops False call h i;
     if r = PLAY_TREE_ITER_ENTRY then do {
       p \<leftarrow> it_tree i;
       (ps, r, h, i) \<leftarrow> play_from ops (Step 1) h i;
       Some (p # ps, r, h, i) }
     else Some ([], r, h, i) }"

lemma play_from_call:
  "iter_body ops False call h i = Some (Call call' h' i') \<Longrightarrow>
   play_from ops call h i = play_from ops call' h' i'"
  by (subst (1 2) play_from.simps, subst iter_go.simps) (simp add: call_of_def)

lemma play_from_entry:
  "iter_body ops False call h i = Some (Return PLAY_TREE_ITER_ENTRY h' i') \<Longrightarrow>
   it_tree i' = Some p \<Longrightarrow>
   play_from ops call h i =
     map_option (\<lambda>(ps, x). (p # ps, x)) (play_from ops (Step 1) h' i')"
  by (subst play_from.simps, subst iter_go.simps)
    (auto simp: call_of_def result_of_def split: Option.bind_splits)

lemma play_from_end:
  "iter_body ops False call h i = Some (Return PLAY_TREE_ITER_END h' i') \<Longrightarrow>
   play_from ops call h i = Some ([], PLAY_TREE_ITER_END, h', i')"
  by (subst play_from.simps, subst iter_go.simps)
    (simp add: call_of_def result_of_def iter_consts)

section \<open>What a clean tree looks like to the iterator\<close>

lemma playable_valid:
  "playable h t \<Longrightarrow> trees h par pv (t # us) \<Longrightarrow> play_tree_is_valid h (pid t) = Some True"
  "list_all (playable h) ts \<Longrightarrow> trees h par pv ts \<Longrightarrow> ts \<noteq> [] \<Longrightarrow> any_valid h (Some (pid (hd ts))) = Some True"
proof -
  have "any_valid h (Some (pid (hd ts))) = Some True"
    if "list_all (playable h) ts" "trees h par pv ts" "ts \<noteq> []" for par pv ts
    using that
  proof (induction h par pv ts rule: trees.induct)
    case (2 h par pv p cs ts)
    then obtain n where n: "h p = Some n" by (auto split: option.splits)
    show ?case
    proof (cases "cs = []")
      case True
      with 2 n show ?thesis by (subst any_valid.simps) auto
    next
      case False
      with 2 n have "any_valid h (pt_child n) = Some True" by (cases cs) auto
      with n show ?thesis by (subst any_valid.simps) auto
    qed
  qed simp
  note any = this
  show "any_valid h (Some (pid (hd ts))) = Some True"
    if "list_all (playable h) ts" "trees h par pv ts" "ts \<noteq> []" using any that by blast
  show "play_tree_is_valid h (pid t) = Some True" if "playable h t" "trees h par pv (t # us)"
  proof (cases t)
    case (PT p cs)
    with that obtain n where n: "h p = Some n" by (auto split: option.splits)
    show ?thesis
    proof (cases "cs = []")
      case True
      with that n PT show ?thesis by (simp add: play_tree_is_valid_def)
    next
      case False
      with that n PT any [of cs "Some p" None] have "any_valid h (pt_child n) = Some True"
        by (cases cs) auto
      with n PT show ?thesis by (simp add: play_tree_is_valid_def)
    qed
  qed
qed

text \<open>The iterator on an item, with nothing pushed for an entry.\<close>

definition on_item ::
  "nat \<Rightarrow> nat list \<Rightarrow> nat \<Rightarrow> 'c \<Rightarrow> int \<Rightarrow> int list \<Rightarrow> int \<Rightarrow> int \<Rightarrow> 'c pt_iter" where
  "on_item root rs p c lp stk f nf =
     \<lparr>it_root = root, it_tree = Some p, it_config = Some c, it_loop = lp, it_file = f,
      it_num_files = nf, entry_pushed = False, it_rnd = False, status_stack = stk, it_rands = rs\<rparr>"

definition orderly :: "pt_heap \<Rightarrow> nat option \<Rightarrow> bool" where
  "orderly h par \<longleftrightarrow>
     (case par of None \<Rightarrow> True
      | Some q \<Rightarrow> (case h q of None \<Rightarrow> False | Some m \<Rightarrow> pt_flags m AND PLAY_TREE_RND = 0))"

definition prepend :: "nat list \<Rightarrow> (nat list \<times> 'x) option \<Rightarrow> (nat list \<times> 'x) option" where
  "prepend ps r = map_option (\<lambda>(qs, x). (ps @ qs, x)) r"

lemma prepend_prepend [simp]: "prepend ps (prepend qs r) = prepend (ps @ qs) r"
  by (cases r) (auto simp: prepend_def)

lemma prepend_Nil [simp]: "prepend [] r = r"
  by (cases r) (auto simp: prepend_def)

lemma play_from_same:
  "iter_body ops False call h i = iter_body ops False call' h' i' \<Longrightarrow>
   play_from ops call h i = play_from ops call' h' i'"
  by (subst (1 2) play_from.simps, subst (1 2) iter_go.simps) simp

lemma parent_is_rnd_orderly:
  "h p = Some n \<Longrightarrow> orderly h (pt_parent n) \<Longrightarrow> parent_is_rnd h p = Some False"
  by (auto simp: parent_is_rnd_def orderly_def split: option.splits)

lemma step_stay:
  assumes "h p = Some n" and "orderly h (pt_parent n)"
  shows "iter_body ops False (Step 0) h (on_item root rs p c lp stk f nf) =
           look_at ops False h (on_item root rs p c lp stk (-1) nf) 0 p"
  using assms
  by (simp add: iter_step_body_def on_item_def leave_entry_def parent_is_rnd_orderly choose_item_def)

lemma step_next:
  assumes "h p = Some n" and "orderly h (pt_parent n)"
  shows "iter_body ops False (Step 1) h (on_item root rs p c lp stk f nf) =
           (case pt_next n of
              Some q \<Rightarrow> look_at ops False h (on_item root rs p c lp stk (-1) nf) 1 q
            | None \<Rightarrow> no_next h (on_item root rs p c lp stk (-1) nf) 1 p)"
  using assms
  by (cases "pt_next n")
    (simp_all add: iter_step_body_def on_item_def leave_entry_def parent_is_rnd_orderly choose_item_def
      numeral_2_eq_2)

lemma step_file_irrelevant:
  "h p = Some n \<Longrightarrow> orderly h (pt_parent n) \<Longrightarrow>
   play_from ops (Step 1) h (on_item root rs p c lp stk f nf) =
   play_from ops (Step 1) h (on_item root rs p c lp stk f' nf)"
  by (rule play_from_same) (simp add: step_next del: iter_body.simps)

text \<open>An item that is a leaf: it is entered, and left when the next step begins.\<close>

lemma look_at_leaf:
  assumes "playable h (PT q [])" and "trees h par pv (PT q [] # ts)"
    and "run_cfg ops (Op_push # param_sets h q) c = Some c1"
  obtains nf' where "\<And>d p. look_at ops False h (on_item root rs p c lp stk (-1) nf) d q =
     Some (Return PLAY_TREE_ITER_ENTRY h ((on_item root rs q c1 lp stk (-1) nf')\<lparr>entry_pushed := True\<rparr>))"
proof -
  obtain n where n: "h q = Some n" "pt_child n = None" "entry_type n \<noteq> PLAY_TREE_ENTRY_NODE" "pt_files n \<noteq> []"
    using assms(1,2) by (auto split: option.splits)
  have v: "play_tree_is_valid h q = Some True" using n by (simp add: play_tree_is_valid_def)
  from assms(3) n(1) obtain c0 where c: "cfg_push ops c = Some c0" "set_params ops (pt_params n) c0 = Some c1"
    by (auto simp: param_sets_def run_cfg_sets bind_eq_Some_conv)
  have "look_at ops False h (on_item root rs p c lp stk (-1) nf) d q =
     Some (Return PLAY_TREE_ITER_ENTRY h ((on_item root rs q c1 lp stk (-1) (int (length (pt_files n))))\<lparr>entry_pushed := True\<rparr>))"
    for d p
    using n v c by (cases "pt_params n")
      (simp_all add: look_at_def on_item_def play_tree_iter_push_params_def Let_def)
  then show ?thesis by (rule that)
qed

lemma leaving:
  assumes "h q = Some n" and "cfg_pop ops c1 = Some c2"
  shows "play_from ops (Step 1) h ((on_item root rs q c1 lp stk f nf)\<lparr>entry_pushed := True\<rparr>) =
         play_from ops (Step 1) h (on_item root rs q c2 lp stk f nf)"
  using assms
  by (intro play_from_same) (simp add: iter_step_body_def on_item_def leave_entry_def)

text \<open>A node: its parameters are set, its loop count becomes the status and its children follow.\<close>

lemma look_at_node:
  assumes "playable h (PT q cs)" and "trees h par pv (PT q cs # ts)" and "cs \<noteq> []"
  shows "look_at ops False h (on_item root rs p c lp stk (-1) nf) d q =
           Some (Call (Down d) h (on_item root rs q c lp stk (-1) nf))"
proof -
  obtain x xs where cs: "cs = x # xs" using assms(3) by (cases cs) auto
  obtain n where n: "h q = Some n" "pt_child n = Some (pid x)"
    using assms(1,2) cs by (auto split: option.splits)
  have "trees h (Some q) None (x # xs)" using assms(2) n cs by simp
  then have "play_tree_is_valid h (pid x) = Some True" using assms(1) cs by (intro playable_valid(1)) auto
  then show ?thesis using n by (simp add: look_at_def on_item_def)
qed

lemma down_node:
  assumes "h q = Some n" and "pt_child n = Some x" and "0 \<le> d"
    and "run_cfg ops (Op_push # param_sets h q) c = Some c1"
  shows "play_from ops (Down d) h (on_item root rs q c lp stk f nf) =
           play_from ops (Step 0) h (on_item root rs x c1 (pt_loop n - 1) (lp # stk) (-1) nf)"
proof (rule play_from_call)
  from assms(1,4) obtain c0 where c: "cfg_push ops c = Some c0" "set_params ops (pt_params n) c0 = Some c1"
    by (auto simp: param_sets_def run_cfg_sets bind_eq_Some_conv)
  then show "iter_body ops False (Down d) h (on_item root rs q c lp stk f nf) =
      Some (Call (Step 0) h (on_item root rs x c1 (pt_loop n - 1) (lp # stk) (-1) nf))"
    using assms(1-3) by (cases "pt_params n")
      (simp_all add: iter_down_body_def on_item_def play_tree_iter_push_params_def Let_def)
qed

lemma up_node:
  assumes "h p = Some n" and "pt_parent n = Some q" and "h root = Some rn" and "pt_parent rn = None"
    and "cfg_pop ops c = Some c1"
  shows "play_from ops (Up 1) h (on_item root rs p c lp (l # stk) f nf) =
           play_from ops (Step 1) h (on_item root rs q c1 l stk (-1) nf)"
  using assms by (intro play_from_call) (simp add: iter_up_body_def on_item_def Let_def)

text \<open>Stepping to a sibling is standing on it and staying there.\<close>

lemma step_sibling:
  assumes t: "trees h par pv (t # u # us)" and u: "playable h u" and par: "orderly h par"
    and cfg: "run_cfg ops (config_calls h u) c = Some c'"
  shows "play_from ops (Step 1) h (on_item root rs (pid t) c lp stk f nf) =
         play_from ops (Step 0) h (on_item root rs (pid u) c lp stk f nf)"
proof -
  obtain p cs q ds where tu: "t = PT p cs" "u = PT q ds" by (cases t; cases u)
  obtain n where n: "h p = Some n" "pt_next n = Some q" "pt_parent n = par" "trees h par (Some p) (u # us)"
    using t tu by (auto split: option.splits)
  obtain m where m: "h q = Some m" "pt_parent m = par" "pt_child m = map_option pid (hd_opt ds)"
    using n(4) tu by (auto split: option.splits)
  have next_: "iter_body ops False (Step 1) h (on_item root rs p c lp stk f nf) =
      look_at ops False h (on_item root rs p c lp stk (-1) nf) 1 q"
    using step_next [of h p n] n par by simp
  have stay: "iter_body ops False (Step 0) h (on_item root rs q c lp stk f nf) =
      look_at ops False h (on_item root rs q c lp stk (-1) nf) 0 q"
    using step_stay [of h q m] m par by simp
  from cfg obtain c1 where c1: "run_cfg ops (Op_push # param_sets h q) c = Some c1"
    by (auto simp: tu run_cfg_append bind_eq_Some_conv)
  show ?thesis
  proof (cases "ds = []")
    case True
    obtain nf' where "\<And>d p. look_at ops False h (on_item root rs p c lp stk (-1) nf) d q =
     Some (Return PLAY_TREE_ITER_ENTRY h ((on_item root rs q c1 lp stk (-1) nf')\<lparr>entry_pushed := True\<rparr>))"
      using look_at_leaf [of h q par "Some p" us ops c c1 root rs lp stk nf] u n(4) c1 unfolding tu True by metis
    then show ?thesis unfolding tu using next_ stay by (intro play_from_same) simp
  next
    case False
    then obtain x where x: "pt_child m = Some x" using m(3) by (cases ds) auto
    note l = look_at_node [OF u [unfolded tu] n(4) [unfolded tu] False]
    show ?thesis unfolding tu ptree.sel
      by (simp add: play_from_call [OF next_ [unfolded l]] play_from_call [OF stay [unfolded l]]
          down_node [OF m(1) x _ c1])
  qed
qed

text \<open>The children of a node, from the first on, as often as the status says.\<close>

lemma play_children:
  assumes pass: "\<And>c c' lp nf. run_cfg ops (concat (map (config_calls h) cs)) c = Some c' \<Longrightarrow>
      \<exists>nf'. play_from ops (Step 0) h (on_item root rs (pid (hd cs)) c lp stk (-1) nf) =
        prepend (concat (map (play_order h) cs))
          (play_from ops (Step 1) h (on_item root rs (pid (last cs)) c' lp stk (-1) nf'))"
    and cs: "trees h (Some q) None cs" "cs \<noteq> []" and q: "h q = Some n" "pt_flags n AND PLAY_TREE_RND = 0"
    and lp: "pt_loop n = 0 \<and> lp = -1 \<and> k = 0 \<or> pt_loop n > 0 \<and> lp = int k"
    and cfg: "run_cfg ops (concat (replicate (Suc k) (concat (map (config_calls h) cs)))) c = Some c'"
  shows "\<exists>nf' lp'. play_from ops (Step 0) h (on_item root rs (pid (hd cs)) c lp stk (-1) nf) =
        prepend (concat (replicate (Suc k) (concat (map (play_order h) cs))))
          (play_from ops (Up 1) h (on_item root rs (pid (last cs)) c' lp' stk (-1) nf'))"
  using lp cfg
proof (induction k arbitrary: lp c nf)
  case (0 lp c nf)
  obtain m where m: "h (pid (last cs)) = Some m" "pt_next m = None" "pt_parent m = Some q"
    using trees_last [OF cs] .
  from pass [of c c' lp nf] 0(2) obtain nf' where
    pass': "play_from ops (Step 0) h (on_item root rs (pid (hd cs)) c lp stk (-1) nf) =
        prepend (concat (map (play_order h) cs))
          (play_from ops (Step 1) h (on_item root rs (pid (last cs)) c' lp stk (-1) nf'))" by auto
  have ord: "orderly h (pt_parent m)" using m(3) q by (simp add: orderly_def)
  have "no_next h (on_item root rs (pid (last cs)) c' lp stk (-1) nf') 1 (pid (last cs)) =
      Some (Call (Up 1) h (on_item root rs (pid (last cs)) c' lp stk (-1) nf'))"
    using m q(1) 0(1) by (auto simp: no_next_def on_item_def must_loop_def)
  then have "play_from ops (Step 1) h (on_item root rs (pid (last cs)) c' lp stk (-1) nf') =
      play_from ops (Up 1) h (on_item root rs (pid (last cs)) c' lp stk (-1) nf')"
    using m(2) by (intro play_from_call) (simp add: step_next [OF m(1) ord] del: iter_body.simps)
  with pass' show ?case by auto
next
  case (Suc k lp c nf)
  obtain m where m: "h (pid (last cs)) = Some m" "pt_next m = None" "pt_parent m = Some q"
    using trees_last [OF cs] .
  from Suc(3) obtain c1 where c1: "run_cfg ops (concat (map (config_calls h) cs)) c = Some c1"
    "run_cfg ops (concat (replicate (Suc k) (concat (map (config_calls h) cs)))) c1 = Some c'"
    by (auto simp: run_cfg_append bind_eq_Some_conv)
  from pass [OF c1(1), of lp nf] obtain nf' where
    pass': "play_from ops (Step 0) h (on_item root rs (pid (hd cs)) c lp stk (-1) nf) =
        prepend (concat (map (play_order h) cs))
          (play_from ops (Step 1) h (on_item root rs (pid (last cs)) c1 lp stk (-1) nf'))" by auto
  have ord: "orderly h (pt_parent m)" using m(3) q by (simp add: orderly_def)
  have lp: "pt_loop n > 0" "lp = int (Suc k)" using Suc(2) by auto
  have first: "first_sibling h (pid (last cs)) = Some (pid (hd cs))"
    using trees_first_sibling [OF cs(1), of "length cs - 1"] cs(2) by (simp add: last_conv_nth hd_conv_nth)
  have "no_next h (on_item root rs (pid (last cs)) c1 lp stk (-1) nf') 1 (pid (last cs)) =
      Some (Call (Step 0) h (on_item root rs (pid (hd cs)) c1 (int k) stk (-1) nf'))"
    using m q(1) lp first by (auto simp: no_next_def on_item_def must_loop_def next_loop_def)
  then have "play_from ops (Step 1) h (on_item root rs (pid (last cs)) c1 lp stk (-1) nf') =
      play_from ops (Step 0) h (on_item root rs (pid (hd cs)) c1 (int k) stk (-1) nf')"
    using m(2) by (intro play_from_call) (simp add: step_next [OF m(1) ord] del: iter_body.simps)
  moreover obtain nf'' lp' where
    "play_from ops (Step 0) h (on_item root rs (pid (hd cs)) c1 (int k) stk (-1) nf') =
        prepend (concat (replicate (Suc k) (concat (map (play_order h) cs))))
          (play_from ops (Up 1) h (on_item root rs (pid (last cs)) c' lp' stk (-1) nf''))"
    using Suc.IH [of "int k" c1 nf'] lp(1) c1(2) by auto
  ultimately show ?case using pass' by (intro exI) simp
qed

text \<open>A list of siblings is played in order, each with what it asks of the configuration.\<close>

lemma play_siblings:
  assumes "trees h par pv ts" and "ts \<noteq> []" and "list_all (playable h) ts" and "orderly h par"
    and "h root = Some rn" and "pt_parent rn = None"
    and "run_cfg ops (concat (map (config_calls h) ts)) c = Some c'"
  shows "\<exists>nf'. play_from ops (Step 0) h (on_item root rs (pid (hd ts)) c lp stk (-1) nf) =
        prepend (concat (map (play_order h) ts))
          (play_from ops (Step 1) h (on_item root rs (pid (last ts)) c' lp stk (-1) nf'))"
  using assms
proof (induction h par pv ts arbitrary: c c' lp stk nf rule: trees.induct)
  case (1 h par pv)
  then show ?case by simp
next
  case (2 h par pv p cs ts)
  obtain n where n: "h p = Some n" "pt_parent n = par" "pt_child n = map_option pid (hd_opt cs)"
    and t: "trees h (Some p) None cs" "trees h par (Some p) ts"
    using 2(3) by (auto split: option.splits)
  obtain c1 where c1: "run_cfg ops (config_calls h (PT p cs)) c = Some c1"
    "run_cfg ops (concat (map (config_calls h) ts)) c1 = Some c'"
    using 2(9) by (auto simp: run_cfg_append bind_eq_Some_conv simp del: config_calls.simps)
  have ord: "orderly h (pt_parent n)" using 2(6) n(2) by simp
  have one: "\<exists>nf'. play_from ops (Step 0) h (on_item root rs p c lp stk (-1) nf) =
      prepend (play_order h (PT p cs)) (play_from ops (Step 1) h (on_item root rs p c1 lp stk (-1) nf'))"
  proof (cases "cs = []")
    case True
    from c1(1) obtain c2 where c2: "run_cfg ops (Op_push # param_sets h p) c = Some c2" "cfg_pop ops c2 = Some c1"
      by (auto simp: True run_cfg_append bind_eq_Some_conv)
    obtain nf' where l: "\<And>d q. look_at ops False h (on_item root rs q c lp stk (-1) nf) d p =
       Some (Return PLAY_TREE_ITER_ENTRY h ((on_item root rs p c2 lp stk (-1) nf')\<lparr>entry_pushed := True\<rparr>))"
      using look_at_leaf [of h p par pv ts ops c c2 root rs lp stk nf] 2(3,5) c2(1) unfolding True
      by (metis list.pred_inject(2))
    have "play_from ops (Step 0) h (on_item root rs p c lp stk (-1) nf) =
        prepend [p] (play_from ops (Step 1) h ((on_item root rs p c2 lp stk (-1) nf')\<lparr>entry_pushed := True\<rparr>))"
      using step_stay [OF n(1) ord, where ops = ops and c = c and f = "-1"] l
      by (subst play_from_entry) (auto simp: on_item_def prepend_def simp del: iter_body.simps)
    then show ?thesis using leaving [of h p n ops c2 c1, OF n(1) c2(2)] True by auto
  next
    case False
    then obtain x where x: "pt_child n = Some x" "x = pid (hd cs)" using n(3) by (cases cs) auto
    have pl: "playable h (PT p cs)" using 2(5) by simp
    then have loop: "pt_loop n \<ge> 0" "pt_flags n AND PLAY_TREE_RND = 0" "list_all (playable h) cs"
      using n(1) False by auto
    define k where "k = nat (pt_loop n) - 1"
    have k: "pt_loop n = 0 \<and> pt_loop n - 1 = -1 \<and> k = 0 \<or> pt_loop n > 0 \<and> pt_loop n - 1 = int k"
      "loops h p = Suc k"
      using loop(1) n(1) by (auto simp: k_def loops_def)
    from c1(1) obtain c2 c3 where c2: "run_cfg ops (Op_push # param_sets h p) c = Some c2"
      "run_cfg ops (concat (replicate (Suc k) (concat (map (config_calls h) cs)))) c2 = Some c3"
      "cfg_pop ops c3 = Some c1"
      using False by (auto simp: run_cfg_append bind_eq_Some_conv k(2) simp del: replicate.simps)
    have pass: "\<exists>nf'. play_from ops (Step 0) h (on_item root rs (pid (hd cs)) c lp' (lp # stk) (-1) nf) =
        prepend (concat (map (play_order h) cs))
          (play_from ops (Step 1) h (on_item root rs (pid (last cs)) c' lp' (lp # stk) (-1) nf'))"
      if "run_cfg ops (concat (map (config_calls h) cs)) c = Some c'" for c c' lp' nf
      using 2(1) [OF t(1) False loop(3) _ 2(7,8) that] n(1) loop(2) by (simp add: orderly_def)
    from play_children [OF pass t(1) False n(1) loop(2) k(1) c2(2), of nf] obtain nf' lp' where
      ch: "play_from ops (Step 0) h (on_item root rs (pid (hd cs)) c2 (pt_loop n - 1) (lp # stk) (-1) nf) =
        prepend (play_order h (PT p cs))
          (play_from ops (Up 1) h (on_item root rs (pid (last cs)) c3 lp' (lp # stk) (-1) nf'))"
      using False k(2) by auto
    obtain m where m: "h (pid (last cs)) = Some m" "pt_next m = None" "pt_parent m = Some p"
      using trees_last [OF t(1) False] .
    have "play_from ops (Step 0) h (on_item root rs p c lp stk (-1) nf) =
        play_from ops (Down 0) h (on_item root rs p c lp stk (-1) nf)"
      by (intro play_from_call)
        (simp add: step_stay [OF n(1) ord] look_at_node [OF pl 2(3) False] del: iter_body.simps)
    also have "\<dots> = play_from ops (Step 0) h (on_item root rs x c2 (pt_loop n - 1) (lp # stk) (-1) nf)"
      using down_node [OF n(1) x(1) _ c2(1)] by simp
    finally show ?thesis using ch up_node [OF m(1,3) 2(7,8) c2(3)] x(2) by auto
  qed
  then obtain nf' where one: "play_from ops (Step 0) h (on_item root rs p c lp stk (-1) nf) =
      prepend (play_order h (PT p cs)) (play_from ops (Step 1) h (on_item root rs p c1 lp stk (-1) nf'))" by blast
  show ?case
  proof (cases ts)
    case Nil
    then show ?thesis using one c1(2) by auto
  next
    case (Cons u us)
    obtain c4 where c4: "run_cfg ops (config_calls h u) c1 = Some c4"
      using c1(2) by (auto simp: Cons run_cfg_append bind_eq_Some_conv simp del: config_calls.simps)
    have "play_from ops (Step 1) h (on_item root rs p c1 lp stk (-1) nf') =
        play_from ops (Step 0) h (on_item root rs (pid u) c1 lp stk (-1) nf')"
      using step_sibling [OF 2(3) [unfolded Cons] _ 2(6) c4] 2(5) by (simp add: Cons)
    moreover have "ts \<noteq> []" "list_all (playable h) ts" using Cons 2(5) by simp_all
    from 2(2) [OF t(2) this 2(6-8) c1(2), of lp stk nf'] obtain nf'' where
      "play_from ops (Step 0) h (on_item root rs (pid (hd ts)) c1 lp stk (-1) nf') =
        prepend (concat (map (play_order h) ts))
          (play_from ops (Step 1) h (on_item root rs (pid (last ts)) c' lp stk (-1) nf''))"
by blast
    ultimately show ?thesis using one Cons by auto
  qed
qed

section \<open>The whole playlist\<close>

lemma play_whole:
  assumes t: "trees h None None [t]" "playable h t" and new: "play_tree_iter_new h (pid t) (Some c) rs = Some (Some i)"
    and cfg: "run_cfg ops (config_calls h t) c = Some c'"
  shows "\<exists>i'. play_from ops (Step 1) h i = Some (play_order h t, PLAY_TREE_ITER_END, h, i') \<and>
              it_config i' = Some c' \<and> status_stack i' = []"
proof -
  let ?p = "pid t"
  obtain n where n: "h ?p = Some n" "pt_parent n = None" "pt_next n = None"
    using t(1) by (cases t) (auto split: option.splits)
  have ord: "orderly h (pt_parent n)" using n(2) by (simp add: orderly_def)
  have i: "i = \<lparr>it_root = ?p, it_tree = None, it_config = Some c, it_loop = 0, it_file = 0,
      it_num_files = 0, entry_pushed = False, it_rnd = False, status_stack = [], it_rands = rs\<rparr>"
    using new n playable_valid(1) [OF t(2,1)] by (simp add: play_tree_iter_new_def)
  have "play_from ops (Step 1) h i = play_from ops (Step 0) h (on_item ?p rs ?p c 0 [] 0 0)"
    by (rule play_from_call) (simp add: i iter_step_body_def on_item_def)
  also have "\<dots> = play_from ops (Step 0) h (on_item ?p rs ?p c 0 [] (-1) 0)"
    by (rule play_from_same) (simp add: step_stay [OF n(1) ord] del: iter_body.simps)
  finally have start: "play_from ops (Step 1) h i = play_from ops (Step 0) h (on_item ?p rs ?p c 0 [] (-1) 0)" .
  obtain nf where p: "play_from ops (Step 0) h (on_item ?p rs ?p c 0 [] (-1) 0) =
      prepend (play_order h t) (play_from ops (Step 1) h (on_item ?p rs ?p c' 0 [] (-1) nf))"
    using play_siblings [of h None None "[t]" ?p n ops c c' rs 0 "[]" 0] t n cfg
    by (auto simp: orderly_def)
  have "play_from ops (Step 1) h (on_item ?p rs ?p c' 0 [] (-1) nf) =
      play_from ops (Up 1) h (on_item ?p rs ?p c' 0 [] (-1) nf)"
    by (rule play_from_call) (simp add: step_next [OF n(1) ord] n(3) del: iter_body.simps, simp add: no_next_def on_item_def n)
  also have "\<dots> = Some ([], PLAY_TREE_ITER_END, h, on_item ?p rs ?p c' 0 [] (-1) nf)"
    using n by (intro play_from_end) (simp add: iter_up_body_def on_item_def Let_def)
  finally show ?thesis using start p by (simp add: prepend_def on_item_def)
qed

lemma nested_append: "nested d xs \<Longrightarrow> nested e ys \<Longrightarrow> nested (d + e) (xs @ ys)"
proof (induction d xs rule: nested.induct)
  case (3 d xs)
  then show ?case by (cases d) auto
qed auto

lemma nested_sets: "nested 0 (param_sets h p)"
proof -
  have "nested 0 (map (\<lambda>(nm, v). Op_set nm v) ps)" for ps :: "(string \<times> string option) list"
    by (induction ps) auto
  then show ?thesis by (simp add: param_sets_def split: option.split)
qed

lemma nested_concat: "(\<And>x. x \<in> set xss \<Longrightarrow> nested 0 x) \<Longrightarrow> nested 0 (concat xss)"
  by (induction xss) (use nested_append [of 0] in fastforce)+

lemma nested_bracket: "nested 0 xs \<Longrightarrow> nested 0 (Op_push # xs @ [Op_pop])"
proof -
  assume "nested 0 xs"
  then have "nested (0 + 1) (xs @ [Op_pop])" by (rule nested_append) simp
  then show ?thesis by simp
qed

lemma config_calls_nested:
  "\<exists>xs. config_calls h t = Op_push # xs @ [Op_pop] \<and> nested 0 xs"
proof (induction t)
  case (PT p cs)
  have "nested 0 (config_calls h c)" if "c \<in> set cs" for c
    using PT [OF that] nested_bracket by auto
  then have "nested 0 (concat (map (config_calls h) cs))" by (intro nested_concat) auto
  then have "nested 0 (concat (replicate k (concat (map (config_calls h) cs))))" for k
    by (intro nested_concat) auto
  then show ?case using nested_append [OF nested_sets]
    by (auto intro!: exI [of _ "param_sets h p @ _"] simp: nested_sets)
qed

subsection \<open>The configuration underneath\<close>

text \<open>
  What the iterator needs of its configuration: whatever is set and nested between a push and its
  pop, the pop brings back what could be seen before.
\<close>

locale config_stack =
  fixes ops :: "'c config_ops" and ok :: "'c \<Rightarrow> bool" and view :: "'c \<Rightarrow> 'v"
  assumes bracket: "ok c \<Longrightarrow> nested 0 xs \<Longrightarrow> run_cfg ops (Op_push # xs @ [Op_pop]) c = Some c' \<Longrightarrow>
    view c' = view c"
begin

lemma playing_restores:
  assumes "ok c" and "trees h None None [t]" and "playable h t"
    and "play_tree_iter_new h (pid t) (Some c) rs = Some (Some i)"
    and "run_cfg ops (config_calls h t) c = Some c'"
  shows "\<exists>i' c'. play_from ops (Step 1) h i = Some (play_order h t, PLAY_TREE_ITER_END, h, i') \<and>
              it_config i' = Some c' \<and> view c' = view c"
  using play_whole [OF assms(2-5)] bracket [OF assms(1)] assms(5) config_calls_nested [of h t] by auto

end

definition m_config_ops :: "nat \<Rightarrow> 'v m_config config_ops" where
  "m_config_ops f = \<lparr>cfg_push = m_config_push, cfg_set = m_config_set_option f, cfg_pop = m_config_pop\<rparr>"

text \<open>The operations as the configuration runs them, checks left out.\<close>

fun no_checks :: "cfg_op list \<Rightarrow> cfg_op list" where
  "no_checks [] = []"
| "no_checks (Op_check nm v # xs) = no_checks xs"
| "no_checks (Op_set nm v # xs) = Op_set nm v # no_checks xs"
| "no_checks (Op_push # xs) = Op_push # no_checks xs"
| "no_checks (Op_pop # xs) = Op_pop # no_checks xs"

lemma run_cfg_m_config: "run_cfg (m_config_ops f) xs c = run_ops f (no_checks xs) c"
proof (induction xs arbitrary: c rule: no_checks.induct)
  case (3 a b xs)
  then show ?case by (cases "m_config_set_option f c a b") (auto simp: m_config_ops_def run_op_def)
next
  case (4 xs)
  then show ?case by (cases "m_config_push c") (auto simp: m_config_ops_def run_op_def)
next
  case (5 xs)
  then show ?case by (cases "m_config_pop c") (auto simp: m_config_ops_def run_op_def)
qed simp_all

lemma nested_no_checks: "nested d xs \<Longrightarrow> nested d (no_checks xs)"
  by (induction d xs rule: nested.induct) auto

lemma run_ops_append: "run_ops f (xs @ ys) c = Option.bind (run_ops f xs c) (run_ops f ys)"
  by (induction xs arbitrary: c) (auto split: Option.bind_splits)

lemma no_checks_append: "no_checks (xs @ ys) = no_checks xs @ no_checks ys"
  by (induction xs rule: no_checks.induct) auto

interpretation options: config_stack "m_config_ops f" "settled f k a" "\<lambda>c. vars c a" for f k a
proof (unfold_locales, goal_cases)
  case (1 c xs c')
  then obtain c1 c2 where "m_config_push c = Some c1" "run_ops f (no_checks xs) c1 = Some c2"
    "m_config_pop c2 = Some c'"
    by (auto simp: run_cfg_m_config no_checks_append run_ops_append bind_eq_Some_conv run_op_def simp del: run_cfg.simps)
  then show ?case using pop_restores [OF 1(1)] nested_no_checks [OF 1(2)] by blast
qed

end
