(* ===== verification/Play_Links.thy ===== *)
theory Play_Links
  imports Play_Tree
begin

text \<open>
  The doubly linked lists of siblings that the linking operations of the play tree keep.
\<close>

section \<open>Sibling lists\<close>

text \<open>
  A segment of siblings: consecutive items with the parent \<open>par\<close>, the item before the first \<open>pv\<close> and
  the one after the last \<open>nx\<close>. \<open>siblings\<close> is a whole list, known to its parent by its first item.
\<close>

definition linked :: "pt_heap \<Rightarrow> nat \<Rightarrow> nat option \<Rightarrow> nat option \<Rightarrow> nat option \<Rightarrow> bool" where
  "linked h p par pv nx \<longleftrightarrow>
     (case h p of None \<Rightarrow> False
      | Some n \<Rightarrow> pt_parent n = par \<and> pt_prev n = pv \<and> pt_next n = nx)"

fun head_or :: "nat list \<Rightarrow> nat option \<Rightarrow> nat option" where
  "head_or [] nx = nx"
| "head_or (q # qs) nx = Some q"

fun last_or :: "nat option \<Rightarrow> nat list \<Rightarrow> nat option" where
  "last_or pv [] = pv"
| "last_or pv (q # qs) = last_or (Some q) qs"

fun segment :: "pt_heap \<Rightarrow> nat option \<Rightarrow> nat option \<Rightarrow> nat list \<Rightarrow> nat option \<Rightarrow> bool" where
  "segment h par pv [] nx \<longleftrightarrow> True"
| "segment h par pv (p # ps) nx \<longleftrightarrow>
     linked h p par pv (head_or ps nx) \<and> segment h par (Some p) ps nx"

definition knows_first :: "pt_heap \<Rightarrow> nat option \<Rightarrow> nat list \<Rightarrow> bool" where
  "knows_first h par ps \<longleftrightarrow>
     (case par of None \<Rightarrow> True
      | Some q \<Rightarrow> q \<notin> set ps \<and> (case h q of None \<Rightarrow> False | Some n \<Rightarrow> pt_child n = head_or ps None))"

definition siblings :: "pt_heap \<Rightarrow> nat option \<Rightarrow> nat list \<Rightarrow> bool" where
  "siblings h par ps \<longleftrightarrow> distinct ps \<and> segment h par None ps None \<and> knows_first h par ps"

lemma last_or_snoc [simp]: "last_or pv (xs @ [x]) = Some x"
  by (induction xs arbitrary: pv) auto

lemma head_or_append: "head_or (xs @ ys) nx = head_or xs (head_or ys nx)"
  by (cases xs) auto

lemma segment_append:
  "segment h par pv (xs @ ys) nx \<longleftrightarrow>
     segment h par pv xs (head_or ys nx) \<and> segment h par (last_or pv xs) ys nx"
  by (induction xs arbitrary: pv) (auto simp: head_or_append)

lemma segment_update [simp]:
  "p \<notin> set xs \<Longrightarrow> segment (h(p \<mapsto> n)) par pv xs nx = segment h par pv xs nx"
  by (induction xs arbitrary: pv) (auto simp: linked_def)

lemma segment_in: "segment h par pv xs nx \<Longrightarrow> x \<in> set xs \<Longrightarrow> \<exists>n. h x = Some n \<and> pt_parent n = par"
  by (induction xs arbitrary: pv) (auto simp: linked_def split: option.splits)

lemma last_sibling_segment:
  "segment h par pv (p # ps) None \<Longrightarrow> last_sibling h p = Some (last (p # ps))"
proof (induction ps arbitrary: p pv)
  case Nil
  then show ?case by (subst last_sibling.simps) (auto simp: linked_def split: option.splits)
next
  case (Cons q ps)
  then show ?case by (subst last_sibling.simps) (auto simp: linked_def split: option.splits)
qed

lemma first_sibling_segment:
  "segment h par None (ps @ [p]) nx \<Longrightarrow> first_sibling h p = Some (hd (ps @ [p]))"
proof (induction ps arbitrary: p nx rule: rev_induct)
  case Nil
  then show ?case by (subst first_sibling.simps) (auto simp: linked_def split: option.splits)
next
  case (snoc q ps)
  then have "linked h p par (Some q) nx" "segment h par None (ps @ [q]) (Some p)"
    by (simp_all add: segment_append)
  with snoc.IH show ?case
    by (subst first_sibling.simps) (auto simp: linked_def hd_append split: option.splits)
qed

text \<open>An item changed outside the list's links.\<close>

lemma siblings_split:
  assumes "siblings h par (xs @ p # ys)"
  shows "distinct (xs @ p # ys)" "segment h par None xs (Some p)"
    "linked h p par (last_or None xs) (head_or ys None)" "segment h par (Some p) ys None"
    "knows_first h par (xs @ p # ys)"
  using assms by (auto simp: siblings_def segment_append)

lemma knows_first_update [simp]:
  "par \<noteq> Some p \<Longrightarrow> knows_first (h(p \<mapsto> n)) par ps = knows_first h par ps"
  by (auto simp: knows_first_def split: option.splits)

lemma knows_first_parent:
  "knows_first h par (xs @ p # ys) \<Longrightarrow> x \<in> set (xs @ p # ys) \<Longrightarrow> par \<noteq> Some x"
  by (auto simp: knows_first_def split: option.splits)

lemma insert_siblings:
  assumes s: "siblings h par (xs @ p # ys)" and e: "e \<notin> set (xs @ p # ys)" "par \<noteq> Some e" "h e = Some n"
  shows "\<exists>h'. play_tree_insert_entry h p e = Some h' \<and> siblings h' par (xs @ p # e # ys)"
proof -
  note d = siblings_split [OF s]
  obtain m where m: "h p = Some m" "pt_parent m = par" "pt_prev m = last_or None xs" "pt_next m = head_or ys None"
    using d(3) by (auto simp: linked_def split: option.splits)
  show ?thesis
  proof (cases ys)
    case Nil
    with m d e show ?thesis
      by (auto simp: play_tree_insert_entry_def upd_def upd_opt_def siblings_def segment_append linked_def
          knows_first_def head_or_append split: option.splits)
  next
    case (Cons y zs)
    then obtain k where "h y = Some k" "pt_parent k = par" using segment_in [OF d(4), of y] by auto
    with Cons m d e show ?thesis
      by (auto simp: play_tree_insert_entry_def upd_def upd_opt_def siblings_def segment_append linked_def
          knows_first_def head_or_append split: option.splits)
  qed
qed

lemma append_siblings:
  assumes s: "siblings h par ps" and p: "p \<in> set ps" and e: "e \<notin> set ps" "par \<noteq> Some e" "h e = Some n"
  shows "\<exists>h'. play_tree_append_entry h p e = Some h' \<and> siblings h' par (ps @ [e])"
proof -
  obtain xs ys where ps: "ps = xs @ p # ys" using p by (metis split_list)
  have last: "last_sibling h p = Some (last ps)"
    using last_sibling_segment [of h par "last_or None xs" p ys] s ps by (simp add: siblings_def segment_append)
  obtain zs z where z: "ps = zs @ [z]" using ps by (metis append_is_Nil_conv list.distinct(1) rev_exhaust)
  note d = siblings_split [OF s [unfolded z]]
  obtain m where m: "h z = Some m" "pt_parent m = par" "pt_prev m = last_or None zs"
    using d(3) by (auto simp: linked_def split: option.splits)
  have "p \<noteq> e" using p e by auto
  with last z m d e show ?thesis
    by (auto simp: play_tree_append_entry_def upd_def siblings_def segment_append linked_def
        knows_first_def head_or_append split: option.splits)
qed

lemma prepend_siblings:
  assumes s: "siblings h par ps" and p: "p \<in> set ps" and e: "e \<notin> set ps" "par \<noteq> Some e" "h e = Some n"
  shows "\<exists>h'. play_tree_prepend_entry h p e = Some h' \<and> siblings h' par (e # ps)"
proof -
  obtain xs ys where ps: "ps = xs @ p # ys" using p by (metis split_list)
  have "segment h par None (xs @ [p]) (head_or ys None)"
    using s ps by (simp add: siblings_def segment_append)
  from first_sibling_segment [OF this] have first: "first_sibling h p = Some (hd ps)"
    using ps by (cases xs) auto
  obtain z zs where z: "ps = z # zs" using ps by (cases xs) auto
  have d: "distinct (z # zs)" "linked h z par None (head_or zs None)" "segment h par (Some z) zs None"
    "knows_first h par (z # zs)" using s z by (simp_all add: siblings_def)
  note par = knows_first_parent [of h par "[]" z zs, simplified, OF d(4)]
  obtain m where m: "h z = Some m" "pt_parent m = par" "pt_next m = head_or zs None"
    using d(2) by (auto simp: linked_def split: option.splits)
  have ne: "z \<noteq> e" "par \<noteq> Some z" "e \<notin> set zs" "z \<notin> set zs" using e(1) par [of z] d(1) z by auto
  let ?e = "n\<lparr>pt_prev := None, pt_next := Some z, pt_parent := par\<rparr>"
  have link: "play_tree_prepend_entry h p e =
      upd_opt (h(e \<mapsto> ?e, z \<mapsto> m\<lparr>pt_prev := Some e\<rparr>)) par (\<lambda>n. n\<lparr>pt_child := Some e\<rparr>)"
    using first z m ne e(3) by (simp add: play_tree_prepend_entry_def upd_def)
  show ?thesis
  proof (cases par)
    case None
    then show ?thesis using link z m d ne e(1)
      by (simp add: upd_opt_def siblings_def linked_def knows_first_def)
  next
    case (Some q)
    then obtain l where l: "h q = Some l" "q \<notin> set (z # zs)" "q \<noteq> e"
      using d(4) e(2) by (auto simp: knows_first_def split: option.splits)
    then have "play_tree_prepend_entry h p e =
        Some (h(e \<mapsto> ?e, z \<mapsto> m\<lparr>pt_prev := Some e\<rparr>, q \<mapsto> l\<lparr>pt_child := Some e\<rparr>))"
      using link Some ne by (simp add: upd_opt_def upd_def)
    then show ?thesis using z m d ne e(1) l Some
      by (simp add: siblings_def linked_def knows_first_def)
  qed
qed

lemma unlink_siblings:
  assumes s: "siblings h par (xs @ p # ys)"
  shows "\<exists>h'. play_tree_unlink h p = Some h' \<and> siblings h' par (xs @ ys) \<and> linked h' p None None None"
proof -
  note d = siblings_split [OF s]
  note par = knows_first_parent [OF d(5)]
  obtain m where m: "h p = Some m" "pt_parent m = par" "pt_prev m = last_or None xs" "pt_next m = head_or ys None"
    using d(3) by (auto simp: linked_def split: option.splits)
  have pp: "par \<noteq> Some p" using par by simp
  consider (mid) ws w y zs where "xs = ws @ [w]" "ys = y # zs" | (last) ws w where "xs = ws @ [w]" "ys = []"
    | (first) y zs where "xs = []" "ys = y # zs" | (only) "xs = []" "ys = []"
    by (cases xs rule: rev_cases; cases ys) auto
  then show ?thesis
  proof cases
    case mid
    obtain j where j: "h w = Some j" "pt_parent j = par" using segment_in [OF d(2), of w] mid by auto
    obtain k where k: "h y = Some k" "pt_parent k = par" using segment_in [OF d(4), of y] mid by auto
    have ne: "w \<noteq> p" "y \<noteq> p" "w \<noteq> y" "par \<noteq> Some w" "par \<noteq> Some y" "w \<notin> set ws" "w \<notin> set zs"
      "y \<notin> set ws" "y \<notin> set zs" "p \<notin> set ws" "p \<notin> set zs"
      using d(1) par [of w] par [of y] mid by auto
    have kf: "knows_first h par (xs @ ys)" using d(5) mid
      by (auto simp: knows_first_def head_or_append split: option.splits)
    have "play_tree_unlink h p = Some (h(w \<mapsto> j\<lparr>pt_next := Some y\<rparr>, y \<mapsto> k\<lparr>pt_prev := Some w\<rparr>,
        p \<mapsto> m\<lparr>pt_prev := None, pt_next := None, pt_parent := None\<rparr>))"
      using m j k ne mid by (simp add: play_tree_unlink_def upd_def)
    then show ?thesis using d(1,2,4) j k ne kf pp mid
      by (simp add: siblings_def segment_append linked_def)
  next
    case last
    obtain j where j: "h w = Some j" "pt_parent j = par" using segment_in [OF d(2), of w] last by auto
    have ne: "w \<noteq> p" "par \<noteq> Some w" "w \<notin> set ws" "p \<notin> set ws" using d(1) par [of w] last by auto
    have kf: "knows_first h par (xs @ ys)" using d(5) last
      by (auto simp: knows_first_def head_or_append split: option.splits)
    have "play_tree_unlink h p = Some (h(w \<mapsto> j\<lparr>pt_next := None\<rparr>,
        p \<mapsto> m\<lparr>pt_prev := None, pt_next := None, pt_parent := None\<rparr>))"
      using m j ne last by (simp add: play_tree_unlink_def upd_def)
    then show ?thesis using d(1,2) j ne kf pp last
      by (simp add: siblings_def segment_append linked_def)
  next
    case first
    obtain k where k: "h y = Some k" "pt_parent k = par" using segment_in [OF d(4), of y] first by auto
    have ne: "y \<noteq> p" "par \<noteq> Some y" "y \<notin> set zs" "p \<notin> set zs" using d(1) par [of y] first by auto
    show ?thesis
    proof (cases par)
      case None
      have "play_tree_unlink h p = Some (h(y \<mapsto> k\<lparr>pt_prev := None\<rparr>,
          p \<mapsto> m\<lparr>pt_prev := None, pt_next := None, pt_parent := None\<rparr>))"
        using m k ne first None by (simp add: play_tree_unlink_def upd_def upd_opt_def)
      then show ?thesis using d(1,4) k ne first None
        by (simp add: siblings_def linked_def knows_first_def)
    next
      case (Some q)
      then obtain l where l: "h q = Some l" "q \<notin> set (p # ys)"
        using d(5) first by (auto simp: knows_first_def split: option.splits)
      have "play_tree_unlink h p = Some (h(y \<mapsto> k\<lparr>pt_prev := None\<rparr>, q \<mapsto> l\<lparr>pt_child := Some y\<rparr>,
          p \<mapsto> m\<lparr>pt_prev := None, pt_next := None, pt_parent := None\<rparr>))"
        using m k l ne first Some by (auto simp: play_tree_unlink_def upd_def upd_opt_def)
      then show ?thesis using d(1,4) k l ne first Some
        by (auto simp: siblings_def linked_def knows_first_def)
    qed
  next
    case only
    show ?thesis
    proof (cases par)
      case None
      then show ?thesis using m only
        by (simp add: play_tree_unlink_def upd_def upd_opt_def siblings_def linked_def knows_first_def)
    next
      case (Some q)
      then obtain l where l: "h q = Some l" "q \<noteq> p"
        using d(5) only by (auto simp: knows_first_def split: option.splits)
      then show ?thesis using m only Some
        by (simp add: play_tree_unlink_def upd_def upd_opt_def siblings_def linked_def knows_first_def)
    qed
  qed
qed

end
