(* ===== verification/Play_Props.thy ===== *)
theory Play_Props
  imports Play_Iter Play_Links
begin

text \<open>
  The properties of the play tree and its iterator.
\<close>

section \<open>Properties\<close>

text \<open>
  C13. The linking operations keep the doubly linked lists of siblings and do on them what their
  names say. For an item in a list of siblings and a new item, \<^verbatim>\<open>append\<close>, \<^verbatim>\<open>prepend\<close> and \<^verbatim>\<open>insert\<close>
  return, and the list is the old one with the new item at its end, at its front and right after
  the given item; \<^verbatim>\<open>remove\<close> takes the item out and clears its links. In each case the
  parent, if there is one, points at the first item.
\<close>

theorem sibling_lists_kept:
  assumes "siblings h par (xs @ p # ys)" and "e \<notin> set (xs @ p # ys)" and "par \<noteq> Some e"
    and "h e = Some n"
  shows "(\<exists>h'. play_tree_append_entry h p e = Some h' \<and> siblings h' par (xs @ p # ys @ [e])) \<and>
    (\<exists>h'. play_tree_prepend_entry h p e = Some h' \<and> siblings h' par (e # xs @ p # ys)) \<and>
    (\<exists>h'. play_tree_insert_entry h p e = Some h' \<and> siblings h' par (xs @ p # e # ys)) \<and>
    (\<exists>h'. play_tree_remove h p False False = Some h' \<and> siblings h' par (xs @ ys) \<and>
          linked h' p None None None)"
proof -
  have p: "p \<in> set (xs @ p # ys)" by simp
  show ?thesis
    using append_siblings [OF assms(1) p assms(2-4)] prepend_siblings [OF assms(1) p assms(2-4)]
      insert_siblings [OF assms] unlink_siblings [OF assms(1)]
    by (simp add: play_tree_remove_def)
qed

text \<open>A small tree: the node 1 with the entries 2 and 3.\<close>

definition item :: "nat option \<Rightarrow> nat option \<Rightarrow> nat option \<Rightarrow> nat option \<Rightarrow> string list \<Rightarrow> play_tree" where
  "item par ch pv nx fs = \<lparr>pt_parent = par, pt_child = ch, pt_next = nx, pt_prev = pv, pt_params = [],
     pt_loop = 0, pt_files = fs,
     entry_type = (if fs = [] then PLAY_TREE_ENTRY_NODE else PLAY_TREE_ENTRY_FILE), pt_flags = 0\<rparr>"

definition pair_tree :: pt_heap where
  "pair_tree = [1 \<mapsto> item None (Some 2) None None [], 2 \<mapsto> item (Some 1) None None (Some 3) [''a''],
     3 \<mapsto> item (Some 1) None (Some 2) None [''b''], 4 \<mapsto> item None None None None [''c'']]"

theorem sibling_lists_kept_witness:
  "\<exists>h'. play_tree_insert_entry pair_tree 2 4 = Some h' \<and> siblings h' (Some 1) [2, 4, 3]"
  using sibling_lists_kept [of pair_tree "Some 1" "[]" 2 "[3]" 4 "item None None None None [''c'']"]
  by (simp add: siblings_def knows_first_def linked_def pair_tree_def item_def)

text \<open>
  C3. The iterator plays a clean tree completely and in order: from a new iterator, stepping forward
  visits each entry, children after one another and as often as the loop counts say, then reports
  the end; every step returns, the tree is unchanged, and what the iterator asked of the
  configuration is the nested sequence \<open>config_calls\<close> of the tree.
\<close>

theorem playlist_in_order:
  assumes "trees h None None [t]" and "playable h t"
    and "run_cfg ops (config_calls h t) c = Some c'"
  shows "\<exists>i i'. play_tree_iter_new h (pid t) (Some c) rs = Some (Some i) \<and>
            play_from ops (Step 1) h i = Some (play_order h t, PLAY_TREE_ITER_END, h, i') \<and>
            it_config i' = Some c' \<and> status_stack i' = []"
proof -
  obtain n where "h (pid t) = Some n" "pt_parent n = None"
    using assms(1) by (cases t) (auto split: option.splits)
  then obtain i where "play_tree_iter_new h (pid t) (Some c) rs = Some (Some i)"
    using playable_valid(1) [OF assms(2,1)] by (simp add: play_tree_iter_new_def)
  then show ?thesis using play_whole [OF assms(1,2) _ assms(3)] by blast
qed

text \<open>A configuration that only records what is asked of it.\<close>

definition trace_ops :: "cfg_op list config_ops" where
  "trace_ops = \<lparr>cfg_push = (\<lambda>c. Some (c @ [Op_push])),
     cfg_set = (\<lambda>c nm v. Some (0, c @ [Op_set nm v])), cfg_pop = (\<lambda>c. Some (c @ [Op_pop]))\<rparr>"

definition looped_tree :: pt_heap where
  "looped_tree = pair_tree(1 \<mapsto> (item None (Some 2) None None [])\<lparr>pt_loop := 2, pt_params := [(''fs'', None)]\<rparr>)"

theorem playlist_in_order_witness:
  "\<exists>i i'. play_tree_iter_new looped_tree 1 (Some []) [] = Some (Some i) \<and>
     play_from trace_ops (Step 1) looped_tree i = Some ([2, 3, 2, 3], PLAY_TREE_ITER_END, looped_tree, i') \<and>
     it_config i' = Some [Op_push, Op_set ''fs'' None, Op_push, Op_pop, Op_push, Op_pop,
       Op_push, Op_pop, Op_push, Op_pop, Op_pop] \<and> status_stack i' = []"
  using playlist_in_order [of looped_tree "PT 1 [PT 2 [], PT 3 []]" trace_ops "[]" _ "[]"]
  by (simp add: looped_tree_def pair_tree_def item_def loops_def param_sets_def trace_ops_def iter_consts
      PLAY_TREE_RND_def numeral_2_eq_2)


definition ontop_tree :: pt_heap where
  "ontop_tree = pair_tree(2 \<mapsto> (item (Some 1) None None (Some 3) [''a''])\<lparr>pt_params := [(''ontop'', None)]\<rparr>)"


text \<open>
  The files of an entry: stepping forward gives them one after the other from the first to the
  last, and then \<^verbatim>\<open>NULL\<close>. Stepping backward gives the last one, and then \<^verbatim>\<open>NULL\<close> at once, so that all
  files before it are passed over.
\<close>

theorem entry_files_order:
  assumes "it_tree i = Some t" and "h t = Some n" and "pt_files n \<noteq> []"
    and "it_num_files i = int (length (pt_files n))"
  shows "(\<forall>k < length (pt_files n). it_file i = int k - 1 \<longrightarrow>
           play_tree_iter_get_file h i 1 = Some (Some (pt_files n ! k), i\<lparr>it_file := int k\<rparr>)) \<and>
    (it_file i = int (length (pt_files n)) - 1 \<longrightarrow>
           (\<forall>d. play_tree_iter_get_file h i d = Some (None, i))) \<and>
    (it_file i = -1 \<longrightarrow> play_tree_iter_get_file h i (-1) =
           Some (Some (last (pt_files n)), i\<lparr>it_file := int (length (pt_files n)) - 1\<rparr>))"
proof -
  have "nat (int (length (pt_files n)) - 1) = length (pt_files n) - 1"
    "length (pt_files n) - 1 < length (pt_files n)" "0 \<le> int (length (pt_files n)) - 1"
    using assms(3) by (auto simp: nat_diff_distrib Suc_le_eq)
  then show ?thesis using assms
    by (simp add: play_tree_iter_get_file_def Let_def last_conv_nth)
qed

theorem entry_files_order_witness:
  "play_tree_iter_get_file [1 \<mapsto> item None None None None [''a'', ''b'']]
     \<lparr>it_root = 1, it_tree = Some 1, it_config = Some (), it_loop = 0, it_file = -1, it_num_files = 2,
      entry_pushed = True, it_rnd = False, status_stack = [], it_rands = []\<rparr> (-1) =
   Some (Some ''b'', \<lparr>it_root = 1, it_tree = Some 1, it_config = Some (), it_loop = 0, it_file = 1,
      it_num_files = 2, entry_pushed = True, it_rnd = False, status_stack = [], it_rands = []\<rparr>)"
  using entry_files_order [of "\<lparr>it_root = 1, it_tree = Some 1, it_config = Some (), it_loop = 0,
      it_file = -1, it_num_files = 2, entry_pushed = True, it_rnd = False, status_stack = [],
      it_rands = []\<rparr>" 1 "[1 \<mapsto> item None None None None [''a'', ''b'']]"
      "item None None None None [''a'', ''b'']"]
  by (simp add: item_def)

text \<open>A node 1 with a node 2 of the entries 3 and 4, and the entry 5; \<open>fl\<close> are the flags of node 2.\<close>

definition group_tree :: "c_int \<Rightarrow> pt_heap" where
  "group_tree fl = [1 \<mapsto> item None (Some 2) None None [],
     2 \<mapsto> (item (Some 1) (Some 3) None (Some 5) [])\<lparr>pt_flags := fl\<rparr>,
     3 \<mapsto> item (Some 2) None None (Some 4) [''a''], 4 \<mapsto> item (Some 2) None (Some 3) None [''b''],
     5 \<mapsto> item (Some 1) None (Some 2) None [''c'']]"

definition played :: "pt_heap \<Rightarrow> (nat list \<times> int \<times> cfg_op list option) option" where
  "played h = do {
     i \<leftarrow> play_tree_iter_new h 1 (Some []) [];
     i \<leftarrow> i;
     (ps, r, h, i) \<leftarrow> play_from trace_ops (Step 1) h i;
     Some (ps, r, it_config i) }"

definition went_to_head :: "pt_heap \<Rightarrow> cfg_op list option" where
  "went_to_head h = do {
     i \<leftarrow> play_tree_iter_new h 1 (Some []) [];
     i \<leftarrow> i;
     (r, h, i) \<leftarrow> play_tree_iter_step trace_ops h i 1 False;
     (h, i) \<leftarrow> pt_iter_goto_head trace_ops h i;
     (ps, r, h, i) \<leftarrow> play_from trace_ops (Step 1) h i;
     it_config i }"

lemmas [code] = last_sibling.simps first_sibling.simps any_valid.simps unplayed.simps
  unset_flag_list.simps iter_go.simps play_from.simps


end
