(* ===== verification/Demux.thy ===== *)
theory Demux
  imports Byte_Source Complex_Main
begin

text \<open>
  The demuxer of \<^verbatim>\<open>libmpdemux/demuxer.h\<close> and \<^verbatim>\<open>libmpdemux/demuxer.c\<close> as the decoders see it: three
  elementary streams (audio, video, subtitles), each a queue of packets and a current packet that is
  read byte by byte or as a whole. Packets are put into the queues by the parser of the file format,
  which is a function of the demuxer: the field \<open>dx_fill\<close> of \<open>demux_ops\<close>.

  The packets linked from \<^verbatim>\<open>first\<close> to \<^verbatim>\<open>last\<close> are a list. Time stamps are real numbers, \<open>None\<close> where the
  code has \<^verbatim>\<open>MP_NOPTS_VALUE\<close>; counts of packets and bytes are integers. Parsing on adding packets is
  off, as \<^verbatim>\<open>PARSE_ON_ADD\<close> is in the source. A loop that a parser keeps from ending has no result.
\<close>

section \<open>Packets and streams\<close>

record packet =
  pk_data :: "byte list"
  pk_pts :: "real option"
  pk_endpts :: "real option"
  pk_stream_pts :: "real option"
  pk_pos :: int
  pk_flags :: int

text \<open>The parts of the stream headers (\<^verbatim>\<open>sh_audio_t\<close>, \<^verbatim>\<open>sh_video_t\<close>, \<^verbatim>\<open>sh_sub_t\<close>) the demuxer looks at.\<close>

record sh_stream =
  sh_track :: int
  sh_lang :: "string option"
  sh_default_track :: bool
  sh_needs_parsing :: bool
  sh_pts :: "real option"
  sh_i_bps :: int

record demux_stream =
  ds_buffer :: "byte list"
  ds_buffer_pos :: nat
  ds_buffer_size :: nat
  ds_pts :: real
  ds_pts_bytes :: int
  ds_eof :: bool
  ds_pos :: int
  ds_dpos :: int
  ds_pack_no :: int
  ds_flags :: int
  ds_fill_count :: int
  ds_packs :: int
  ds_bytes :: int
  ds_queue :: "packet list"
  ds_current :: "packet option"
  ds_id :: int
  ds_sh :: "sh_stream option"

record demux_chapter =
  ch_start :: nat
  ch_end :: nat
  ch_name :: string

record 'd demuxer =
  dm_stream :: "'d stream"
  dm_audio :: demux_stream
  dm_video :: demux_stream
  dm_sub :: demux_stream
  dm_stream_pts :: "real option"
  dm_seekable :: bool
  dm_movi_start :: int
  dm_movi_end :: int
  dm_filepos :: int
  dm_a_streams :: "sh_stream option list"
  dm_v_streams :: "sh_stream option list"
  dm_s_streams :: "sh_stream option list"
  dm_chapters :: "demux_chapter list"
  dm_info :: "(string \<times> string) list"

datatype which = Audio | Video | Sub

fun the_ds :: "which \<Rightarrow> 'd demuxer \<Rightarrow> demux_stream" where
  "the_ds Audio d = dm_audio d"
| "the_ds Video d = dm_video d"
| "the_ds Sub d = dm_sub d"

fun upd_ds :: "which \<Rightarrow> (demux_stream \<Rightarrow> demux_stream) \<Rightarrow> 'd demuxer \<Rightarrow> 'd demuxer" where
  "upd_ds Audio f d = d\<lparr>dm_audio := f (dm_audio d)\<rparr>"
| "upd_ds Video f d = d\<lparr>dm_video := f (dm_video d)\<rparr>"
| "upd_ds Sub f d = d\<lparr>dm_sub := f (dm_sub d)\<rparr>"

type_synonym 'd fill_fun = "'d demuxer \<Rightarrow> which \<Rightarrow> (bool \<times> 'd demuxer) option"

definition MAX_PACKS :: int where "MAX_PACKS = 4096"
definition MAX_PACK_BYTES :: int where "MAX_PACK_BYTES = 33554432"

text \<open>A new packet with the bytes it is made for.\<close>

definition new_demux_packet :: "byte list \<Rightarrow> packet" where
  "new_demux_packet bs =
     \<lparr>pk_data = bs, pk_pts = None, pk_endpts = None, pk_stream_pts = None, pk_pos = 0, pk_flags = 0\<rparr>"

definition new_demuxer_stream :: "int \<Rightarrow> demux_stream" where
  "new_demuxer_stream i =
     \<lparr>ds_buffer = [], ds_buffer_pos = 0, ds_buffer_size = 0, ds_pts = 0, ds_pts_bytes = 0, ds_eof = False,
      ds_pos = 0, ds_dpos = 0, ds_pack_no = 0, ds_flags = 0, ds_fill_count = 0, ds_packs = 0, ds_bytes = 0,
      ds_queue = [], ds_current = None, ds_id = i, ds_sh = None\<rparr>"

section \<open>Adding packets\<close>

definition ds_add_packet_internal :: "packet \<Rightarrow> demux_stream \<Rightarrow> demux_stream" where
  "ds_add_packet_internal dp ds =
     ds\<lparr>ds_packs := ds_packs ds + 1, ds_bytes := ds_bytes ds + int (length (pk_data dp)),
        ds_queue := ds_queue ds @ [dp]\<rparr>"

definition ds_add_packet :: "which \<Rightarrow> packet \<Rightarrow> 'd demuxer \<Rightarrow> 'd demuxer" where
  "ds_add_packet w dp d = upd_ds w (ds_add_packet_internal dp) d"

text \<open>\<^verbatim>\<open>ds_read_packet\<close>, always called with the demuxer's own stream.\<close>

definition ds_read_packet ::
  "'d stream_ops \<Rightarrow> which \<Rightarrow> nat \<Rightarrow> real option \<Rightarrow> int \<Rightarrow> int \<Rightarrow> 'd demuxer \<Rightarrow> 'd demuxer option" where
  "ds_read_packet ops w len pts p fl d = do {
     (bs, st) \<leftarrow> stream_read ops len (dm_stream d);
     let dp = (new_demux_packet bs)\<lparr>pk_pts := pts, pk_pos := p, pk_flags := fl\<rparr>;
     Some (ds_add_packet w dp (d\<lparr>dm_stream := st\<rparr>)) }"

section \<open>Filling the buffer\<close>

text \<open>
  The branch of \<^verbatim>\<open>ds_fill_buffer\<close> that takes the first packet of the queue.
\<close>

definition take_packet :: "packet \<Rightarrow> demux_stream \<Rightarrow> demux_stream" where
  "take_packet p ds =
     (let n = int (length (pk_data p));
          ds = ds\<lparr>ds_eof := False, ds_fill_count := 0, ds_buffer := pk_data p, ds_buffer_pos := 0,
                  ds_buffer_size := length (pk_data p), ds_pos := pk_pos p, ds_dpos := ds_dpos ds + n,
                  ds_pack_no := ds_pack_no ds + 1\<rparr>;
          ds = (case pk_pts p of None \<Rightarrow> ds | Some t \<Rightarrow> ds\<lparr>ds_pts := t, ds_pts_bytes := 0\<rparr>)
      in ds\<lparr>ds_pts_bytes := ds_pts_bytes ds + n, ds_flags := pk_flags p, ds_bytes := ds_bytes ds - n,
            ds_current := Some p, ds_queue := tl (ds_queue ds), ds_packs := ds_packs ds - 1\<rparr>)"

definition unlink_packet :: "which \<Rightarrow> 'd demuxer \<Rightarrow> 'd demuxer" where
  "unlink_packet w d =
     (let p = hd (ds_queue (the_ds w d));
          d = upd_ds w (take_packet p) d
      in case pk_stream_pts p of None \<Rightarrow> d | Some t \<Rightarrow> d\<lparr>dm_stream_pts := Some t\<rparr>)"

text \<open>The tests that give up before the parser is asked for more; \<open>ni\<close> is the option \<^verbatim>\<open>force_ni\<close>.\<close>

definition too_many :: "'d demuxer \<Rightarrow> bool" where
  "too_many d \<longleftrightarrow> ds_packs (dm_audio d) \<ge> MAX_PACKS \<or> ds_bytes (dm_audio d) \<ge> MAX_PACK_BYTES \<or>
     ds_packs (dm_video d) \<ge> MAX_PACKS \<or> ds_bytes (dm_video d) \<ge> MAX_PACK_BYTES"

definition give_up :: "bool \<Rightarrow> which \<Rightarrow> 'd demuxer \<Rightarrow> bool" where
  "give_up ni w d \<longleftrightarrow> \<not> ni \<and> ds_fill_count (the_ds w d) > 80 \<or> ds_eof (the_ds w d) \<or> \<not> ni \<and> too_many d"

text \<open>The count of tries that brought packets of other streams; \<open>d\<close> is the demuxer before the call.\<close>

definition count_fill :: "which \<Rightarrow> 'd demuxer \<Rightarrow> 'd demuxer \<Rightarrow> 'd demuxer" where
  "count_fill w d d' =
     (let v = dm_video d';
          n = ds_packs (dm_audio d') - ds_packs (dm_audio d);
          k = (if ds_packs v > ds_packs (dm_video d) \<and> ds_bytes v > ds_bytes (dm_video d) + 100 \<and>
                  (case ds_sh v of None \<Rightarrow> False | Some sh \<Rightarrow> \<not> sh_needs_parsing sh) then 1 else 0)
      in upd_ds w (\<lambda>ds. ds\<lparr>ds_fill_count := ds_fill_count ds + n + k\<rparr>) d')"

definition ds_no_data :: "demux_stream \<Rightarrow> demux_stream" where
  "ds_no_data ds = ds\<lparr>ds_buffer_pos := 0, ds_buffer_size := 0, ds_buffer := [], ds_eof := True\<rparr>"

partial_function (option) ds_fill_loop ::
  "'d fill_fun \<Rightarrow> bool \<Rightarrow> which \<Rightarrow> 'd demuxer \<Rightarrow> (bool \<times> 'd demuxer) option" where
  "ds_fill_loop fill ni w d =
     (if ds_packs (the_ds w d) \<noteq> 0 then
        (if ds_queue (the_ds w d) = [] then None else Some (True, unlink_packet w d))
      else if give_up ni w d then Some (False, upd_ds w ds_no_data d)
      else do { (r, d') \<leftarrow> fill d w;
                if r then ds_fill_loop fill ni w (count_fill w d d')
                else Some (False, upd_ds w ds_no_data d') })"

definition ds_fill_buffer :: "'d fill_fun \<Rightarrow> bool \<Rightarrow> which \<Rightarrow> 'd demuxer \<Rightarrow> (bool \<times> 'd demuxer) option" where
  "ds_fill_buffer fill ni w d =
     ds_fill_loop fill ni w (upd_ds w (\<lambda>ds. ds\<lparr>ds_current := None\<rparr>) d)"

section \<open>Reading\<close>

text \<open>The rest of the current packet.\<close>

definition ds_avail :: "demux_stream \<Rightarrow> byte list" where
  "ds_avail ds = drop (ds_buffer_pos ds) (take (ds_buffer_size ds) (ds_buffer ds))"

definition ds_skip :: "nat \<Rightarrow> demux_stream \<Rightarrow> demux_stream" where
  "ds_skip x ds = ds\<lparr>ds_buffer_pos := ds_buffer_pos ds + x\<rparr>"

partial_function (option) demux_read_data ::
  "'d fill_fun \<Rightarrow> bool \<Rightarrow> which \<Rightarrow> nat \<Rightarrow> 'd demuxer \<Rightarrow> (byte list \<times> 'd demuxer) option" where
  "demux_read_data fill ni w len d =
     (if len = 0 then Some ([], d)
      else if ds_buffer_pos (the_ds w d) > ds_buffer_size (the_ds w d) then None
      else if ds_buffer_pos (the_ds w d) = ds_buffer_size (the_ds w d) then
        do { (r, d) \<leftarrow> ds_fill_buffer fill ni w d;
             if r then demux_read_data fill ni w len d else Some ([], d) }
      else (let bs = take len (ds_avail (the_ds w d))
            in do { (cs, d) \<leftarrow> demux_read_data fill ni w (len - length bs) (upd_ds w (ds_skip (length bs)) d);
                    Some (bs @ cs, d) }))"

text \<open>\<^verbatim>\<open>demux_getc\<close>: \<open>None\<close> inside is the code's -1. Reading past an empty packet is undefined.\<close>

definition demux_getc ::
  "'d fill_fun \<Rightarrow> bool \<Rightarrow> which \<Rightarrow> 'd demuxer \<Rightarrow> (byte option \<times> 'd demuxer) option" where
  "demux_getc fill ni w d =
     (if ds_buffer_pos (the_ds w d) < ds_buffer_size (the_ds w d)
      then Some (Some (ds_buffer (the_ds w d) ! ds_buffer_pos (the_ds w d)), upd_ds w (ds_skip 1) d)
      else do { (r, d) \<leftarrow> ds_fill_buffer fill ni w d;
                if \<not> r then Some (None, d)
                else if ds_buffer_size (the_ds w d) = 0 then None
                else Some (Some (ds_buffer (the_ds w d) ! ds_buffer_pos (the_ds w d)), upd_ds w (ds_skip 1) d) })"

text \<open>
  The inner loop of \<^verbatim>\<open>demux_pattern_3\<close>: the number of bytes looked at and the shift register. It looks at one
  byte at least.
\<close>

fun scan_head :: "u32 \<Rightarrow> byte list \<Rightarrow> u32 \<Rightarrow> nat \<times> u32" where
  "scan_head pat [] head = (0, head)"
| "scan_head pat (b # bs) head =
     (let head = push_bit 8 (head OR ucast b)
      in if bs = [] \<or> head = pat then (1, head)
         else (case scan_head pat bs head of (n, head) \<Rightarrow> (Suc n, head)))"

text \<open>The outer loop; \<open>tot\<close> bytes have been read.\<close>

partial_function (option) pattern_loop ::
  "'d fill_fun \<Rightarrow> bool \<Rightarrow> which \<Rightarrow> u32 \<Rightarrow> nat \<Rightarrow> u32 \<Rightarrow> nat \<Rightarrow> 'd demuxer \<Rightarrow> ((byte list \<times> u32) \<times> 'd demuxer) option" where
  "pattern_loop fill ni w pat maxlen head tot d =
     (let avail = ds_avail (the_ds w d) in
      if avail = [] then
        do { (r, d) \<leftarrow> ds_fill_buffer fill ni w d;
             if (head \<noteq> pat \<or> tot < 3) \<and> tot < maxlen \<and> \<not> ds_eof (the_ds w d)
             then pattern_loop fill ni w pat maxlen head tot d
             else Some (([], head), d) }
      else
        (let n = fst (scan_head pat avail head); head = snd (scan_head pat avail head);
             n = (if tot + n > maxlen then maxlen - tot else n)
         in do { (bs, d) \<leftarrow> demux_read_data fill ni w n d;
                 let tot = tot + length bs;
                 if (head \<noteq> pat \<or> tot < 3) \<and> tot < maxlen \<and> \<not> ds_eof (the_ds w d)
                 then do { ((cs, head), d) \<leftarrow> pattern_loop fill ni w pat maxlen head tot d;
                           Some ((bs @ cs, head), d) }
                 else Some ((bs, head), d) }))"

definition demux_pattern_3 ::
  "'d fill_fun \<Rightarrow> bool \<Rightarrow> which \<Rightarrow> nat \<Rightarrow> u32 \<Rightarrow> 'd demuxer \<Rightarrow> ((bool \<times> byte list) \<times> 'd demuxer) option" where
  "demux_pattern_3 fill ni w maxlen pattern d =
     (let pat = pattern AND 0xffffff00
      in do { ((bs, head), d) \<leftarrow> pattern_loop fill ni w pat maxlen 0xffffff00 0 d;
              Some ((length bs \<ge> 3 \<and> head = pat, bs), d) })"

text \<open>The whole rest of a packet; \<open>None\<close> inside is the code's -1.\<close>

definition ds_get_packet ::
  "'d fill_fun \<Rightarrow> bool \<Rightarrow> which \<Rightarrow> 'd demuxer \<Rightarrow> (byte list option \<times> 'd demuxer) option" where
  "ds_get_packet fill ni w d = do {
     (r, d) \<leftarrow> (if ds_buffer_pos (the_ds w d) \<ge> ds_buffer_size (the_ds w d)
                then ds_fill_buffer fill ni w d else Some (True, d));
     if \<not> r then Some (None, d)
     else (let bs = ds_avail (the_ds w d) in Some (Some bs, upd_ds w (ds_skip (length bs)) d)) }"

text \<open>The time stamps of \<^verbatim>\<open>ds_get_packet_pts_endpts\<close>; the dereference of \<^verbatim>\<open>current\<close> must be defined.\<close>

definition ds_get_packet_pts_endpts ::
  "'d fill_fun \<Rightarrow> bool \<Rightarrow> which \<Rightarrow> 'd demuxer \<Rightarrow>
     ((byte list option \<times> real option \<times> real option) \<times> 'd demuxer) option" where
  "ds_get_packet_pts_endpts fill ni w d = do {
     (bs, d) \<leftarrow> ds_get_packet fill ni w d;
     case bs of None \<Rightarrow> Some ((None, None, None), d)
     | Some bs \<Rightarrow> do {
         pts \<leftarrow> (if length bs = ds_buffer_pos (the_ds w d)
                 then map_option pk_pts (ds_current (the_ds w d)) else Some None);
         endpts \<leftarrow> (if length bs = ds_buffer_size (the_ds w d)
                    then map_option pk_endpts (ds_current (the_ds w d)) else Some None);
         Some ((Some bs, pts, endpts), d) } }"

text \<open>A subtitle packet that is not later than \<open>max_pts\<close>; the stream is not read for it.\<close>

definition ds_get_packet_sub ::
  "'d fill_fun \<Rightarrow> bool \<Rightarrow> which \<Rightarrow> real option \<Rightarrow> 'd demuxer \<Rightarrow>
     ((byte list option \<times> real option \<times> real option) \<times> 'd demuxer) option" where
  "ds_get_packet_sub fill ni w max_pts d = do {
     (r, d) \<leftarrow> (if ds_buffer_pos (the_ds w d) \<ge> ds_buffer_size (the_ds w d)
                then if ds_packs (the_ds w d) = 0 then Some (False, d) else ds_fill_buffer fill ni w d
                else Some (True, d));
     if \<not> r then Some ((None, None, None), d)
     else do {
       (pts, endpts) \<leftarrow> (if ds_buffer_pos (the_ds w d) = 0
                         then map_option (\<lambda>p. (pk_pts p, pk_endpts p)) (ds_current (the_ds w d))
                         else Some (None, None));
       if (case (pts, max_pts) of (Some t, Some m) \<Rightarrow> t > m | _ \<Rightarrow> False)
       then Some ((None, pts, endpts), d)
       else (let bs = ds_avail (the_ds w d)
             in Some ((Some bs, pts, endpts), upd_ds w (ds_skip (length bs)) d)) } }"

text \<open>The loop of \<^verbatim>\<open>ds_get_next_pts\<close>, which fills until a packet is there.\<close>

partial_function (option) next_pts_loop ::
  "'d fill_fun \<Rightarrow> bool \<Rightarrow> which \<Rightarrow> 'd demuxer \<Rightarrow> (bool \<times> 'd demuxer) option" where
  "next_pts_loop fill ni w d =
     (if ds_queue (the_ds w d) = [] \<and> (ds_current (the_ds w d) = None \<or> ds_buffer_pos (the_ds w d) \<noteq> 0) then
        (if \<not> ni \<and> too_many d then Some (False, d)
         else do { (r, d) \<leftarrow> fill d w; if r then next_pts_loop fill ni w d else Some (False, d) })
      else Some (True, d))"

definition ds_get_next_pts ::
  "'d fill_fun \<Rightarrow> bool \<Rightarrow> which \<Rightarrow> 'd demuxer \<Rightarrow> (real option \<times> 'd demuxer) option" where
  "ds_get_next_pts fill ni w d = do {
     (r, d) \<leftarrow> next_pts_loop fill ni w d;
     if \<not> r then Some (None, d)
     else Some (case ds_current (the_ds w d) of
                  Some p \<Rightarrow> if ds_buffer_pos (the_ds w d) = 0 then pk_pts p else pk_pts (hd (ds_queue (the_ds w d)))
                | None \<Rightarrow> pk_pts (hd (ds_queue (the_ds w d))), d) }"

definition ds_tell :: "demux_stream \<Rightarrow> int" where
  "ds_tell ds = ds_dpos ds - int (ds_buffer_size ds) + int (ds_buffer_pos ds)"

definition ds_tell_pts :: "demux_stream \<Rightarrow> int" where
  "ds_tell_pts ds = ds_pts_bytes ds - int (ds_buffer_size ds) + int (ds_buffer_pos ds)"

section \<open>Dropping everything\<close>

definition ds_free_packs :: "demux_stream \<Rightarrow> demux_stream" where
  "ds_free_packs ds =
     ds\<lparr>ds_queue := [], ds_packs := 0, ds_bytes := 0, ds_current := None, ds_buffer := [],
        ds_buffer_pos := ds_buffer_size ds, ds_pts := 0, ds_pts_bytes := 0\<rparr>"

definition demux_flush :: "'d demuxer \<Rightarrow> 'd demuxer" where
  "demux_flush d = upd_ds Sub ds_free_packs (upd_ds Audio ds_free_packs (upd_ds Video ds_free_packs d))"

section \<open>Two parsers\<close>

text \<open>
  \<^verbatim>\<open>demux_rawvideo_fill_buffer\<close> and \<^verbatim>\<open>demux_rawaudio_fill_buffer\<close>. Of their headers the frame size, the
  duration of a frame and the bytes per second are parameters.
\<close>

definition demux_rawvideo_fill_buffer :: "'d stream_ops \<Rightarrow> nat \<Rightarrow> real \<Rightarrow> 'd fill_fun" where
  "demux_rawvideo_fill_buffer ops imgsize frametime d w =
     (if eof (dm_stream d) then Some (False, d)
      else if w \<noteq> Video then Some (False, d)
      else (let p = stream_tell (dm_stream d)
            in do { d \<leftarrow> ds_read_packet ops w imgsize (Some (of_int (p sdiv int imgsize) * frametime)) p 16 d;
                    Some (True, d) }))"

definition demux_rawaudio_fill_buffer :: "'d stream_ops \<Rightarrow> nat \<Rightarrow> 'd fill_fun" where
  "demux_rawaudio_fill_buffer ops bps d w =
     (let spos = stream_tell (dm_stream d)
      in if eof (dm_stream d) then Some (False, d)
         else do { (bs, st) \<leftarrow> stream_read ops bps (dm_stream d);
                   let dp = (new_demux_packet bs)\<lparr>pk_pts := Some (of_int (spos - dm_movi_start d) / of_nat bps),
                                                   pk_pos := spos - dm_movi_start d\<rparr>;
                   Some (True, ds_add_packet w dp (d\<lparr>dm_stream := st\<rparr>)) })"

definition alloc_demuxer :: "'d stream \<Rightarrow> 'd demuxer" where
  "alloc_demuxer st =
     \<lparr>dm_stream = st, dm_audio = new_demuxer_stream 0, dm_video = new_demuxer_stream 0,
      dm_sub = new_demuxer_stream 0, dm_stream_pts = None, dm_seekable = True,
      dm_movi_start = start_pos st, dm_movi_end = end_pos st, dm_filepos = -1,
      dm_a_streams = replicate 256 None, dm_v_streams = replicate 256 None,
      dm_s_streams = replicate 256 None, dm_chapters = [], dm_info = []\<rparr>"

text \<open>The stream is set to its start before the parser sees it.\<close>

definition new_demuxer :: "'d stream_ops \<Rightarrow> 'd stream \<Rightarrow> int \<Rightarrow> int \<Rightarrow> int \<Rightarrow> 'd demuxer option" where
  "new_demuxer ops st a_id v_id s_id =
     (let d = (alloc_demuxer st)\<lparr>dm_audio := new_demuxer_stream a_id, dm_video := new_demuxer_stream v_id,
                                 dm_sub := new_demuxer_stream s_id\<rparr>
      in do { (r, st) \<leftarrow> stream_seek ops (st\<lparr>eof := False\<rparr>) (start_pos st);
              Some (d\<lparr>dm_stream := st\<rparr>) })"

end
