(* ===== verification/Demux_Queue.thy ===== *)
theory Demux_Queue
  imports Demux
begin

text \<open>
  Reading elementary streams: whatever the parser of the file format delivers for a stream comes out of
  the readers (\<open>demux_read_data\<close>, \<open>demux_getc\<close>, \<open>ds_get_packet\<close>, the pattern search) once and in order, the
  counters agree with the queues, and every call returns. The contract of the parser is the locale
  \<open>packet_source\<close>.
\<close>

section \<open>Streams of a demuxer\<close>

lemma the_ds_upd [simp]: "the_ds x (upd_ds w f d) = (if x = w then f (the_ds w d) else the_ds x d)"
  by (cases w; cases x) simp_all

lemma the_ds_fields [simp]:
  "the_ds x (d\<lparr>dm_stream := s\<rparr>) = the_ds x d" "the_ds x (d\<lparr>dm_stream_pts := t\<rparr>) = the_ds x d"
  by (cases x; simp)+

lemma upd_ds_stream [simp]: "dm_stream (upd_ds w f d) = dm_stream d"
  by (cases w) simp_all

text \<open>Packets added by a parser, in order.\<close>

definition add_all :: "(which \<times> packet) list \<Rightarrow> 'd demuxer \<Rightarrow> 'd demuxer" where
  "add_all ps d = fold (\<lambda>(w, p). ds_add_packet w p) ps d"

definition packets_for :: "which \<Rightarrow> (which \<times> packet) list \<Rightarrow> packet list" where
  "packets_for x ps = map snd (filter (\<lambda>q. fst q = x) ps)"

lemma packets_for_simps [simp]:
  "packets_for x [] = []"
  "packets_for x ((w, p) # ps) = (if w = x then p # packets_for x ps else packets_for x ps)"
  by (simp_all add: packets_for_def)

lemma add_all_simps [simp]:
  "add_all [] d = d" "add_all ((w, p) # ps) d = add_all ps (ds_add_packet w p d)"
  by (simp_all add: add_all_def)

abbreviation data_of :: "packet list \<Rightarrow> byte list" where
  "data_of ps \<equiv> concat (map pk_data ps)"

lemma the_ds_add_all:
  "the_ds x (add_all ps d) = (the_ds x d)\<lparr>
     ds_packs := ds_packs (the_ds x d) + int (length (packets_for x ps)),
     ds_bytes := ds_bytes (the_ds x d) + int (length (data_of (packets_for x ps))),
     ds_queue := ds_queue (the_ds x d) @ packets_for x ps\<rparr>"
  by (induction ps arbitrary: d) (auto simp: ds_add_packet_def ds_add_packet_internal_def)

lemma add_all_stream [simp]: "dm_stream (add_all ps d) = dm_stream d"
  by (induction ps arbitrary: d) (auto simp: ds_add_packet_def)

text \<open>What reading packets does not change.\<close>

definition same_info :: "'d demuxer \<Rightarrow> 'd demuxer \<Rightarrow> bool" where
  "same_info d d' \<longleftrightarrow> dm_movi_start d' = dm_movi_start d \<and> dm_movi_end d' = dm_movi_end d \<and>
     dm_seekable d' = dm_seekable d"

lemma same_info_refl [simp]: "same_info d d"
  by (simp add: same_info_def)

lemma same_info_trans: "same_info d d' \<Longrightarrow> same_info d' d'' \<Longrightarrow> same_info d d''"
  by (simp add: same_info_def)

lemma same_info_upd_right [simp]: "same_info d (upd_ds w f d') = same_info d d'"
  unfolding same_info_def by (cases w) simp_all

lemma same_info_upd_left [simp]: "same_info (upd_ds w f d) d' = same_info d d'"
  unfolding same_info_def by (cases w) simp_all

lemma same_info_stream [simp]: "same_info d (d'\<lparr>dm_stream := s\<rparr>) = same_info d d'"
  by (simp add: same_info_def)

lemma same_info_stream_pts [simp]: "same_info d (d'\<lparr>dm_stream_pts := t\<rparr>) = same_info d d'"
  by (simp add: same_info_def)

lemma same_info_add_all [simp]: "same_info d (add_all ps d') = same_info d d'"
  by (induction ps arbitrary: d') (simp_all add: ds_add_packet_def split_paired_all)

lemma same_info_unlink [simp]: "same_info d (unlink_packet w d') = same_info d d'"
  by (simp add: unlink_packet_def Let_def split: option.splits)

lemma same_info_count [simp]: "same_info d (count_fill w e d') = same_info d d'"
  by (simp add: count_fill_def Let_def)

section \<open>The invariant of a stream\<close>

text \<open>
  The counters count the queue, and the buffer is the current packet; without one nothing is left to
  read.
\<close>

definition ds_ok :: "demux_stream \<Rightarrow> bool" where
  "ds_ok ds \<longleftrightarrow>
     ds_packs ds = int (length (ds_queue ds)) \<and>
     ds_bytes ds = int (length (data_of (ds_queue ds))) \<and>
     (case ds_current ds of
        None \<Rightarrow> ds_buffer_pos ds = ds_buffer_size ds
      | Some p \<Rightarrow> ds_buffer ds = pk_data p \<and> ds_buffer_size ds = length (pk_data p) \<and>
                  ds_buffer_pos ds \<le> ds_buffer_size ds)"

definition unread :: "demux_stream \<Rightarrow> byte list" where
  "unread ds = ds_avail ds @ data_of (ds_queue ds)"

lemma ds_ok_pos: "ds_ok ds \<Longrightarrow> ds_buffer_pos ds \<le> ds_buffer_size ds"
  by (auto simp: ds_ok_def split: option.splits)

lemma ds_avail_empty: "ds_ok ds \<Longrightarrow> ds_avail ds = [] \<longleftrightarrow> ds_buffer_pos ds = ds_buffer_size ds"
  by (auto simp: ds_ok_def ds_avail_def split: option.splits)

lemma length_ds_avail: "ds_ok ds \<Longrightarrow> length (ds_avail ds) = ds_buffer_size ds - ds_buffer_pos ds"
  by (auto simp: ds_ok_def ds_avail_def split: option.splits)

lemma ds_ok_skip:
  assumes "ds_ok ds" and "x \<le> length (ds_avail ds)"
  shows "ds_ok (ds_skip x ds)" "ds_avail (ds_skip x ds) = drop x (ds_avail ds)"
    "ds_queue (ds_skip x ds) = ds_queue ds"
  using assms length_ds_avail [OF assms(1)]
  by (auto simp: ds_ok_def ds_skip_def ds_avail_def add.commute split: option.splits)

lemma unread_skip:
  "ds_ok ds \<Longrightarrow> x \<le> length (ds_avail ds) \<Longrightarrow> unread ds = take x (ds_avail ds) @ unread (ds_skip x ds)"
  by (simp add: unread_def ds_ok_skip)

lemma take_packet_ok:
  assumes "ds_ok ds" and "ds_queue ds = p # ps"
  shows "ds_ok (take_packet p ds)" "ds_avail (take_packet p ds) = pk_data p"
    "ds_queue (take_packet p ds) = ps" "ds_current (take_packet p ds) = Some p"
    "ds_buffer_pos (take_packet p ds) = 0" "ds_fill_count (take_packet p ds) = 0"
    "ds_eof (take_packet p ds) = False" "ds_packs (take_packet p ds) = ds_packs ds - 1"
    "ds_bytes (take_packet p ds) = ds_bytes ds - int (length (pk_data p))"
  using assms
  by (auto simp: ds_ok_def take_packet_def Let_def ds_avail_def split: option.splits)

lemma unlink_packet_ds:
  "ds_queue (the_ds w d) = p # ps \<Longrightarrow>
   the_ds x (unlink_packet w d) = (if x = w then take_packet p (the_ds w d) else the_ds x d)"
  by (auto simp: unlink_packet_def Let_def split: option.splits)

lemma unlink_packet_stream [simp]: "dm_stream (unlink_packet w d) = dm_stream d"
  by (auto simp: unlink_packet_def Let_def split: option.splits)

lemma count_fill_ds:
  "\<exists>n. \<forall>x. the_ds x (count_fill w d d') =
     (if x = w then (the_ds w d')\<lparr>ds_fill_count := n\<rparr> else the_ds x d')"
  by (auto simp: count_fill_def Let_def)

lemma count_fill_stream [simp]: "dm_stream (count_fill w d d') = dm_stream d'"
  by (simp add: count_fill_def Let_def)

lemma ds_ok_fields [simp]:
  "ds_ok (ds\<lparr>ds_fill_count := n\<rparr>) = ds_ok ds" "unread (ds\<lparr>ds_fill_count := n\<rparr>) = unread ds"
  "ds_avail (ds\<lparr>ds_fill_count := n\<rparr>) = ds_avail ds" "unread (ds\<lparr>ds_current := c\<rparr>) = unread ds"
  "ds_avail (ds\<lparr>ds_current := c\<rparr>) = ds_avail ds"
  by (cases "ds_current ds"; simp add: ds_ok_def unread_def ds_avail_def)+

lemma ds_ok_add:
  "ds_ok ds \<Longrightarrow> ds_ok (ds\<lparr>ds_packs := ds_packs ds + int (length ps),
     ds_bytes := ds_bytes ds + int (length (data_of ps)), ds_queue := ds_queue ds @ ps\<rparr>)"
  by (cases "ds_current ds"; simp add: ds_ok_def)

definition clear :: "which \<Rightarrow> 'd demuxer \<Rightarrow> bool" where
  "clear w d \<longleftrightarrow> length (ds_queue (the_ds w d)) \<le> 1 \<and>
     (ds_queue (the_ds w d) = [] \<longrightarrow> ds_fill_count (the_ds w d) \<le> 80) \<and>
     (\<forall>x. x \<noteq> w \<longrightarrow> ds_packs (the_ds x d) < MAX_PACKS \<and> ds_bytes (the_ds x d) < MAX_PACK_BYTES)"

lemma clear_goes_on:
  assumes c: "clear w d" and ok: "ds_ok (the_ds w d)" and q: "ds_queue (the_ds w d) = []"
    and e: "\<not> ds_eof (the_ds w d)"
  shows "\<not> give_up ni w d"
proof -
  have "ds_packs (the_ds x d) < MAX_PACKS \<and> ds_bytes (the_ds x d) < MAX_PACK_BYTES" for x
    using c ok q by (cases "x = w") (auto simp: clear_def ds_ok_def MAX_PACKS_def MAX_PACK_BYTES_def)
  from this [of Audio] this [of Video] have "\<not> too_many d" by (simp add: too_many_def)
  then show ?thesis using c q e by (auto simp: give_up_def clear_def)
qed

lemma clear_added:
  assumes c: "clear w d" and q: "ds_queue (the_ds w d) = []"
  shows "clear w (count_fill w d ((ds_add_packet w p d)\<lparr>dm_stream := s\<rparr>))"
proof -
  obtain n where "\<forall>x. the_ds x (count_fill w d ((ds_add_packet w p d)\<lparr>dm_stream := s\<rparr>)) =
      (if x = w then (the_ds w ((ds_add_packet w p d)\<lparr>dm_stream := s\<rparr>))\<lparr>ds_fill_count := n\<rparr>
       else the_ds x ((ds_add_packet w p d)\<lparr>dm_stream := s\<rparr>))"
    using count_fill_ds by blast
  then show ?thesis using c q by (simp add: clear_def ds_add_packet_def ds_add_packet_internal_def)
qed

lemma clear_unlink:
  assumes "clear w d" and "ds_ok (the_ds w d)" and "ds_queue (the_ds w d) \<noteq> []"
  shows "clear w (unlink_packet w d)"
proof -
  from assms(3) obtain p ps where q: "ds_queue (the_ds w d) = p # ps" by (cases "ds_queue (the_ds w d)") auto
  show ?thesis using assms(1) take_packet_ok [OF assms(2) q] q by (simp add: clear_def unlink_packet_ds [OF q])
qed

section \<open>Parsers\<close>

text \<open>
  The contract of a parser's \<^verbatim>\<open>fill_buffer\<close>. It adds packets to the streams and moves on in the input
  (\<open>good\<close> inputs), handing out in order the bytes that are pending for each stream; it makes progress
  when it succeeds, and fails only when nothing is pending for the stream it was asked for.
\<close>

locale packet_source =
  fixes fill :: "'d fill_fun" and good :: "'d stream \<Rightarrow> bool"
    and pend :: "which \<Rightarrow> 'd stream \<Rightarrow> byte list" and left :: "'d stream \<Rightarrow> nat"
  assumes fill_adds: "good (dm_stream d) \<Longrightarrow>
      \<exists>r ps s. fill d w = Some (r, (add_all ps d)\<lparr>dm_stream := s\<rparr>) \<and> good s \<and>
        (\<forall>x. pend x (dm_stream d) = data_of (packets_for x ps) @ pend x s) \<and>
        (r \<longrightarrow> left s < left (dm_stream d)) \<and>
        (\<not> r \<longrightarrow> packets_for w ps = [] \<and> pend w s = [])"
begin

definition ok :: "'d demuxer \<Rightarrow> bool" where
  "ok d \<longleftrightarrow> good (dm_stream d) \<and> (\<forall>x. ds_ok (the_ds x d))"

text \<open>All bytes of a stream that are still to be read.\<close>

definition rest :: "which \<Rightarrow> 'd demuxer \<Rightarrow> byte list" where
  "rest x d = unread (the_ds x d) @ pend x (dm_stream d)"

text \<open>
  A prompt parser answers with one packet of the stream it was asked for. Then the limits on how far the
  other streams may be ahead are never reached, if they are not at the start (\<open>clear\<close>).
\<close>

definition prompt :: bool where
  "prompt \<longleftrightarrow> (\<forall>d w d'. good (dm_stream d) \<longrightarrow> fill d w = Some (True, d') \<longrightarrow>
     (\<exists>p s. d' = (ds_add_packet w p d)\<lparr>dm_stream := s\<rparr>))"

definition full :: "bool \<Rightarrow> which \<Rightarrow> 'd demuxer \<Rightarrow> bool" where
  "full ni w d \<longleftrightarrow> ni \<or> prompt \<and> clear w d"

lemma ok_ds: "ok d \<Longrightarrow> ds_ok (the_ds x d)"
  by (simp add: ok_def)

lemma fill_ok:
  assumes "ok d"
  shows "\<exists>r d'. fill d w = Some (r, d') \<and> ok d' \<and> (\<forall>x. rest x d' = rest x d) \<and>
    ds_avail (the_ds w d') = ds_avail (the_ds w d) \<and> ds_current (the_ds w d') = ds_current (the_ds w d) \<and>
    ds_buffer_pos (the_ds w d') = ds_buffer_pos (the_ds w d) \<and>
    ds_buffer_size (the_ds w d') = ds_buffer_size (the_ds w d) \<and>
    (r \<longrightarrow> left (dm_stream d') < left (dm_stream d)) \<and>
    (\<not> r \<longrightarrow> ds_queue (the_ds w d') = ds_queue (the_ds w d) \<and> pend w (dm_stream d') = []) \<and>
    ds_eof (the_ds w d') = ds_eof (the_ds w d) \<and> same_info d d'"
proof -
  from assms have "good (dm_stream d)" by (simp add: ok_def)
  from fill_adds [OF this, of w] obtain r ps s where
    f: "fill d w = Some (r, (add_all ps d)\<lparr>dm_stream := s\<rparr>)" "good s"
      "\<forall>x. pend x (dm_stream d) = data_of (packets_for x ps) @ pend x s"
      "r \<longrightarrow> left s < left (dm_stream d)" "\<not> r \<longrightarrow> packets_for w ps = [] \<and> pend w s = []" by blast
  let ?d = "(add_all ps d)\<lparr>dm_stream := s\<rparr>"
  have "ok ?d" using assms f(2) ds_ok_add by (auto simp: ok_def the_ds_add_all)
  moreover have "\<forall>x. rest x ?d = rest x d"
    using f(3) by (simp add: rest_def unread_def the_ds_add_all ds_avail_def)
  ultimately show ?thesis using f(1,4,5)
    by (intro exI [of _ r] exI [of _ ?d]) (auto simp: the_ds_add_all ds_avail_def)
qed

lemma unlink_ok:
  assumes "ok d" and "ds_avail (the_ds w d) = []" and "ds_queue (the_ds w d) \<noteq> []"
  shows "ok (unlink_packet w d)" "rest x (unlink_packet w d) = rest x d"
    "ds_current (the_ds w (unlink_packet w d)) \<noteq> None" "ds_buffer_pos (the_ds w (unlink_packet w d)) = 0"
    "\<not> ds_eof (the_ds w (unlink_packet w d))"
    "length (ds_queue (the_ds w (unlink_packet w d))) < length (ds_queue (the_ds w d))"
proof -
  from assms(3) obtain p ps where q: "ds_queue (the_ds w d) = p # ps" by (cases "ds_queue (the_ds w d)") auto
  note u = unlink_packet_ds [OF q] and t = take_packet_ok [OF ok_ds [OF assms(1)] q]
  show "ok (unlink_packet w d)" using assms(1) t(1) by (simp add: ok_def u)
  show "rest x (unlink_packet w d) = rest x d"
    using t assms(2) q by (simp add: rest_def u unread_def)
  show "ds_current (the_ds w (unlink_packet w d)) \<noteq> None" "ds_buffer_pos (the_ds w (unlink_packet w d)) = 0"
    "\<not> ds_eof (the_ds w (unlink_packet w d))"
    "length (ds_queue (the_ds w (unlink_packet w d))) < length (ds_queue (the_ds w d))"
    using t q by (simp_all add: u)
qed

lemma no_data_ok:
  assumes "ok d" and "ds_avail (the_ds w d) = []" and "ds_current (the_ds w d) = None"
  shows "ok (upd_ds w ds_no_data d)" "rest x (upd_ds w ds_no_data d) = rest x d"
    "ds_avail (the_ds w (upd_ds w ds_no_data d)) = []"
  using assms by (auto simp: ok_def rest_def ds_no_data_def ds_ok_def unread_def ds_avail_def split: option.splits)

lemma ds_fill_loop_ok:
  assumes "ok d" and "ds_avail (the_ds w d) = []" and "ds_current (the_ds w d) = None"
  shows "\<exists>r d'. ds_fill_loop fill ni w d = Some (r, d') \<and> ok d' \<and> (\<forall>x. rest x d' = rest x d) \<and>
    (r \<longrightarrow> ds_current (the_ds w d') \<noteq> None \<and> ds_buffer_pos (the_ds w d') = 0 \<and> \<not> ds_eof (the_ds w d') \<and>
       (left (dm_stream d') < left (dm_stream d) \<or>
        dm_stream d' = dm_stream d \<and> length (ds_queue (the_ds w d')) < length (ds_queue (the_ds w d)))) \<and>
    (\<not> r \<longrightarrow> unread (the_ds w d') = [] \<and> ds_eof (the_ds w d') \<and>
       (full ni w d \<and> \<not> ds_eof (the_ds w d) \<longrightarrow> rest w d' = [])) \<and>
    (r \<longrightarrow> full ni w d \<longrightarrow> full ni w d') \<and> same_info d d'"
  using assms
proof (induction "left (dm_stream d)" arbitrary: d rule: less_induct)
  case less
  show ?case
  proof (cases "ds_queue (the_ds w d) = []")
    case False
    then have "ds_packs (the_ds w d) \<noteq> 0" using ok_ds [OF less.prems(1), of w] by (simp add: ds_ok_def)
    then have "ds_fill_loop fill ni w d = Some (True, unlink_packet w d)"
      using False by (subst ds_fill_loop.simps) simp
    then show ?thesis using unlink_ok [OF less.prems(1,2) False] clear_unlink [OF _ ok_ds [OF less.prems(1)] False]
      by (auto simp: full_def)
  next
    case True
    then have p0: "ds_packs (the_ds w d) = 0" using ok_ds [OF less.prems(1), of w] by (simp add: ds_ok_def)
    have none: "unread (the_ds w (upd_ds w ds_no_data e)) = []" "ds_eof (the_ds w (upd_ds w ds_no_data e))"
      if "ds_queue (the_ds w e) = []" for e using that by (simp_all add: unread_def ds_no_data_def ds_avail_def)
    show ?thesis
    proof (cases "give_up ni w d")
      case g: True
      then have "ds_fill_loop fill ni w d = Some (False, upd_ds w ds_no_data d)"
        using p0 by (subst ds_fill_loop.simps) simp
      moreover have "\<not> (full ni w d \<and> \<not> ds_eof (the_ds w d))"
        using g clear_goes_on [OF _ ok_ds [OF less.prems(1), of w] True, of ni] by (auto simp: full_def give_up_def)
      ultimately show ?thesis using no_data_ok [OF less.prems] none [OF True] by auto
    next
      case g: False
      from fill_ok [OF less.prems(1), of w] obtain r e where
        e: "fill d w = Some (r, e)" "ok e" "\<forall>x. rest x e = rest x d"
          "ds_avail (the_ds w e) = ds_avail (the_ds w d)" "ds_current (the_ds w e) = ds_current (the_ds w d)"
          "r \<longrightarrow> left (dm_stream e) < left (dm_stream d)"
          "\<not> r \<longrightarrow> ds_queue (the_ds w e) = ds_queue (the_ds w d) \<and> pend w (dm_stream e) = []"
          "ds_eof (the_ds w e) = ds_eof (the_ds w d)" "same_info d e" by blast
      show ?thesis
      proof (cases r)
        case False
        then have "ds_fill_loop fill ni w d = Some (False, upd_ds w ds_no_data e)"
          using p0 g e(1) by (subst ds_fill_loop.simps) simp
        moreover have e': "ds_avail (the_ds w e) = []" "ds_current (the_ds w e) = None" "ds_queue (the_ds w e) = []"
          using e(4,5,7) less.prems True False by simp_all
        moreover have "rest w e = []" using e(7) False e' by (simp add: rest_def unread_def)
        ultimately show ?thesis using no_data_ok [OF e(2) e'(1,2)] none [OF e'(3)] e(3,9)
          by (intro exI [of _ False] exI [of _ "upd_ds w ds_no_data e"]) simp
      next
        case r: True
        let ?e = "count_fill w d e"
        obtain n where ds: "\<forall>x. the_ds x ?e = (if x = w then (the_ds w e)\<lparr>ds_fill_count := n\<rparr> else the_ds x e)"
          using count_fill_ds by blast
        have pre: "ok ?e" "ds_avail (the_ds w ?e) = []" "ds_current (the_ds w ?e) = None"
          "\<forall>x. rest x ?e = rest x d" "ds_eof (the_ds w ?e) = ds_eof (the_ds w e)"
          using e(2-5) less.prems ds by (auto simp: ok_def rest_def)
        have lt: "left (dm_stream ?e) < left (dm_stream d)" using e(6) r by simp
        have eof: "ds_eof (the_ds w e) = ds_eof (the_ds w d)" using e(8) .
        have step: "ds_fill_loop fill ni w d = ds_fill_loop fill ni w ?e"
          using p0 g e(1) r by (subst ds_fill_loop.simps) simp
        have full: "full ni w d \<longrightarrow> full ni w ?e"
        proof
          assume "full ni w d"
          then consider ni | "prompt" "clear w d" by (auto simp: full_def)
          then show "full ni w ?e"
          proof cases
            case 2
            have "fill d w = Some (True, e)" using e(1) r by simp
            with 2(1) obtain p s where "e = (ds_add_packet w p d)\<lparr>dm_stream := s\<rparr>"
              using less.prems(1) unfolding prompt_def ok_def by blast
            then show ?thesis using clear_added [OF 2(2) True] 2(1) by (simp add: full_def)
          qed (simp add: full_def)
        qed
        from less.hyps [OF lt pre(1-3)] obtain r' d' where
          i: "ds_fill_loop fill ni w ?e = Some (r', d')" "ok d'" "\<forall>x. rest x d' = rest x ?e"
            "r' \<longrightarrow> ds_current (the_ds w d') \<noteq> None \<and> ds_buffer_pos (the_ds w d') = 0 \<and> \<not> ds_eof (the_ds w d') \<and>
               (left (dm_stream d') < left (dm_stream ?e) \<or>
                dm_stream d' = dm_stream ?e \<and> length (ds_queue (the_ds w d')) < length (ds_queue (the_ds w ?e)))"
            "\<not> r' \<longrightarrow> unread (the_ds w d') = [] \<and> ds_eof (the_ds w d') \<and>
               (full ni w ?e \<and> \<not> ds_eof (the_ds w ?e) \<longrightarrow> rest w d' = [])"
            "r' \<longrightarrow> full ni w ?e \<longrightarrow> full ni w d'" "same_info ?e d'" by (elim exE conjE) (rule that)
        have info: "same_info d d'" using same_info_trans [OF _ i(7)] e(9) by simp
        have "left (dm_stream d') < left (dm_stream d)" if r' using i(4) that lt by auto
        then show ?thesis unfolding step using i pre(4,5) eof full info
          by (intro exI [of _ r'] exI [of _ d']) simp
      qed
    qed
  qed
qed

end

section \<open>Reading loses nothing\<close>

text \<open>What a call leaves of a stream: the bytes it returned and the rest make up what was there.\<close>

context packet_source
begin

definition reads :: "which \<Rightarrow> 'd demuxer \<Rightarrow> byte list \<Rightarrow> 'd demuxer \<Rightarrow> bool" where
  "reads w d bs d' \<longleftrightarrow> ok d' \<and> rest w d = bs @ rest w d' \<and>
     (\<forall>x. x \<noteq> w \<longrightarrow> rest x d' = rest x d) \<and> same_info d d'"

text \<open>Nothing is left to read, unless the queues were cut off or the end had been met before.\<close>

definition at_end :: "bool \<Rightarrow> which \<Rightarrow> 'd demuxer \<Rightarrow> 'd demuxer \<Rightarrow> bool" where
  "at_end ni w d d' \<longleftrightarrow> unread (the_ds w d') = [] \<and> ds_eof (the_ds w d') \<and>
     (full ni w d \<and> \<not> ds_eof (the_ds w d) \<longrightarrow> rest w d' = [])"

lemma ds_fill_buffer_ok:
  assumes d: "ok d" and e: "ds_buffer_pos (the_ds w d) = ds_buffer_size (the_ds w d)"
  shows "\<exists>r d'. ds_fill_buffer fill ni w d = Some (r, d') \<and> reads w d [] d' \<and>
    (r \<longrightarrow> ds_current (the_ds w d') \<noteq> None \<and> ds_buffer_pos (the_ds w d') = 0 \<and> \<not> ds_eof (the_ds w d') \<and>
       (left (dm_stream d') < left (dm_stream d) \<or>
        dm_stream d' = dm_stream d \<and> length (ds_queue (the_ds w d')) < length (ds_queue (the_ds w d)))) \<and>
    (\<not> r \<longrightarrow> at_end ni w d d') \<and> (r \<longrightarrow> full ni w d \<longrightarrow> full ni w d')"
proof -
  let ?d = "upd_ds w (\<lambda>ds. ds\<lparr>ds_current := None\<rparr>) d"
  have av: "ds_avail (the_ds w d) = []" using e ds_avail_empty [OF ok_ds [OF d, of w]] by simp
  have "ds_ok (the_ds w ?d)" using ok_ds [OF d, of w] e by (auto simp: ds_ok_def split: option.splits)
  then have "ok ?d" using d by (simp add: ok_def)
  moreover have "rest x ?d = rest x d" for x by (simp add: rest_def)
  moreover have "ds_avail (the_ds w ?d) = []" using av by simp
  moreover have "ds_current (the_ds w ?d) = None" by simp
  moreover have "full ni w ?d = full ni w d" by (simp add: full_def clear_def)
  ultimately show ?thesis
    using ds_fill_loop_ok [of ?d w ni] unfolding ds_fill_buffer_def reads_def at_end_def by auto
qed

lemma reads_trans: "reads w d bs d' \<Longrightarrow> reads w d' cs d'' \<Longrightarrow> reads w d (bs @ cs) d''"
  using same_info_trans by (auto simp: reads_def)

lemma reads_skip:
  assumes "ok d" and "x \<le> length (ds_avail (the_ds w d))"
  shows "reads w d (take x (ds_avail (the_ds w d))) (upd_ds w (ds_skip x) d)"
  using assms ds_ok_skip [OF ok_ds [OF assms(1), of w] assms(2)]
    unread_skip [OF ok_ds [OF assms(1), of w] assms(2)]
  by (simp add: reads_def rest_def ok_def)

lemma full_skip: "full ni w (upd_ds w (ds_skip x) d) = full ni w d"
  by (simp add: full_def clear_def ds_skip_def)

text \<open>A stream that is read without limits goes on until everything has been read.\<close>

definition flowing :: "bool \<Rightarrow> which \<Rightarrow> 'd demuxer \<Rightarrow> bool" where
  "flowing ni w d \<longleftrightarrow> full ni w d \<and> \<not> ds_eof (the_ds w d) \<or> rest w d = []"

lemma at_end_rest: "flowing ni w d \<Longrightarrow> reads w d bs d' \<Longrightarrow> at_end ni w d d' \<Longrightarrow> rest w d' = []"
  by (auto simp: flowing_def at_end_def reads_def)

lemma flowing_end: "rest w d = [] \<Longrightarrow> reads w d bs d' \<Longrightarrow> rest w d' = []"
  by (simp add: reads_def)

lemma read_data_ok:
  assumes "ok d"
  shows "\<exists>bs d'. demux_read_data fill ni w n d = Some (bs, d') \<and> reads w d bs d' \<and> length bs \<le> n \<and>
    (length bs = n \<longrightarrow> ds_eof (the_ds w d') \<longrightarrow> ds_eof (the_ds w d)) \<and>
    (length bs = n \<longrightarrow> full ni w d \<longrightarrow> full ni w d') \<and> (length bs < n \<longrightarrow> at_end ni w d d')"
  using assms
proof (induction "(n, left (dm_stream d), length (ds_queue (the_ds w d)))" arbitrary: n d
    rule: wf_induct_rule [OF wf_lex_prod [OF wf_less_than wf_lex_prod [OF wf_less_than wf_less_than]]])
  case (1 n d)
  note ds = ok_ds [OF 1(2), of w]
  consider "n = 0" | "0 < n" "ds_buffer_pos (the_ds w d) = ds_buffer_size (the_ds w d)"
    | "0 < n" "ds_buffer_pos (the_ds w d) < ds_buffer_size (the_ds w d)"
    using ds_ok_pos [OF ds] by linarith
  then show ?case
  proof cases
    case a: 1
    then show ?thesis using 1(2) by (subst demux_read_data.simps) (simp add: reads_def)
  next
    case a: 2
    from ds_fill_buffer_ok [OF 1(2) a(2), of ni] obtain r e where
      e: "ds_fill_buffer fill ni w d = Some (r, e)" "reads w d [] e"
        "r \<longrightarrow> \<not> ds_eof (the_ds w e) \<and> (left (dm_stream e) < left (dm_stream d) \<or>
          dm_stream e = dm_stream d \<and> length (ds_queue (the_ds w e)) < length (ds_queue (the_ds w d)))"
        "\<not> r \<longrightarrow> at_end ni w d e" "r \<longrightarrow> full ni w d \<longrightarrow> full ni w e" by blast
    show ?thesis
    proof (cases r)
      case False
      then show ?thesis using a e by (subst demux_read_data.simps) simp
    next
      case True
      have lt: "((n, left (dm_stream e), length (ds_queue (the_ds w e))),
          (n, left (dm_stream d), length (ds_queue (the_ds w d)))) \<in> less_than <*lex*> less_than <*lex*> less_than"
        using e(3) True by auto
      have ok: "ok e" using e(2) by (simp add: reads_def)
      from 1(1) [OF lt ok] obtain bs d' where
        r: "demux_read_data fill ni w n e = Some (bs, d')" "reads w e bs d'" "length bs \<le> n"
          "length bs = n \<longrightarrow> ds_eof (the_ds w d') \<longrightarrow> ds_eof (the_ds w e)"
          "length bs < n \<longrightarrow> at_end ni w e d'" "length bs = n \<longrightarrow> full ni w e \<longrightarrow> full ni w d'" by blast
      have "reads w d bs d'" using reads_trans [OF e(2) r(2)] by simp
      moreover have "length bs < n \<longrightarrow> at_end ni w d d'" using r(5) e(3,5) True by (simp add: at_end_def)
      ultimately show ?thesis using a e(1,3,5) True r(1,3,4,6)
        by (subst demux_read_data.simps) simp
    qed
  next
    case a: 3
    let ?av = "ds_avail (the_ds w d)"
    define bs where "bs = take n ?av"
    have len: "0 < length bs" "length bs \<le> length ?av" "length bs \<le> n"
      using a length_ds_avail [OF ds] by (simp_all add: bs_def)
    let ?e = "upd_ds w (ds_skip (length bs)) d"
    have "take (length bs) ?av = bs" by (simp add: bs_def min_def)
    then have e: "reads w d bs ?e" using reads_skip [OF 1(2) len(2)] by simp
    have lt: "((n - length bs, left (dm_stream ?e), length (ds_queue (the_ds w ?e))),
        (n, left (dm_stream d), length (ds_queue (the_ds w d)))) \<in> less_than <*lex*> less_than <*lex*> less_than"
      using len(1) a(1) by auto
    have ok: "ok ?e" using e by (simp add: reads_def)
    from 1(1) [OF lt ok] obtain cs d' where
      r: "demux_read_data fill ni w (n - length bs) ?e = Some (cs, d')" "reads w ?e cs d'" "length cs \<le> n - length bs"
        "length cs = n - length bs \<longrightarrow> ds_eof (the_ds w d') \<longrightarrow> ds_eof (the_ds w ?e)"
        "length cs < n - length bs \<longrightarrow> at_end ni w ?e d'"
        "length cs = n - length bs \<longrightarrow> full ni w ?e \<longrightarrow> full ni w d'" by blast
    have "demux_read_data fill ni w n d = Some (bs @ cs, d')"
      using a r(1) by (subst demux_read_data.simps) (simp add: bs_def [symmetric] Let_def)
    moreover have "ds_eof (the_ds w ?e) = ds_eof (the_ds w d)" by (simp add: ds_skip_def)
    moreover have "full ni w ?e = full ni w d" by (simp add: full_skip)
    ultimately show ?thesis using reads_trans [OF e r(2)] r(3-6) len(3)
      by (intro exI [of _ "bs @ cs"] exI [of _ d']) (auto simp: at_end_def)
  qed
qed

text \<open>The other readers.\<close>

lemma getc_ok:
  assumes d: "ok d" and r: "demux_getc fill ni w d = Some (c, d')"
  shows "reads w d (case c of None \<Rightarrow> [] | Some b \<Rightarrow> [b]) d'"
proof -
  have one: "reads w e [ds_buffer (the_ds w e) ! ds_buffer_pos (the_ds w e)] (upd_ds w (ds_skip 1) e)"
    if e: "ok e" "ds_buffer_pos (the_ds w e) < ds_buffer_size (the_ds w e)" for e
  proof -
    note ds = ok_ds [OF e(1), of w]
    have "take 1 (ds_avail (the_ds w e)) = [ds_buffer (the_ds w e) ! ds_buffer_pos (the_ds w e)]"
      using e(2) ds by (auto simp: ds_avail_def ds_ok_def take_Suc hd_drop_conv_nth split: option.splits)
    moreover have "1 \<le> length (ds_avail (the_ds w e))" using length_ds_avail [OF ds] e(2) by simp
    ultimately show ?thesis using reads_skip [OF e(1), of 1 w] by simp
  qed
  show ?thesis
  proof (cases "ds_buffer_pos (the_ds w d) < ds_buffer_size (the_ds w d)")
    case True
    then show ?thesis using r one [OF d] by (auto simp: demux_getc_def)
  next
    case False
    then have "ds_buffer_pos (the_ds w d) = ds_buffer_size (the_ds w d)" using ds_ok_pos [OF ok_ds [OF d, of w]] by simp
    from ds_fill_buffer_ok [OF d this, of ni] obtain s e where
      e: "ds_fill_buffer fill ni w d = Some (s, e)" "reads w d [] e" "s \<longrightarrow> ds_buffer_pos (the_ds w e) = 0" by blast
    have ok: "ok e" using e(2) by (simp add: reads_def)
    show ?thesis
    proof (cases "s \<and> 0 < ds_buffer_size (the_ds w e)")
      case True
      then show ?thesis using r False e one [OF ok] reads_trans [OF e(2)]
        by (auto simp: demux_getc_def split: if_splits)
    next
      case F: False
      then show ?thesis using r False e by (auto simp: demux_getc_def split: if_splits)
    qed
  qed
qed

lemma get_packet_ok:
  assumes d: "ok d"
  shows "\<exists>c d'. ds_get_packet fill ni w d = Some (c, d') \<and>
    reads w d (case c of None \<Rightarrow> [] | Some bs \<Rightarrow> bs) d' \<and> (c = None \<longrightarrow> at_end ni w d d') \<and>
    (c \<noteq> None \<longrightarrow> ds_current (the_ds w d') \<noteq> None)"
proof -
  have all: "reads w e (ds_avail (the_ds w e)) (upd_ds w (ds_skip (length (ds_avail (the_ds w e)))) e)"
    if "ok e" for e using reads_skip [OF that order_refl, of w] by simp
  show ?thesis
  proof (cases "ds_buffer_pos (the_ds w d) < ds_buffer_size (the_ds w d)")
    case True
    then have "ds_current (the_ds w d) \<noteq> None" using ok_ds [OF d, of w] by (auto simp: ds_ok_def split: option.splits)
    then show ?thesis using all [OF d] True by (auto simp: ds_get_packet_def ds_skip_def Let_def)
  next
    case False
    then have "ds_buffer_pos (the_ds w d) = ds_buffer_size (the_ds w d)" using ds_ok_pos [OF ok_ds [OF d, of w]] by simp
    from ds_fill_buffer_ok [OF d this, of ni] obtain s e where
      e: "ds_fill_buffer fill ni w d = Some (s, e)" "reads w d [] e" "s \<longrightarrow> ds_current (the_ds w e) \<noteq> None"
        "\<not> s \<longrightarrow> at_end ni w d e" by blast
    have ok: "ok e" using e(2) by (simp add: reads_def)
    show ?thesis
    proof (cases s)
      case True
      then show ?thesis using False e(1,3) reads_trans [OF e(2) all [OF ok]]
        by (simp add: ds_get_packet_def Let_def) (simp add: ds_skip_def)
    qed (use False e in \<open>simp add: ds_get_packet_def\<close>)
  qed
qed

lemma read_data_flowing:
  assumes "ok d" and "flowing ni w d"
  shows "\<exists>bs d'. demux_read_data fill ni w n d = Some (bs, d') \<and> reads w d bs d' \<and> flowing ni w d' \<and>
    length bs \<le> n \<and> (length bs < n \<longrightarrow> rest w d' = [])"
proof -
  from read_data_ok [OF assms(1), of ni w n] obtain bs d' where
    r: "demux_read_data fill ni w n d = Some (bs, d')" "reads w d bs d'" "length bs \<le> n"
      "length bs = n \<longrightarrow> ds_eof (the_ds w d') \<longrightarrow> ds_eof (the_ds w d)"
      "length bs = n \<longrightarrow> full ni w d \<longrightarrow> full ni w d'" "length bs < n \<longrightarrow> at_end ni w d d'" by blast
  have "length bs < n \<longrightarrow> rest w d' = []" using at_end_rest [OF assms(2) r(2)] r(6) by blast
  moreover have "flowing ni w d'"
    using calculation r(3-5) assms(2) flowing_end [OF _ r(2)] by (auto simp: flowing_def)
  ultimately show ?thesis using r by auto
qed

lemma get_packet_flowing:
  assumes d: "ok d" and fl: "flowing ni w d"
  shows "\<exists>c d'. ds_get_packet fill ni w d = Some (c, d') \<and>
    reads w d (case c of None \<Rightarrow> [] | Some bs \<Rightarrow> bs) d' \<and> flowing ni w d' \<and> (c = None \<longrightarrow> rest w d' = [])"
proof (cases "ds_buffer_pos (the_ds w d) < ds_buffer_size (the_ds w d)")
  case True
  let ?n = "length (ds_avail (the_ds w d))"
  have "reads w d (ds_avail (the_ds w d)) (upd_ds w (ds_skip ?n) d)"
    using reads_skip [OF d order_refl, of w] by simp
  moreover from this have "flowing ni w (upd_ds w (ds_skip ?n) d)"
    using fl flowing_end by (auto simp: flowing_def full_skip ds_skip_def)
  ultimately show ?thesis using True by (auto simp: ds_get_packet_def Let_def)
next
  case False
  then have "ds_buffer_pos (the_ds w d) = ds_buffer_size (the_ds w d)" using ds_ok_pos [OF ok_ds [OF d, of w]] by simp
  from ds_fill_buffer_ok [OF d this, of ni] obtain r e where
    e: "ds_fill_buffer fill ni w d = Some (r, e)" "reads w d [] e" "r \<longrightarrow> \<not> ds_eof (the_ds w e)"
      "\<not> r \<longrightarrow> at_end ni w d e" "r \<longrightarrow> full ni w d \<longrightarrow> full ni w e" by blast
  have ok: "ok e" using e(2) by (simp add: reads_def)
  show ?thesis
  proof (cases r)
    case True
    let ?n = "length (ds_avail (the_ds w e))"
    have fe: "flowing ni w e" using e(3,5) True fl flowing_end [OF _ e(2)] by (auto simp: flowing_def)
    have r2: "reads w e (ds_avail (the_ds w e)) (upd_ds w (ds_skip ?n) e)"
      using reads_skip [OF ok order_refl, of w] by simp
    have "flowing ni w (upd_ds w (ds_skip ?n) e)"
      using fe flowing_end [OF _ r2] by (auto simp: flowing_def full_skip ds_skip_def)
    then show ?thesis using False e(1) True reads_trans [OF e(2) r2] by (simp add: ds_get_packet_def Let_def)
  next
    case F: False
    then have "rest w e = []" using at_end_rest [OF fl e(2)] e(4) by blast
    then show ?thesis using F False e(1,2) by (simp add: ds_get_packet_def flowing_def)
  qed
qed

text \<open>The time stamps are looked up in a packet that is there.\<close>

lemma get_packet_pts_defined:
  assumes "ok d"
  shows "ds_get_packet_pts_endpts fill ni w d \<noteq> None"
  using get_packet_ok [OF assms, of ni w]
  by (auto simp: ds_get_packet_pts_endpts_def Let_def split: option.splits)

end

section \<open>The pattern search\<close>

definition shift_in :: "u32 \<Rightarrow> byte list \<Rightarrow> u32" where
  "shift_in h bs = fold (\<lambda>b h. push_bit 8 (h OR ucast b)) bs h"

lemma shift_in_simps [simp]:
  "shift_in h [] = h" "shift_in h (b # bs) = shift_in (push_bit 8 (h OR ucast b)) bs"
  "shift_in h (bs @ cs) = shift_in (shift_in h bs) cs"
  by (simp_all add: shift_in_def)

lemma shift_in_low: "h AND 255 = 0 \<Longrightarrow> shift_in h bs AND 255 = 0"
proof (induction bs arbitrary: h)
  case (Cons b bs)
  have "push_bit 8 (h OR ucast b :: u32) AND 255 = push_bit 8 (h OR ucast b) AND mask 8"
    by (simp add: mask_eq_exp_minus_1)
  also have "\<dots> = 0" by (rule bit_word_eqI) (auto simp: bit_simps)
  finally show ?case using Cons.IH by simp
qed simp

text \<open>Three bytes as the pattern they make.\<close>

definition pattern_of :: "byte \<Rightarrow> byte \<Rightarrow> byte \<Rightarrow> u32" where
  "pattern_of x y z = push_bit 24 (ucast x) OR push_bit 16 (ucast y) OR push_bit 8 (ucast z)"

lemma pattern_of_masked: "pattern_of x y z AND 0xffffff00 = pattern_of x y z"
proof -
  have e: "(0xffffff00 :: u32) = push_bit 8 (mask 24)" by (simp add: mask_eq_exp_minus_1 push_bit_eq_mult)
  show ?thesis unfolding pattern_of_def e
    by (rule bit_word_eqI) (auto simp: bit_simps dest: bit_imp_le_length)
qed

lemma pattern_of_inject: "pattern_of x y z = pattern_of x' y' z' \<longleftrightarrow> [x, y, z] = [x', y', z']"
proof
  assume e: "pattern_of x y z = pattern_of x' y' z'"
  have bits: "bit (pattern_of a b c) (i + 24) = bit a i" "bit (pattern_of a b c) (i + 16) = bit b i"
    "bit (pattern_of a b c) (i + 8) = bit c i" if "i < 8" for a b c i
    using that by (auto simp: pattern_of_def bit_simps dest: bit_imp_le_length)
  have "bit x i = bit x' i" "bit y i = bit y' i" "bit z i = bit z' i" if "i < 8" for i
    using bits [OF that, of x y z] bits [OF that, of x' y' z'] e by simp_all
  then have "x = x'" "y = y'" "z = z'" by (auto intro!: bit_word_eqI)
  then show "[x, y, z] = [x', y', z']" by simp
qed simp

lemma shift_in_three:
  assumes "h AND 255 = 0"
  shows "shift_in h [x, y, z] = pattern_of x y z"
proof -
  have low: "\<not> bit h i" if "i < 8" for i
  proof -
    have "bit (h AND 255) i = (bit h i \<and> bit (mask 8 :: u32) i)" by (simp add: bit_and_iff mask_eq_exp_minus_1)
    then show ?thesis using assms that by (simp add: bit_mask_iff)
  qed
  show ?thesis
    by (rule bit_word_eqI) (auto simp: pattern_of_def bit_simps low dest: bit_imp_le_length)
qed

lemma length_three: "length xs = 3 \<Longrightarrow> \<exists>a b c. xs = [a, b, c]"
  by (auto simp: numeral_3_eq_3 length_Suc_conv)

lemma shift_in_last_three:
  assumes "h AND 255 = 0" and "3 \<le> length bs"
  shows "shift_in h bs = pattern_of x y z \<longleftrightarrow> drop (length bs - 3) bs = [x, y, z]"
proof -
  obtain cs a b c where bs: "bs = cs @ [a, b, c]"
  proof -
    obtain a b c where "drop (length bs - 3) bs = [a, b, c]"
      using length_three [of "drop (length bs - 3) bs"] assms(2) by auto
    then show ?thesis using that append_take_drop_id [of "length bs - 3" bs] by metis
  qed
  then have "shift_in h bs = pattern_of a b c"
    using shift_in_three [OF shift_in_low [OF assms(1)], of cs a b c] by simp
  then show ?thesis by (auto simp: bs pattern_of_inject)
qed

lemma scan_head_ok:
  assumes "av \<noteq> []"
  shows "1 \<le> fst (scan_head pat av h) \<and> fst (scan_head pat av h) \<le> length av \<and>
    snd (scan_head pat av h) = shift_in h (take (fst (scan_head pat av h)) av) \<and>
    (\<forall>m. 1 \<le> m \<longrightarrow> m \<le> length av \<longrightarrow> shift_in h (take m av) = pat \<longrightarrow> fst (scan_head pat av h) \<le> m)"
  using assms
proof (induction av arbitrary: h)
  case (Cons b bs)
  let ?h = "push_bit 8 (h OR ucast b)"
  show ?case
  proof (cases "bs = [] \<or> ?h = pat")
    case True
    then show ?thesis by (auto simp: Let_def)
  next
    case False
    define n where "n = fst (scan_head pat bs ?h)"
    have IH: "1 \<le> n" "n \<le> length bs" "snd (scan_head pat bs ?h) = shift_in ?h (take n bs)"
      "\<And>m. 1 \<le> m \<Longrightarrow> m \<le> length bs \<Longrightarrow> shift_in ?h (take m bs) = pat \<Longrightarrow> n \<le> m"
      using Cons.IH [of ?h] False unfolding n_def by blast+
    have s: "fst (scan_head pat (b # bs) h) = Suc n" "snd (scan_head pat (b # bs) h) = shift_in ?h (take n bs)"
      using False IH(3) by (simp_all add: Let_def case_prod_beta n_def)
    have "Suc n \<le> m" if "1 \<le> m" "m \<le> length (b # bs)" "shift_in h (take m (b # bs)) = pat" for m
    proof -
      from that(1) obtain k where k: "m = Suc k" by (cases m) auto
      then have "1 \<le> k" using that(3) False by (cases k) auto
      then show ?thesis using IH(4) [of k] that k by simp
    qed
    then show ?thesis using IH(2) unfolding s by simp
  qed
qed simp

context packet_source
begin

lemma read_avail:
  assumes "ok d" and "n \<le> length (ds_avail (the_ds w d))" and "0 < n"
  shows "demux_read_data fill ni w n d = Some (take n (ds_avail (the_ds w d)), upd_ds w (ds_skip n) d)"
proof -
  have "ds_buffer_pos (the_ds w d) < ds_buffer_size (the_ds w d)"
    using length_ds_avail [OF ok_ds [OF assms(1)], of w] assms(2,3) by simp
  then show ?thesis using assms(2,3)
    by (subst demux_read_data.simps, subst demux_read_data.simps) (simp add: Let_def min_def)
qed

lemma pattern_loop_ok:
  assumes "ok d" and "tot \<le> maxlen"
  shows "\<exists>bs h d'. pattern_loop fill ni w pat maxlen head tot d = Some ((bs, h), d') \<and> reads w d bs d' \<and>
    tot + length bs \<le> maxlen \<and> (flowing ni w d \<longrightarrow> flowing ni w d')"
  using assms
proof (induction "(maxlen - tot, left (dm_stream d), length (ds_queue (the_ds w d)))" arbitrary: head tot d
    rule: wf_induct_rule [OF wf_lex_prod [OF wf_less_than wf_lex_prod [OF wf_less_than wf_less_than]]])
  case (1 tot d)
  note ds = ok_ds [OF 1(2), of w]
  show ?case
  proof (cases "ds_avail (the_ds w d) = []")
    case True
    from ds_fill_buffer_ok [OF 1(2), of w ni] True ds_avail_empty [OF ds] obtain r e where
      e: "ds_fill_buffer fill ni w d = Some (r, e)" "reads w d [] e"
        "r \<longrightarrow> (left (dm_stream e) < left (dm_stream d) \<or>
          dm_stream e = dm_stream d \<and> length (ds_queue (the_ds w e)) < length (ds_queue (the_ds w d)))"
        "\<not> r \<longrightarrow> at_end ni w d e" "r \<longrightarrow> \<not> ds_eof (the_ds w e)" "r \<longrightarrow> full ni w d \<longrightarrow> full ni w e" by blast
    have fl: "flowing ni w d \<longrightarrow> flowing ni w e"
      using e(4-6) at_end_rest [OF _ e(2)] flowing_end [OF _ e(2)] by (cases r) (auto simp: flowing_def)
    show ?thesis
    proof (cases "(head \<noteq> pat \<or> tot < 3) \<and> tot < maxlen \<and> \<not> ds_eof (the_ds w e)")
      case False
      then show ?thesis using e(1,2) True 1(3) fl by (subst pattern_loop.simps) (auto simp: Let_def)
    next
      case go: True
      then have r using e(4) by (auto simp: at_end_def)
      then have lt: "((maxlen - tot, left (dm_stream e), length (ds_queue (the_ds w e))),
          (maxlen - tot, left (dm_stream d), length (ds_queue (the_ds w d)))) \<in> less_than <*lex*> less_than <*lex*> less_than"
        using e(3) by auto
      have "ok e" using e(2) by (simp add: reads_def)
      from 1(1) [OF lt this 1(3), of head] obtain bs h d' where
        r: "pattern_loop fill ni w pat maxlen head tot e = Some ((bs, h), d')" "reads w e bs d'"
          "tot + length bs \<le> maxlen" "flowing ni w e \<longrightarrow> flowing ni w d'" by blast
      have "pattern_loop fill ni w pat maxlen head tot d = Some ((bs, h), d')"
        using e(1) True go r(1) by (subst pattern_loop.simps) (simp add: Let_def)
      then show ?thesis using reads_trans [OF e(2) r(2)] r(3,4) fl by auto
    qed
  next
    case False
    let ?av = "ds_avail (the_ds w d)"
    define n where "n = fst (scan_head pat ?av head)"
    define h where "h = snd (scan_head pat ?av head)"
    define k where "k = (if tot + n > maxlen then maxlen - tot else n)"
    have n: "1 \<le> n" "n \<le> length ?av" using scan_head_ok [OF False, of pat head] by (simp_all add: n_def)
    have k: "k \<le> length ?av" "tot + k \<le> maxlen" "tot < maxlen \<Longrightarrow> 0 < k" using n 1(3) by (auto simp: k_def)
    let ?bs = "take k ?av" and ?e = "upd_ds w (ds_skip k) d"
    have read: "demux_read_data fill ni w k d = Some (?bs, ?e)"
    proof (cases "k = 0")
      case True
      have "upd_ds w (ds_skip 0) d = d" by (cases w) (simp_all add: ds_skip_def)
      then show ?thesis using True by (subst demux_read_data.simps) simp
    qed (use read_avail [OF 1(2) k(1)] in simp)
    have e: "reads w d ?bs ?e" by (rule reads_skip [OF 1(2) k(1)])
    have fl: "flowing ni w d \<longrightarrow> flowing ni w ?e"
      using flowing_end [OF _ e] by (auto simp: flowing_def full_skip ds_skip_def)
    have len: "length ?bs = k" using k(1) by simp
    show ?thesis
    proof (cases "(h \<noteq> pat \<or> tot + k < 3) \<and> tot + k < maxlen \<and> \<not> ds_eof (the_ds w ?e)")
      case stop: False
      then have "pattern_loop fill ni w pat maxlen head tot d = Some ((?bs, h), ?e)"
        using False read len
        by (subst pattern_loop.simps)
          (auto simp add: Let_def n_def [symmetric] h_def [symmetric] k_def [symmetric] del: length_take)
      then show ?thesis using e k(2) len fl
        by (intro exI [of _ ?bs] exI [of _ h] exI [of _ ?e]) auto
    next
      case go: True
      then have lt: "((maxlen - (tot + k), left (dm_stream ?e), length (ds_queue (the_ds w ?e))),
          (maxlen - tot, left (dm_stream d), length (ds_queue (the_ds w d)))) \<in> less_than <*lex*> less_than <*lex*> less_than"
        using k(3) by auto
      have "ok ?e" using e by (simp add: reads_def)
      from 1(1) [OF lt this k(2), of h] obtain cs h' d' where
        r: "pattern_loop fill ni w pat maxlen h (tot + k) ?e = Some ((cs, h'), d')" "reads w ?e cs d'"
          "tot + k + length cs \<le> maxlen" "flowing ni w ?e \<longrightarrow> flowing ni w d'" by blast
      have "pattern_loop fill ni w pat maxlen head tot d = Some ((?bs @ cs, h'), d')"
        using False read len go r(1)
        by (subst pattern_loop.simps)
          (simp add: Let_def n_def [symmetric] h_def [symmetric] k_def [symmetric] del: length_take)
      then show ?thesis using reads_trans [OF e r(2)] r(3,4) len fl
        by (intro exI [of _ "?bs @ cs"] exI [of _ h'] exI [of _ d']) auto
    qed
  qed
qed

end

context packet_source
begin

text \<open>
  The search for a pattern that is complete at length \<open>L\<close> and not before, \<open>seen\<close> being what has been read
  already: it stops right there.
\<close>

lemma pattern_loop_finds:
  assumes "ok d" and "full ni w d" and "\<not> ds_eof (the_ds w d)"
    and all: "seen @ rest w d = P" and L: "length seen < L" "L \<le> length P" "3 \<le> L" "L \<le> maxlen"
    and hit: "shift_in h0 (take L P) = pat"
    and first: "\<And>k. 3 \<le> k \<Longrightarrow> k < L \<Longrightarrow> shift_in h0 (take k P) \<noteq> pat"
    and head: "head = shift_in h0 seen"
  shows "\<exists>bs d'. pattern_loop fill ni w pat maxlen head (length seen) d = Some ((bs, pat), d') \<and>
    reads w d bs d' \<and> seen @ bs = take L P"
  using assms(1-6) head
proof (induction "(L - length seen, left (dm_stream d), length (ds_queue (the_ds w d)))" arbitrary: head seen d
    rule: wf_induct_rule [OF wf_lex_prod [OF wf_less_than wf_lex_prod [OF wf_less_than wf_less_than]]])
  case (1 seen d head)
  note d = 1(2-4) and all = 1(5) and L1 = 1(6,7) and head = 1(8)
  note ds = ok_ds [OF d(1), of w]
  have not_yet: "head \<noteq> pat \<or> length seen < 3"
  proof -
    have "take (length seen) P = seen" using all by auto
    then show ?thesis using first [of "length seen"] L1(1) head by (cases "length seen < 3") auto
  qed
  show ?case
  proof (cases "ds_avail (the_ds w d) = []")
    case True
    from ds_fill_buffer_ok [OF d(1), of w ni] True ds_avail_empty [OF ds] obtain r e where
      e: "ds_fill_buffer fill ni w d = Some (r, e)" "reads w d [] e"
        "r \<longrightarrow> \<not> ds_eof (the_ds w e) \<and> (left (dm_stream e) < left (dm_stream d) \<or>
          dm_stream e = dm_stream d \<and> length (ds_queue (the_ds w e)) < length (ds_queue (the_ds w d)))"
        "\<not> r \<longrightarrow> at_end ni w d e" "r \<longrightarrow> full ni w d \<longrightarrow> full ni w e" by blast
    have re: "rest w e = rest w d" using e(2) by (simp add: reads_def)
    have "rest w d \<noteq> []" using all L1 by auto
    then have r: r using e(4) d(2,3) re by (auto simp: at_end_def)
    then have lt: "((L - length seen, left (dm_stream e), length (ds_queue (the_ds w e))),
        (L - length seen, left (dm_stream d), length (ds_queue (the_ds w d)))) \<in> less_than <*lex*> less_than <*lex*> less_than"
      using e(3) by auto
    have "ok e" using e(2) by (simp add: reads_def)
    from 1(1) [OF lt this _ _ _ L1 head] r e(3,5) d(2) all re obtain bs d' where
      i: "pattern_loop fill ni w pat maxlen head (length seen) e = Some ((bs, pat), d')" "reads w e bs d'"
        "seen @ bs = take L P" by auto
    have "pattern_loop fill ni w pat maxlen head (length seen) d = Some ((bs, pat), d')"
      using e(1,3) r True not_yet i(1) L1(1) L(4) by (subst pattern_loop.simps) (simp add: Let_def)
    then show ?thesis using reads_trans [OF e(2) i(2)] i(3) by auto
  next
    case False
    let ?av = "ds_avail (the_ds w d)"
    define n where "n = fst (scan_head pat ?av head)"
    define h where "h = snd (scan_head pat ?av head)"
    have n: "1 \<le> n" "n \<le> length ?av" "h = shift_in head (take n ?av)"
      "\<And>m. 1 \<le> m \<Longrightarrow> m \<le> length ?av \<Longrightarrow> shift_in head (take m ?av) = pat \<Longrightarrow> n \<le> m"
      using scan_head_ok [OF False, of pat head] unfolding n_def h_def by blast+
    have P: "P = seen @ ?av @ data_of (ds_queue (the_ds w d)) @ pend w (dm_stream d)"
      using all by (simp add: rest_def unread_def)
    have le: "length seen + n \<le> L"
    proof (cases "L - length seen \<le> length ?av")
      case True
      have "take L P = seen @ take (L - length seen) ?av" using P True L1(1) by simp
      then have "shift_in head (take (L - length seen) ?av) = pat" using hit head by simp
      moreover have "1 \<le> L - length seen" using L1(1) by simp
      ultimately have "n \<le> L - length seen" using n(4) True by blast
      then show ?thesis using L1(1) by linarith
    next
      case False
      then show ?thesis using n(2) by simp
    qed
    let ?bs = "take n ?av" and ?e = "upd_ds w (ds_skip n) d"
    have read: "demux_read_data fill ni w n d = Some (?bs, ?e)" using read_avail [OF d(1) n(2)] n(1) by simp
    have e: "reads w d ?bs ?e" by (rule reads_skip [OF d(1) n(2)])
    have len: "length ?bs = n" using n(2) by simp
    have seen: "take (length seen + n) P = seen @ ?bs" using P n(2) by simp
    have h: "h = shift_in h0 (seen @ ?bs)" using n(3) head by simp
    have cut: "(if length seen + n > maxlen then maxlen - length seen else n) = n" using le L(4) by simp
    show ?thesis
    proof (cases "length seen + n = L")
      case True
      then have "h = pat" using h seen hit by simp
      then have "pattern_loop fill ni w pat maxlen head (length seen) d = Some ((?bs, pat), ?e)"
        using False read len True L(3) cut
        by (subst pattern_loop.simps) (simp add: Let_def n_def [symmetric] h_def [symmetric] del: length_take)
      then show ?thesis using e seen True by auto
    next
      case go: False
      then have lt: "((L - length (seen @ ?bs), left (dm_stream ?e), length (ds_queue (the_ds w ?e))),
          (L - length seen, left (dm_stream d), length (ds_queue (the_ds w d)))) \<in> less_than <*lex*> less_than <*lex*> less_than"
        using n(1) le len by auto
      have e': "ok ?e" "full ni w ?e" "\<not> ds_eof (the_ds w ?e)" "(seen @ ?bs) @ rest w ?e = P"
        "length (seen @ ?bs) < L"
        using e d(2,3) all le go len by (simp_all add: reads_def full_skip) (simp add: ds_skip_def)
      from 1(1) [OF lt e'(1-4) e'(5) L1(2) h] obtain cs d' where
        i: "pattern_loop fill ni w pat maxlen h (length (seen @ ?bs)) ?e = Some ((cs, pat), d')" "reads w ?e cs d'"
          "(seen @ ?bs) @ cs = take L P" by blast
      have "h \<noteq> pat \<or> length seen + n < 3"
        using first [of "length seen + n"] seen h le go by (cases "length seen + n < 3") auto
      moreover have "length seen + n < maxlen" using le go L(4) by simp
      ultimately have "pattern_loop fill ni w pat maxlen head (length seen) d = Some ((?bs @ cs, pat), d')"
        using False read len i(1) cut e'(3)
        by (subst pattern_loop.simps) (simp add: Let_def n_def [symmetric] h_def [symmetric] del: length_take)
      then show ?thesis using reads_trans [OF e i(2)] i(3) by auto
    qed
  qed
qed

lemma pattern_found:
  assumes d: "ok d" "full ni w d" "\<not> ds_eof (the_ds w d)"
    and r: "rest w d = pre @ [x, y, z] @ post" and m: "length pre + 3 \<le> maxlen"
    and first: "\<And>k. k < length pre \<Longrightarrow> take 3 (drop k (rest w d)) \<noteq> [x, y, z]"
  shows "\<exists>d'. demux_pattern_3 fill ni w maxlen (pattern_of x y z) d = Some ((True, pre @ [x, y, z]), d') \<and>
    reads w d (pre @ [x, y, z]) d'"
proof -
  let ?P = "rest w d" and ?L = "length pre + 3" and ?h = "0xffffff00 :: u32"
  have h0: "?h AND 255 = 0" by simp
  have t: "take ?L ?P = pre @ [x, y, z]" using r by simp
  have hit: "shift_in ?h (take ?L ?P) = pattern_of x y z"
    unfolding t using shift_in_three [OF shift_in_low [OF h0], of pre x y z] by simp
  have "shift_in ?h (take k ?P) \<noteq> pattern_of x y z" if "3 \<le> k" "k < ?L" for k
  proof -
    have k: "length (take k ?P) = k" using that r by simp
    have "drop (k - 3) (take k ?P) = take 3 (drop (k - 3) ?P)" using that(1) by (simp add: drop_take)
    also have "\<dots> \<noteq> [x, y, z]" using first [of "k - 3"] that by auto
    finally show ?thesis using shift_in_last_three [OF h0, of "take k ?P" x y z] k that(1) by simp
  qed
  from pattern_loop_finds [OF d, of "[]" ?P ?L maxlen ?h "pattern_of x y z" ?h] r m hit this obtain bs d' where
    "pattern_loop fill ni w (pattern_of x y z) maxlen ?h 0 d = Some ((bs, pattern_of x y z), d')"
    "reads w d bs d'" "bs = pre @ [x, y, z]" by (auto simp: t)
  then show ?thesis by (simp add: demux_pattern_3_def pattern_of_masked)
qed

end

section \<open>Sequences of reads\<close>

text \<open>
  What a decoder asks of its stream. The flag of a reply says that the demuxer reported the end: a short
  read, or no packet.
\<close>

datatype ds_cmd = Read_data nat | Get_packet | Find_pattern nat u32

fun ds_do ::
  "'d fill_fun \<Rightarrow> bool \<Rightarrow> which \<Rightarrow> ds_cmd \<Rightarrow> 'd demuxer \<Rightarrow> ((byte list \<times> bool) \<times> 'd demuxer) option" where
  "ds_do fill ni w (Read_data n) d =
     do { (bs, d) \<leftarrow> demux_read_data fill ni w n d; Some ((bs, length bs < n), d) }"
| "ds_do fill ni w Get_packet d =
     do { (c, d) \<leftarrow> ds_get_packet fill ni w d;
          Some ((case c of None \<Rightarrow> [] | Some bs \<Rightarrow> bs, c = None), d) }"
| "ds_do fill ni w (Find_pattern n p) d =
     do { ((r, bs), d) \<leftarrow> demux_pattern_3 fill ni w n p d; Some ((bs, False), d) }"

fun ds_run ::
  "'d fill_fun \<Rightarrow> bool \<Rightarrow> which \<Rightarrow> ds_cmd list \<Rightarrow> 'd demuxer \<Rightarrow> ((byte list \<times> bool) list \<times> 'd demuxer) option" where
  "ds_run fill ni w [] d = Some ([], d)"
| "ds_run fill ni w (c # cs) d =
     do { (r, d) \<leftarrow> ds_do fill ni w c d; (rs, d) \<leftarrow> ds_run fill ni w cs d; Some (r # rs, d) }"

context packet_source
begin

lemma ds_do_ok:
  assumes "ok d" and "flowing ni w d"
  shows "\<exists>bs e d'. ds_do fill ni w c d = Some ((bs, e), d') \<and> reads w d bs d' \<and> flowing ni w d' \<and>
    (e \<longrightarrow> rest w d' = [])"
proof (cases c)
  case (Read_data n)
  then show ?thesis using read_data_flowing [OF assms, of n] by fastforce
next
  case Get_packet
  then show ?thesis using get_packet_flowing [OF assms] by fastforce
next
  case (Find_pattern n p)
  from pattern_loop_ok [OF assms(1), of 0 n ni w "p AND 0xffffff00" "0xffffff00"] assms(2) obtain bs h d' where
    "pattern_loop fill ni w (p AND 0xffffff00) n 0xffffff00 0 d = Some ((bs, h), d')" "reads w d bs d'"
    "flowing ni w d'" by auto
  then show ?thesis
    by (intro exI [of _ bs] exI [of _ False] exI [of _ d']) (simp add: Find_pattern demux_pattern_3_def Let_def)
qed

lemma ds_run_ok:
  assumes "ok d" and "flowing ni w d"
  shows "\<exists>rs d'. ds_run fill ni w cs d = Some (rs, d') \<and> reads w d (concat (map fst rs)) d' \<and> flowing ni w d' \<and>
    (list_ex snd rs \<longrightarrow> rest w d' = [])"
  using assms
proof (induction cs arbitrary: d)
  case Nil
  then show ?case by (simp add: reads_def)
next
  case (Cons c cs)
  from ds_do_ok [OF Cons.prems, of c] obtain bs e d1 where
    1: "ds_do fill ni w c d = Some ((bs, e), d1)" "reads w d bs d1" "flowing ni w d1" "e \<longrightarrow> rest w d1 = []" by blast
  have "ok d1" using 1(2) by (simp add: reads_def)
  from Cons.IH [OF this 1(3)] obtain rs d' where
    2: "ds_run fill ni w cs d1 = Some (rs, d')" "reads w d1 (concat (map fst rs)) d'" "flowing ni w d'"
      "list_ex snd rs \<longrightarrow> rest w d' = []" by blast
  have "rest w d1 = [] \<longrightarrow> rest w d' = []" using flowing_end [OF _ 2(2)] by blast
  then show ?case using 1(1,4) 2(1,3,4) reads_trans [OF 1(2) 2(2)] by auto
qed

end

end
