(* ===== verification/Demux_Control.thy ===== *)
theory Demux_Control
  imports Demux C_String
begin

text \<open>
  The rest of \<^verbatim>\<open>libmpdemux/demuxer.c\<close>: seeking, the tables of elementary streams and the choice of a
  track, chapters, and the information a file carries about itself. The callbacks of a file format
  other than \<^verbatim>\<open>fill_buffer\<close> and the control of the stream below are the record \<open>demux_ops\<close>. \<^verbatim>\<open>demux_seek\<close> is the
  one of platforms other than AmigaOS 4, which does not ask the stream for a time.

  The decoders, which \<^verbatim>\<open>demux_resync\<close> also resets, are outside; numbers of type \<^verbatim>\<open>float\<close> and \<^verbatim>\<open>double\<close> are
  real numbers.
\<close>

section \<open>Callbacks\<close>

definition STREAM_UNSUPPORTED :: int where "STREAM_UNSUPPORTED = -1"
definition STREAM_OK :: int where "STREAM_OK = 1"
definition STREAM_CTRL_GET_TIME_LENGTH :: int where "STREAM_CTRL_GET_TIME_LENGTH = 1"
definition STREAM_CTRL_SEEK_TO_CHAPTER :: int where "STREAM_CTRL_SEEK_TO_CHAPTER = 2"
definition STREAM_CTRL_GET_CURRENT_CHAPTER :: int where "STREAM_CTRL_GET_CURRENT_CHAPTER = 3"
definition STREAM_CTRL_GET_NUM_CHAPTERS :: int where "STREAM_CTRL_GET_NUM_CHAPTERS = 4"
definition STREAM_CTRL_SEEK_TO_TIME :: int where "STREAM_CTRL_SEEK_TO_TIME = 6"
definition STREAM_CTRL_GET_NUM_ANGLES :: int where "STREAM_CTRL_GET_NUM_ANGLES = 9"
definition STREAM_CTRL_GET_ANGLE :: int where "STREAM_CTRL_GET_ANGLE = 10"
definition STREAM_CTRL_SET_ANGLE :: int where "STREAM_CTRL_SET_ANGLE = 11"
definition DEMUXER_CTRL_NOTIMPL :: int where "DEMUXER_CTRL_NOTIMPL = -1"
definition DEMUXER_CTRL_GET_TIME_LENGTH :: int where "DEMUXER_CTRL_GET_TIME_LENGTH = 10"
definition DEMUXER_CTRL_GET_PERCENT_POS :: int where "DEMUXER_CTRL_GET_PERCENT_POS = 11"
definition DEMUXER_CTRL_SWITCH_AUDIO :: int where "DEMUXER_CTRL_SWITCH_AUDIO = 12"
definition DEMUXER_CTRL_RESYNC :: int where "DEMUXER_CTRL_RESYNC = 13"
definition DEMUXER_CTRL_SWITCH_VIDEO :: int where "DEMUXER_CTRL_SWITCH_VIDEO = 14"
definition SEEK_ABSOLUTE :: nat where "SEEK_ABSOLUTE = 1"
definition SEEK_FACTOR :: nat where "SEEK_FACTOR = 2"
definition MAX_A_STREAMS :: nat where "MAX_A_STREAMS = 256"
definition MAX_V_STREAMS :: nat where "MAX_V_STREAMS = 256"
definition MAX_S_STREAMS :: nat where "MAX_S_STREAMS = 256"

text \<open>
  A control takes a command and its argument and gives its result and the argument as it is left. The
  control of the stream is two functions, for the commands about times and for those about numbers.
\<close>

record 'd demux_ops =
  dx_fill :: "'d fill_fun"
  dx_seek :: "('d demuxer \<Rightarrow> real \<Rightarrow> real \<Rightarrow> nat \<Rightarrow> 'd demuxer option) option"
  dx_control :: "('d demuxer \<Rightarrow> int \<Rightarrow> int \<Rightarrow> int \<times> int \<times> 'd demuxer) option"
  dx_stream_control :: "'d stream \<Rightarrow> int \<Rightarrow> real \<Rightarrow> int \<times> real \<times> 'd stream"
  dx_stream_number :: "'d stream \<Rightarrow> int \<Rightarrow> int \<Rightarrow> int \<times> int \<times> 'd stream"

definition demux_control :: "'d demux_ops \<Rightarrow> 'd demuxer \<Rightarrow> int \<Rightarrow> int \<Rightarrow> int \<times> int \<times> 'd demuxer" where
  "demux_control ops d cmd arg =
     (case dx_control ops of Some f \<Rightarrow> f d cmd arg | None \<Rightarrow> (DEMUXER_CTRL_NOTIMPL, arg, d))"

section \<open>Seeking\<close>

definition demux_resync :: "'d demux_ops \<Rightarrow> 'd demuxer \<Rightarrow> 'd demuxer" where
  "demux_resync ops d =
     (case demux_control ops d DEMUXER_CTRL_RESYNC 0 of
        (r, a, d) \<Rightarrow> upd_ds Video (\<lambda>ds. ds\<lparr>ds_fill_count := -80\<rparr>)
                       (upd_ds Audio (\<lambda>ds. ds\<lparr>ds_fill_count := -80\<rparr>) d))"

text \<open>Flushing and clearing the ends of file.\<close>

definition demux_restart :: "'d demuxer \<Rightarrow> 'd demuxer" where
  "demux_restart d =
     (let d = demux_flush d;
          d = d\<lparr>dm_stream := (dm_stream d)\<lparr>eof := False\<rparr>\<rparr>;
          clear = (\<lambda>ds. ds\<lparr>ds_eof := False\<rparr>)
      in upd_ds Sub clear (upd_ds Audio clear (upd_ds Video clear d)))"

text \<open>The time to give the stream, if it can be told; asking for the length may change the stream.\<close>

definition seek_target :: "'d demux_ops \<Rightarrow> real \<Rightarrow> nat \<Rightarrow> 'd demuxer \<Rightarrow> real option \<times> 'd demuxer" where
  "seek_target ops rel fl d =
     (case (if fl AND SEEK_ABSOLUTE \<noteq> 0 then Some 0 else dm_stream_pts d) of
        None \<Rightarrow> (None, d)
      | Some pts \<Rightarrow>
          if fl AND SEEK_FACTOR \<noteq> 0
          then (case dx_stream_control ops (dm_stream d) STREAM_CTRL_GET_TIME_LENGTH 0 of
                  (r, tmp, st) \<Rightarrow>
                    if r = STREAM_UNSUPPORTED then (None, d\<lparr>dm_stream := st\<rparr>)
                    else (Some (pts + tmp * rel), d\<lparr>dm_stream := st\<rparr>))
          else (Some (pts + rel), d))"

text \<open>The seek of the file format, after \<^verbatim>\<open>dmx_seek\<close>.\<close>

definition dmx_seek :: "'d demux_ops \<Rightarrow> real \<Rightarrow> real \<Rightarrow> nat \<Rightarrow> 'd demuxer \<Rightarrow> 'd demuxer option" where
  "dmx_seek ops rel delay fl d = do {
     d \<leftarrow> (case dx_seek ops of None \<Rightarrow> Some d | Some f \<Rightarrow> f d rel delay fl);
     Some (demux_resync ops d) }"

definition demux_seek ::
  "'d demux_ops \<Rightarrow> 'd demuxer \<Rightarrow> real \<Rightarrow> real \<Rightarrow> nat \<Rightarrow> (int \<times> 'd demuxer) option" where
  "demux_seek ops d rel delay fl =
     (if \<not> dm_seekable d then Some (0, d)
      else (let d = demux_restart d in
            case seek_target ops rel fl d of
              (None, d) \<Rightarrow> map_option (Pair 1) (dmx_seek ops rel delay fl d)
            | (Some pts, d) \<Rightarrow>
                (case dx_stream_control ops (dm_stream d) STREAM_CTRL_SEEK_TO_TIME pts of
                   (r, a, st) \<Rightarrow>
                     let d = d\<lparr>dm_stream := st\<rparr>
                     in if r \<noteq> STREAM_UNSUPPORTED then Some (1, demux_resync ops d)
                        else map_option (Pair 1) (dmx_seek ops rel delay fl d))))"

text \<open>C's conversion of a floating point number to an integer.\<close>

definition trunc :: "real \<Rightarrow> int" where
  "trunc x = (if 0 \<le> x then \<lfloor>x\<rfloor> else \<lceil>x\<rceil>)"

definition demux_rawvideo_seek ::
  "'d stream_ops \<Rightarrow> nat \<Rightarrow> real \<Rightarrow> real \<Rightarrow> 'd demuxer \<Rightarrow> real \<Rightarrow> real \<Rightarrow> nat \<Rightarrow> 'd demuxer option" where
  "demux_rawvideo_seek ops imgsize frametime i_bps d rel delay fl =
     (let p = (if fl AND SEEK_ABSOLUTE \<noteq> 0 then dm_movi_start d else stream_tell (dm_stream d));
          p = (if fl AND SEEK_FACTOR \<noteq> 0
               then trunc (of_int p + of_int (dm_movi_end d - dm_movi_start d) * rel)
               else trunc (of_int p + rel * i_bps));
          p = (if p < 0 then 0 else p);
          p = (if dm_movi_end d \<noteq> 0 \<and> p > dm_movi_end d then dm_movi_end d - int imgsize else p);
          p = p sdiv int imgsize
      in do { (r, st) \<leftarrow> stream_seek ops (dm_stream d) (p * int imgsize);
              Some (upd_ds Video (\<lambda>ds. ds\<lparr>ds_pts := of_int p * frametime\<rparr>) (d\<lparr>dm_stream := st\<rparr>)) })"

text \<open>\<^verbatim>\<open>demux_rawaudio_seek\<close>, with the bytes per second and those of a sample of all channels.\<close>

definition demux_rawaudio_seek ::
  "'d stream_ops \<Rightarrow> real \<Rightarrow> int \<Rightarrow> 'd demuxer \<Rightarrow> real \<Rightarrow> real \<Rightarrow> nat \<Rightarrow> 'd demuxer option" where
  "demux_rawaudio_seek ops i_bps sample d rel delay fl =
     (let base = (if fl AND SEEK_ABSOLUTE \<noteq> 0 then dm_movi_start d else stream_tell (dm_stream d));
          p = (if fl AND SEEK_FACTOR \<noteq> 0
               then trunc (of_int base + of_int (dm_movi_end d - dm_movi_start d) * rel)
               else trunc (of_int base + rel * i_bps))
      in if sample = 0 then None
         else do { (r, st) \<leftarrow> stream_seek ops (dm_stream d) (p - p smod sample); Some (d\<lparr>dm_stream := st\<rparr>) })"

text \<open>The description of the raw video demuxer, over a stream whose control knows no times.\<close>

definition rawvideo_ops :: "'d stream_ops \<Rightarrow> nat \<Rightarrow> real \<Rightarrow> real \<Rightarrow> 'd demux_ops" where
  "rawvideo_ops ops imgsize frametime i_bps =
     \<lparr>dx_fill = demux_rawvideo_fill_buffer ops imgsize frametime,
      dx_seek = Some (demux_rawvideo_seek ops imgsize frametime i_bps), dx_control = None,
      dx_stream_control = (\<lambda>st cmd a. (STREAM_UNSUPPORTED, a, st)),
      dx_stream_number = (\<lambda>st cmd a. (STREAM_UNSUPPORTED, a, st))\<rparr>"

section \<open>Elementary streams and tracks\<close>

definition new_sh :: "int \<Rightarrow> string option \<Rightarrow> sh_stream" where
  "new_sh track lang =
     \<lparr>sh_track = track,
      sh_lang = (case lang of None \<Rightarrow> None | Some l \<Rightarrow> if l = [] \<or> l = ''und'' then None else Some l),
      sh_default_track = False, sh_needs_parsing = False, sh_pts = None, sh_i_bps = 0\<rparr>"

text \<open>
  \<^verbatim>\<open>new_sh_audio_aid\<close>; \<open>audio_id\<close> is the track the user has chosen. A number that is in use is only warned
  about.
\<close>

definition new_sh_audio_aid ::
  "int \<Rightarrow> 'd demuxer \<Rightarrow> int \<Rightarrow> int \<Rightarrow> string option \<Rightarrow> sh_stream option \<times> 'd demuxer" where
  "new_sh_audio_aid audio_id d i aid lang =
     (if i > int MAX_A_STREAMS - 1 \<or> i < 0 then (None, d)
      else case dm_a_streams d ! nat i of
        Some sh \<Rightarrow> (Some sh, d)
      | None \<Rightarrow>
          (let sh = new_sh aid lang;
               d = d\<lparr>dm_a_streams := (dm_a_streams d)[nat i := Some sh]\<rparr>;
               d = (if aid = audio_id
                    then upd_ds Audio (\<lambda>ds. ds\<lparr>ds_id := i, ds_sh := Some sh\<rparr>) d else d)
           in (Some sh, d)))"

definition new_sh_video_vid ::
  "int \<Rightarrow> 'd demuxer \<Rightarrow> int \<Rightarrow> int \<Rightarrow> sh_stream option \<times> 'd demuxer" where
  "new_sh_video_vid video_id d i vid =
     (if i > int MAX_V_STREAMS - 1 \<or> i < 0 then (None, d)
      else case dm_v_streams d ! nat i of
        Some sh \<Rightarrow> (Some sh, d)
      | None \<Rightarrow>
          (let sh = new_sh vid None;
               d = d\<lparr>dm_v_streams := (dm_v_streams d)[nat i := Some sh]\<rparr>;
               d = (if vid = video_id
                    then upd_ds Video (\<lambda>ds. ds\<lparr>ds_id := i, ds_sh := Some sh\<rparr>) d else d)
           in (Some sh, d)))"

definition new_sh_sub_sid ::
  "int \<Rightarrow> 'd demuxer \<Rightarrow> int \<Rightarrow> int \<Rightarrow> string option \<Rightarrow> sh_stream option \<times> 'd demuxer" where
  "new_sh_sub_sid dvdsub_id d i sid lang =
     (if i > int MAX_S_STREAMS - 1 \<or> i < 0 then (None, d)
      else case dm_s_streams d ! nat i of
        Some sh \<Rightarrow> (Some sh, d)
      | None \<Rightarrow>
          (let sh = new_sh sid lang;
               d = d\<lparr>dm_s_streams := (dm_s_streams d)[nat i := Some sh]\<rparr>;
               d = (if sid = dvdsub_id
                    then upd_ds Sub (\<lambda>ds. ds\<lparr>ds_id := i, ds_sh := Some sh\<rparr>) d else d)
           in (Some sh, d)))"

definition demuxer_switch_audio :: "'d demux_ops \<Rightarrow> 'd demuxer \<Rightarrow> int \<Rightarrow> int \<times> 'd demuxer" where
  "demuxer_switch_audio ops d idx =
     (case demux_control ops d DEMUXER_CTRL_SWITCH_AUDIO idx of
        (res, idx, d) \<Rightarrow>
          let idx = (if res = DEMUXER_CTRL_NOTIMPL then ds_id (dm_audio d) else idx)
          in (idx, upd_ds Audio (\<lambda>ds. ds\<lparr>ds_sh :=
                     (if ds_id ds \<ge> 0 then dm_a_streams d ! nat (ds_id ds) else None)\<rparr>) d))"

definition demuxer_get_percent_pos :: "'d demux_ops \<Rightarrow> 'd demuxer \<Rightarrow> int \<times> 'd demuxer" where
  "demuxer_get_percent_pos ops d =
     (case demux_control ops d DEMUXER_CTRL_GET_PERCENT_POS 0 of
        (res, ans, d) \<Rightarrow>
          let len = (dm_movi_end d - dm_movi_start d) sdiv 100;
              ans = (if res \<le> 0
                     then let p = (if dm_filepos d > 0 then dm_filepos d else stream_tell (dm_stream d))
                          in if len > 0 then (p - dm_movi_start d) sdiv len else 0
                     else ans);
              ans = (if ans < 0 then 0 else ans)
          in (if ans > 100 then 100 else ans, d))"

definition demuxer_switch_video :: "'d demux_ops \<Rightarrow> 'd demuxer \<Rightarrow> int \<Rightarrow> int \<times> 'd demuxer" where
  "demuxer_switch_video ops d idx =
     (case demux_control ops d DEMUXER_CTRL_SWITCH_VIDEO idx of
        (res, idx, d) \<Rightarrow>
          let idx = (if res = DEMUXER_CTRL_NOTIMPL then ds_id (dm_video d) else idx)
          in (idx, upd_ds Video (\<lambda>ds. ds\<lparr>ds_sh :=
                     (if ds_id ds \<ge> 0 then dm_v_streams d ! nat (ds_id ds) else None)\<rparr>) d))"

text \<open>
  The length in seconds: as the stream knows it, or estimated from the bytes per second. The demuxer's own
  answer to the command about the length is the parameter \<open>len\<close>, if it has one.
\<close>

definition i_bps_of :: "demux_stream \<Rightarrow> int" where
  "i_bps_of ds = (case ds_sh ds of None \<Rightarrow> 0 | Some sh \<Rightarrow> sh_i_bps sh)"

definition demuxer_get_time_length :: "'d demux_ops \<Rightarrow> real option \<Rightarrow> 'd demuxer \<Rightarrow> real \<times> 'd demuxer" where
  "demuxer_get_time_length ops len d =
     (case len of Some t \<Rightarrow> (t, d)
      | None \<Rightarrow>
        (case dx_stream_control ops (dm_stream d) STREAM_CTRL_GET_TIME_LENGTH 0 of (r, t, st) \<Rightarrow>
          (let d = d\<lparr>dm_stream := st\<rparr>; v = i_bps_of (dm_video d); a = i_bps_of (dm_audio d);
               bytes = (of_int (dm_movi_end d - dm_movi_start d) :: real)
           in (if r = STREAM_OK then t
               else if v \<noteq> 0 \<and> a \<noteq> 0 then bytes / of_int (v + a)
               else if v \<noteq> 0 then bytes / of_int v
               else if a \<noteq> 0 then bytes / of_int a
               else 0, d))))"

definition sh_time :: "demux_stream \<Rightarrow> real option" where
  "sh_time ds = (case ds_sh ds of None \<Rightarrow> None | Some sh \<Rightarrow> sh_pts sh)"

definition demuxer_get_current_time :: "'d demuxer \<Rightarrow> real" where
  "demuxer_get_current_time d =
     (case dm_stream_pts d of Some t \<Rightarrow> t
      | None \<Rightarrow> (case sh_time (dm_video d) of Some t \<Rightarrow> t
      | None \<Rightarrow> (case sh_time (dm_audio d) of Some t \<Rightarrow> t | None \<Rightarrow> 0)))"

text \<open>The non-empty parts of a list separated by commas.\<close>

function lang_parts :: "string \<Rightarrow> string list" where
  "lang_parts s =
     (let s = dropWhile (\<lambda>c. c = CHR '','') s; p = takeWhile (\<lambda>c. c \<noteq> CHR '','') s
      in if p = [] then [] else p # lang_parts (drop (length p) s))"
  by pat_completeness auto

termination
proof (relation "measure length")
  fix s x xa :: string
  assume x: "x = dropWhile (\<lambda>c. c = CHR '','') s" and xa: "xa = takeWhile (\<lambda>c. c \<noteq> CHR '','') x" "xa \<noteq> []"
  have "length x \<le> length s" unfolding x by (rule length_dropWhile_le)
  moreover have "length xa \<le> length x" unfolding xa(1) by (rule length_takeWhile_le)
  ultimately show "(drop (length xa) x, s) \<in> measure length" using xa(2) by (cases xa) auto
qed simp

text \<open>The first stream of the table for which a test holds, and its track.\<close>

fun find_sh :: "(sh_stream \<Rightarrow> bool) \<Rightarrow> sh_stream option list \<Rightarrow> int option" where
  "find_sh P [] = None"
| "find_sh P (Some sh # shs) = (if P sh then Some (sh_track sh) else find_sh P shs)"
| "find_sh P (None # shs) = find_sh P shs"

definition lang_is :: "string \<Rightarrow> sh_stream \<Rightarrow> bool" where
  "lang_is p sh \<longleftrightarrow> (case sh_lang sh of None \<Rightarrow> False | Some l \<Rightarrow> is_prefix p l)"

fun track_by_lang :: "sh_stream option list \<Rightarrow> string list \<Rightarrow> int" where
  "track_by_lang shs [] = -1"
| "track_by_lang shs (p # ps) =
     (case find_sh (lang_is p) shs of Some t \<Rightarrow> t | None \<Rightarrow> track_by_lang shs ps)"

definition demuxer_audio_track_by_lang :: "'d demuxer \<Rightarrow> string \<Rightarrow> int" where
  "demuxer_audio_track_by_lang d lang = track_by_lang (dm_a_streams d) (lang_parts lang)"

definition demuxer_sub_track_by_lang :: "'d demuxer \<Rightarrow> string \<Rightarrow> int" where
  "demuxer_sub_track_by_lang d lang = track_by_lang (dm_s_streams d) (lang_parts lang)"

definition demuxer_default_audio_track :: "'d demuxer \<Rightarrow> int" where
  "demuxer_default_audio_track d =
     (case find_sh sh_default_track (dm_a_streams d) of Some t \<Rightarrow> t
      | None \<Rightarrow> (case find_sh (\<lambda>sh. True) (dm_a_streams d) of Some t \<Rightarrow> t | None \<Rightarrow> -1))"

definition demuxer_default_video_track :: "'d demuxer \<Rightarrow> int" where
  "demuxer_default_video_track d =
     (case find_sh sh_default_track (dm_v_streams d) of Some t \<Rightarrow> t
      | None \<Rightarrow> (case find_sh (\<lambda>sh. True) (dm_v_streams d) of Some t \<Rightarrow> t | None \<Rightarrow> -1))"

definition demuxer_default_sub_track :: "'d demuxer \<Rightarrow> int" where
  "demuxer_default_sub_track d =
     (case find_sh sh_default_track (dm_s_streams d) of Some t \<Rightarrow> t | None \<Rightarrow> -1)"

section \<open>Chapters\<close>

definition demuxer_add_chapter :: "'d demuxer \<Rightarrow> string option \<Rightarrow> nat \<Rightarrow> nat \<Rightarrow> int \<times> 'd demuxer" where
  "demuxer_add_chapter d nm st en =
     (int (length (dm_chapters d)),
      d\<lparr>dm_chapters := dm_chapters d @
          [\<lparr>ch_start = st, ch_end = en, ch_name = (case nm of None \<Rightarrow> ''unknown'' | Some s \<Rightarrow> s)\<rparr>]\<rparr>)"

text \<open>
  The time in milliseconds the chapters are compared with, rounded; a decoder that has no time stamp yet
  gives a number the code cannot convert.
\<close>

definition chapter_now :: "'d demuxer \<Rightarrow> nat option" where
  "chapter_now d =
     (case (case (ds_sh (dm_video d), ds_sh (dm_audio d)) of
              (Some sh, _) \<Rightarrow> sh_pts sh | (None, Some sh) \<Rightarrow> sh_pts sh | (None, None) \<Rightarrow> Some 0) of
        None \<Rightarrow> None
      | Some t \<Rightarrow> if t * 1000 + 1 / 2 < 0 then None else Some (nat (trunc (t * 1000 + 1 / 2))))"

text \<open>The loop over the chapters from the last one down: the first that has begun, or -1.\<close>

fun chapter_at :: "demux_chapter list \<Rightarrow> nat \<Rightarrow> nat \<Rightarrow> int" where
  "chapter_at chs now 0 = -1"
| "chapter_at chs now (Suc k) = (if ch_start (chs ! k) \<le> now then int k else chapter_at chs now k)"

text \<open>
  A command about a number to the stream of the demuxer, which may change the stream.
\<close>

definition stream_number :: "'d demux_ops \<Rightarrow> 'd demuxer \<Rightarrow> int \<Rightarrow> int \<Rightarrow> int \<times> int \<times> 'd demuxer" where
  "stream_number ops d cmd a =
     (case dx_stream_number ops (dm_stream d) cmd a of (r, a, st) \<Rightarrow> (r, a, d\<lparr>dm_stream := st\<rparr>))"

text \<open>Its answer, or a number of the caller's when the stream does not know the command.\<close>

definition ask_number :: "'d demux_ops \<Rightarrow> 'd demuxer \<Rightarrow> int \<Rightarrow> int \<Rightarrow> int \<times> 'd demuxer" where
  "ask_number ops d cmd a =
     (case stream_number ops d cmd a of (r, n, d) \<Rightarrow> (if r = STREAM_UNSUPPORTED then a else n, d))"

text \<open>The format \<^verbatim>\<open>of %3d\<close> of a number of chapters.\<close>

definition of_chapters :: "int \<Rightarrow> string" where
  "of_chapters n = '' of '' @ replicate (3 - length (show_int n)) CHR '' '' @ show_int n"

text \<open>
  \<^verbatim>\<open>demuxer_seek_chapter\<close> when the stream knows the chapters. The result is the chapter, and the time to
  seek to, the number of chapters and the name the caller gets, if they are set.
\<close>

definition stream_seek_chapter ::
  "'d demux_ops \<Rightarrow> 'd demuxer \<Rightarrow> int \<Rightarrow> (int \<times> (real \<times> int \<times> string option) option) \<times> 'd demuxer" where
  "stream_seek_chapter ops d c =
     (let d = demux_flush d in
      case stream_number ops d STREAM_CTRL_SEEK_TO_CHAPTER c of (ris, c, d) \<Rightarrow>
      case ask_number ops (demux_resync ops d) STREAM_CTRL_GET_NUM_CHAPTERS 0 of (n, d) \<Rightarrow>
        ((if ris \<noteq> STREAM_UNSUPPORTED then c else -1,
          Some (-1, n, if n \<noteq> 0 then Some (of_chapters n) else None)), d))"

text \<open>\<^verbatim>\<open>demuxer_seek_chapter\<close>, both pointers for the number and the name given.\<close>

definition demuxer_seek_chapter ::
  "'d demux_ops \<Rightarrow> 'd demuxer \<Rightarrow> int \<Rightarrow> bool \<Rightarrow>
     ((int \<times> (real \<times> int \<times> string option) option) \<times> 'd demuxer) option" where
  "demuxer_seek_chapter ops d chapter_no absolute =
     (if dm_chapters d = [] then
        (if absolute then Some (stream_seek_chapter ops d chapter_no)
         else case stream_number ops d STREAM_CTRL_GET_CURRENT_CHAPTER 0 of (ris, current, d) \<Rightarrow>
           Some (if ris = STREAM_UNSUPPORTED then ((-1, None), d)
                 else stream_seek_chapter ops d (chapter_no + current)))
      else
        (let tot = int (length (dm_chapters d))
         in do { current \<leftarrow> (if absolute then Some chapter_no
                             else map_option (\<lambda>now. chapter_at (dm_chapters d) now (length (dm_chapters d)) + chapter_no)
                                    (chapter_now d));
                 if current \<ge> tot then Some ((-1, None), d)
                 else (let current = (if current < 0 then 0 else current);
                           ch = dm_chapters d ! nat current
                       in Some ((current, Some (of_nat (ch_start ch) / 1000, tot, Some (ch_name ch))), d)) }))"

definition demuxer_get_current_chapter :: "'d demux_ops \<Rightarrow> 'd demuxer \<Rightarrow> (int \<times> 'd demuxer) option" where
  "demuxer_get_current_chapter ops d =
     (if dm_chapters d = [] then Some (ask_number ops d STREAM_CTRL_GET_CURRENT_CHAPTER (-1))
      else map_option (\<lambda>now. (chapter_at (dm_chapters d) now (length (dm_chapters d)), d)) (chapter_now d))"

definition demuxer_chapter_count :: "'d demux_ops \<Rightarrow> 'd demuxer \<Rightarrow> int \<times> 'd demuxer" where
  "demuxer_chapter_count ops d =
     (if dm_chapters d = [] then ask_number ops d STREAM_CTRL_GET_NUM_CHAPTERS 0
      else (int (length (dm_chapters d)), d))"

definition demuxer_chapter_name :: "'d demuxer \<Rightarrow> int \<Rightarrow> string option" where
  "demuxer_chapter_name d c =
     (if c \<ge> 0 \<and> c < int (length (dm_chapters d)) then Some (ch_name (dm_chapters d ! nat c)) else None)"

definition demuxer_chapter_time :: "'d demuxer \<Rightarrow> int \<Rightarrow> real \<times> real option" where
  "demuxer_chapter_time d c =
     (if c \<ge> 0 \<and> c < int (length (dm_chapters d))
      then (of_nat (ch_start (dm_chapters d ! nat c)) / 1000, Some (of_nat (ch_end (dm_chapters d ! nat c)) / 1000))
      else (-1, None))"

text \<open>
  The text shown for a chapter. The first buffer takes 63 bytes with the null byte, and is as long as the
  name and 14 bytes.
\<close>

definition demuxer_chapter_display_name :: "'d demux_ops \<Rightarrow> 'd demuxer \<Rightarrow> int \<Rightarrow> string \<times> 'd demuxer" where
  "demuxer_chapter_display_name ops d c =
     (case demuxer_chapter_name d c of
        Some nm \<Rightarrow> (take 62 (''('' @ show_int (c + 1) @ '') '' @ nm), d)
      | None \<Rightarrow> (case demuxer_chapter_count ops d of (n, d) \<Rightarrow>
          (if n \<le> 0 then ''('' @ show_int (c + 1) @ '')''
           else ''('' @ show_int (c + 1) @ '') of '' @ show_int n, d)))"

section \<open>Angles\<close>

definition demuxer_angles_count :: "'d demux_ops \<Rightarrow> 'd demuxer \<Rightarrow> int \<times> 'd demuxer" where
  "demuxer_angles_count ops d = ask_number ops d STREAM_CTRL_GET_NUM_ANGLES (-1)"

definition demuxer_get_current_angle :: "'d demux_ops \<Rightarrow> 'd demuxer \<Rightarrow> int \<times> 'd demuxer" where
  "demuxer_get_current_angle ops d = ask_number ops d STREAM_CTRL_GET_ANGLE (-1)"

definition demuxer_set_angle :: "'d demux_ops \<Rightarrow> 'd demuxer \<Rightarrow> int \<Rightarrow> int \<times> 'd demuxer" where
  "demuxer_set_angle ops d angle =
     (case demuxer_angles_count ops d of (angles, d) \<Rightarrow>
        if angles < 1 \<or> angle > angles then (-1, d)
        else (case stream_number ops (demux_flush d) STREAM_CTRL_SET_ANGLE angle of (ris, angle, d) \<Rightarrow>
          if ris = STREAM_UNSUPPORTED then (-1, d) else (angle, demux_resync ops d)))"

section \<open>Information about the file\<close>

text \<open>The list of names and values; names are compared without regard to case.\<close>

fun info_set :: "string \<Rightarrow> string \<Rightarrow> (string \<times> string) list \<Rightarrow> int \<times> (string \<times> string) list" where
  "info_set opt param [] = (1, [(opt, param)])"
| "info_set opt param ((n, v) # info) =
     (if strcaseeq opt n then (0, (n, if param = v then v else param) # info)
      else (case info_set opt param info of (r, info) \<Rightarrow> (r, (n, v) # info)))"

definition demux_info_add :: "'d demuxer \<Rightarrow> string \<Rightarrow> string \<Rightarrow> int \<times> 'd demuxer" where
  "demux_info_add d opt param =
     (case info_set opt param (dm_info d) of (r, info) \<Rightarrow> (r, d\<lparr>dm_info := info\<rparr>))"

fun info_get :: "string \<Rightarrow> (string \<times> string) list \<Rightarrow> string option" where
  "info_get opt [] = None"
| "info_get opt ((n, v) # info) = (if strcaseeq opt n then Some v else info_get opt info)"

definition demux_info_get :: "'d demuxer \<Rightarrow> string \<Rightarrow> string option" where
  "demux_info_get d opt = info_get opt (dm_info d)"

end
