(* ===== verification/Demux_Raw.thy ===== *)
theory Demux_Raw
  imports Demux_Queue Demux_Control
begin

text \<open>
  The raw video parser on a regular file keeps the contract of a packet source: a demuxer newly made for
  the file hands out the file, and after a seek the file from a frame on.
\<close>

section \<open>The raw video parser\<close>

text \<open>
  The raw video parser on a regular file hands out the rest of the file for the video stream. What is
  left is counted with one more step, the read that finds the end.
\<close>

definition rawvideo_good :: "byte list \<Rightarrow> os_file stream \<Rightarrow> bool" where
  "rawvideo_good content s \<longleftrightarrow>
     regular.ready content s \<and> (eof s \<longrightarrow> regular.rest content s = []) \<and>
     mode s = STREAM_READ \<and> sector_size s = 0"

definition rawvideo_pend :: "byte list \<Rightarrow> which \<Rightarrow> os_file stream \<Rightarrow> byte list" where
  "rawvideo_pend content w s = (if w = Video then regular.rest content s else [])"

definition rawvideo_left :: "byte list \<Rightarrow> os_file stream \<Rightarrow> nat" where
  "rawvideo_left content s = length (regular.rest content s) + (if eof s then 0 else 1)"

lemma rawvideo_step:
  assumes g: "rawvideo_good content (dm_stream d)" and n: "0 < imgsize"
    and e: "\<not> eof (dm_stream d)"
  shows "\<exists>p s. demux_rawvideo_fill_buffer file_ops imgsize ft d Video =
      Some (True, (ds_add_packet Video p d)\<lparr>dm_stream := s\<rparr>) \<and> rawvideo_good content s \<and>
    regular.rest content (dm_stream d) = pk_data p @ regular.rest content s \<and>
    rawvideo_left content s < rawvideo_left content (dm_stream d)"
proof -
  let ?st = "dm_stream d"
  have r: "regular.ready content ?st" using g by (simp add: rawvideo_good_def)
  define bs where "bs = take imgsize (regular.rest content ?st)"
  from regular.read_all [OF r, of imgsize] obtain s where
    s: "stream_read file_ops imgsize ?st = Some (bs, s)" "regular.ready content s"
      "stream_tell s = stream_tell ?st + int (length bs)" "same_setup ?st s" unfolding bs_def by blast
  have t0: "0 \<le> stream_tell ?st" using r buffered_tell by (auto simp: regular.ready_def)
  have rest: "regular.rest content s = drop (length bs) (regular.rest content ?st)"
    using s(3) t0 by (simp add: regular.rest_def nat_add_distrib add.commute)
  have app: "regular.rest content ?st = bs @ regular.rest content s"
    unfolding rest by (simp add: bs_def min_def)
  have eof: "length bs < imgsize \<longrightarrow> eof s" "eof s \<longrightarrow> length bs < imgsize"
    using regular.read_eof [OF r s(1)] e
    by (simp_all add: regular.eof_told_def)
  have short: "length bs < imgsize \<longrightarrow> regular.rest content s = []"
    unfolding rest by (auto simp: bs_def min_def)
  define p where "p = (new_demux_packet bs)\<lparr>pk_pts := Some (of_int (stream_tell ?st sdiv int imgsize) * ft),
     pk_pos := stream_tell ?st, pk_flags := 16\<rparr>"
  have "demux_rawvideo_fill_buffer file_ops imgsize ft d Video =
      Some (True, (ds_add_packet Video p d)\<lparr>dm_stream := s\<rparr>)"
    using e s(1) by (simp add: demux_rawvideo_fill_buffer_def ds_read_packet_def ds_add_packet_def p_def Let_def)
  moreover have "rawvideo_good content s" using s(2,4) eof short g by (simp add: rawvideo_good_def same_setup_def)
  moreover have "pk_data p = bs" by (simp add: p_def new_demux_packet_def)
  moreover have "rawvideo_left content s < rawvideo_left content ?st"
    using eof e app n by (cases "length bs < imgsize") (auto simp: rawvideo_left_def)
  ultimately show ?thesis using app by auto
qed

lemma rawvideo_no_step:
  "w \<noteq> Video \<or> eof (dm_stream d) \<Longrightarrow>
   demux_rawvideo_fill_buffer ops imgsize ft d w = Some (False, d)"
  by (auto simp: demux_rawvideo_fill_buffer_def)

interpretation rawvideo: packet_source "demux_rawvideo_fill_buffer file_ops (Suc k) ft"
    "rawvideo_good content" "rawvideo_pend content" "rawvideo_left content" for content k ft
proof
  fix d :: "os_file demuxer" and w
  assume g: "rawvideo_good content (dm_stream d)"
  show "\<exists>r ps s. demux_rawvideo_fill_buffer file_ops (Suc k) ft d w = Some (r, (add_all ps d)\<lparr>dm_stream := s\<rparr>) \<and>
      rawvideo_good content s \<and>
      (\<forall>x. rawvideo_pend content x (dm_stream d) = data_of (packets_for x ps) @ rawvideo_pend content x s) \<and>
      (r \<longrightarrow> rawvideo_left content s < rawvideo_left content (dm_stream d)) \<and>
      (\<not> r \<longrightarrow> packets_for w ps = [] \<and> rawvideo_pend content w s = [])"
  proof (cases "w \<noteq> Video \<or> eof (dm_stream d)")
    case True
    have "rawvideo_pend content w (dm_stream d) = []"
      using True g by (auto simp: rawvideo_pend_def rawvideo_good_def)
    then show ?thesis using rawvideo_no_step [OF True] g
      by (intro exI [of _ False] exI [of _ "[]"] exI [of _ "dm_stream d"]) simp
  next
    case False
    then have w: "w = Video" "\<not> eof (dm_stream d)" by simp_all
    from rawvideo_step [OF g _ w(2), of "Suc k" ft] obtain p s where
      "demux_rawvideo_fill_buffer file_ops (Suc k) ft d Video =
        Some (True, (ds_add_packet Video p d)\<lparr>dm_stream := s\<rparr>)" "rawvideo_good content s"
      "regular.rest content (dm_stream d) = pk_data p @ regular.rest content s"
      "rawvideo_left content s < rawvideo_left content (dm_stream d)" by auto
    then show ?thesis unfolding w(1)
      by (intro exI [of _ True] exI [of _ "[(Video, p)]"] exI [of _ s]) (simp add: rawvideo_pend_def)
  qed
qed

lemma rawvideo_prompt: "rawvideo.prompt k ft content"
  unfolding rawvideo.prompt_def
proof (intro allI impI)
  fix d :: "os_file demuxer" and w d'
  assume g: "rawvideo_good content (dm_stream d)"
    and f: "demux_rawvideo_fill_buffer file_ops (Suc k) ft d w = Some (True, d')"
  have "\<not> (w \<noteq> Video \<or> eof (dm_stream d))"
  proof
    assume "w \<noteq> Video \<or> eof (dm_stream d)"
    from rawvideo_no_step [OF this] f show False by simp
  qed
  then show "\<exists>p s. d' = (ds_add_packet w p d)\<lparr>dm_stream := s\<rparr>"
    using rawvideo_step [OF g, of "Suc k" ft] f by auto
qed

text \<open>A demuxer newly made for an opened file.\<close>

lemma new_demuxer_rawvideo:
  assumes "new_demuxer file_ops (open_file f) a_id v_id s_id = Some d"
  shows "rawvideo.ok (contents f) d" "rawvideo.flowing k ft (contents f) ni Video d"
    "rawvideo.full k ft (contents f) ni Video d" "\<not> ds_eof (the_ds Video d)"
    "rawvideo.rest (contents f) Video d = contents f"
    "dm_movi_start d = 0 \<and> dm_movi_end d = int (length (contents f)) \<and> dm_seekable d"
proof -
  have tell: "stream_tell (open_file f) = 0" "pos (open_file f) = 0" "buf_len (open_file f) = 0"
    "start_pos (open_file f) = 0" "\<not> eof (open_file f)"
    by (simp_all add: open_file_def new_stream_def stream_tell_def Let_def)
  have plain: "mode (open_file f) = STREAM_READ" "sector_size (open_file f) = 0"
    by (simp_all add: open_file_def new_stream_def Let_def)
  have ready: "regular.ready (contents f) (open_file f)"
    unfolding regular.ready_def
    by (simp add: file_at_def buffered_def open_file_def new_stream_def stream_consts Let_def)
  have "(open_file f)\<lparr>eof := False\<rparr> = open_file f" using tell(5) by simp
  then have d: "dm_stream d = open_file f" "dm_video d = new_demuxer_stream v_id"
    "dm_audio d = new_demuxer_stream a_id" "dm_sub d = new_demuxer_stream s_id"
    using assms tell by (auto simp: new_demuxer_def stream_seek_def alloc_demuxer_def Let_def)
  have ds: "the_ds x d = new_demuxer_stream (case x of Audio \<Rightarrow> a_id | Video \<Rightarrow> v_id | Sub \<Rightarrow> s_id)" for x
    by (cases x) (simp_all add: d)
  have clear: "clear Video d"
    by (auto simp: clear_def ds new_demuxer_stream_def MAX_PACKS_def MAX_PACK_BYTES_def)
  show ok: "rawvideo.ok (contents f) d"
    unfolding rawvideo.ok_def using ready tell(5) plain
    by (simp add: d(1) ds rawvideo_good_def new_demuxer_stream_def ds_ok_def)
  show full: "rawvideo.full k ft (contents f) ni Video d"
    unfolding rawvideo.full_def using rawvideo_prompt clear by blast
  show eof: "\<not> ds_eof (the_ds Video d)" by (simp add: d new_demuxer_stream_def)
  show "rawvideo.flowing k ft (contents f) ni Video d"
    unfolding rawvideo.flowing_def using full eof by simp
  show "dm_movi_start d = 0 \<and> dm_movi_end d = int (length (contents f)) \<and> dm_seekable d"
    using assms by (auto simp: new_demuxer_def alloc_demuxer_def open_file_def new_stream_def Let_def split: bind_splits)
  show "rawvideo.rest (contents f) Video d = contents f"
    unfolding rawvideo.rest_def rawvideo_pend_def regular.rest_def
    by (simp add: d(1,2) new_demuxer_stream_def unread_def ds_avail_def tell(1))
qed

lemma new_demuxer_file: "new_demuxer file_ops (open_file f) a_id v_id s_id \<noteq> None"
  by (simp add: new_demuxer_def stream_seek_def open_file_def new_stream_def Let_def)

section \<open>Seeking a raw video file\<close>

lemma fill_ends_eof: "stream_fill_buffer ops s = Some (r, s') \<Longrightarrow> 0 < r \<Longrightarrow> \<not> eof s'"
  by (auto simp: stream_fill_buffer_def split: bind_splits if_splits)

lemma seek_scan_ends:
  "seek_scan_loop ops p s = Some y \<Longrightarrow> fst y = 1 \<longrightarrow> \<not> eof (snd y)"
proof (rule seek_scan_loop.raw_induct [where P = "\<lambda>ops p s y. fst y = 1 \<longrightarrow> \<not> eof (snd y)"])
  fix rec :: "'a stream_ops \<Rightarrow> int \<Rightarrow> 'a stream \<Rightarrow> (int \<times> 'a stream) option" and ops p s y
  assume IH: "\<And>ops p s y. rec ops p s = Some y \<Longrightarrow> fst y = 1 \<longrightarrow> \<not> eof (snd y)"
    and step: "stream_fill_buffer ops s \<bind>
      (\<lambda>(r, s). if 0 < r \<and> 0 \<le> p
         then if p \<le> int (buf_len s) then Some (1, s\<lparr>buf_pos := nat p\<rparr>)
              else rec ops (p - int (buf_len s)) s
         else Some (0, s)) = Some y"
  from step obtain r u where f: "stream_fill_buffer ops s = Some (r, u)" by (auto split: bind_splits)
  show "fst y = 1 \<longrightarrow> \<not> eof (snd y)"
    using step fill_ends_eof [OF f] IH by (auto simp: f split: if_splits)
qed

lemma ds_free_packs_ok: "ds_ok (ds_free_packs ds)" "ds_avail (ds_free_packs ds) = []"
  "ds_queue (ds_free_packs ds) = []"
  by (simp_all add: ds_ok_def ds_free_packs_def ds_avail_def)

lemma the_ds_restart:
  "the_ds x (demux_restart d) = (ds_free_packs (the_ds x d))\<lparr>ds_eof := False\<rparr>"
  by (cases x) (simp_all add: demux_restart_def demux_flush_def Let_def)

lemma restart_fields:
  "dm_stream (demux_restart d) = (dm_stream d)\<lparr>eof := False\<rparr>"
  "dm_movi_start (demux_restart d) = dm_movi_start d" "dm_movi_end (demux_restart d) = dm_movi_end d"
  "dm_stream_pts (demux_restart d) = dm_stream_pts d"
  by (simp_all add: demux_restart_def demux_flush_def Let_def)


lemma seek_ends:
  assumes "stream_seek ops s q = Some (1, s')" and "\<not> eof s" and "mode s \<noteq> STREAM_WRITE"
  shows "\<not> eof s'"
proof -
  define p where "p = (if q < 0 then 0 else q)"
  consider "buf_len s = 0 \<and> pos s = p" | "p < pos s \<and> p - (pos s - int (buf_len s)) \<ge> 0" "\<not> (buf_len s = 0 \<and> pos s = p)"
    | "stream_seek_long ops s p = Some (1, s')"
    using assms(1) by (auto simp: stream_seek_def p_def Let_def split: if_splits)
  then show ?thesis
  proof cases
    case 3
    define t where "t = s\<lparr>buf_pos := 0, buf_len := 0\<rparr>"
    define n where "n = (if sector_size t \<noteq> 0 then (p sdiv sector_size t) * sector_size t
                       else p AND NOT (int STREAM_BUFFER_SIZE - 1))"
    obtain res u where i: "stream_seek_internal ops n t = (res, u)" by force
    have e: "stream_seek_long ops s p = (if res \<ge> 0 then Some (res, u)
        else do { s \<leftarrow> seek_forward_loop ops n u; seek_scan_loop ops (p - n) s })"
      using i assms(3) unfolding t_def n_def by (simp add: stream_seek_long_def Let_def)
    show ?thesis
    proof (cases "res \<ge> 0")
      case True
      then have "res = 1" "s' = u" using 3 e by simp_all
      then have "u = t" using i by (auto simp: stream_seek_internal_def split: if_splits option.splits prod.splits)
      then show ?thesis using \<open>s' = u\<close> assms(2) by (simp add: t_def)
    next
      case False
      then obtain v where "seek_scan_loop ops (p - n) v = Some (1, s')"
        using 3 e by (auto split: bind_splits)
      then show ?thesis using seek_scan_ends by fastforce
    qed
  qed (use assms in \<open>auto simp: stream_seek_def p_def Let_def split: if_splits\<close>)
qed


text \<open>
  The frame a seek means: of the position at \<open>cur\<close> or the start, moved by \<open>rel\<close> seconds or by a part of the
  length, the frame it lies in; past the end the last whole frame.
\<close>

definition frame_wanted :: "nat \<Rightarrow> nat \<Rightarrow> real \<Rightarrow> real \<Rightarrow> nat \<Rightarrow> int \<Rightarrow> nat" where
  "frame_wanted len imgsize bps rel fl cur =
     (let x = (if fl AND SEEK_ABSOLUTE \<noteq> 0 then 0 else of_int cur) +
              rel * (if fl AND SEEK_FACTOR \<noteq> 0 then of_nat len else bps)
      in if x < 1 then 0
         else if nat \<lfloor>x\<rfloor> \<le> len then nat \<lfloor>x\<rfloor> div imgsize
         else (len - imgsize) div imgsize)"

lemma frame_wanted_bound: "0 < imgsize \<Longrightarrow> frame_wanted len imgsize bps rel fl cur * imgsize \<le> len"
  using div_times_less_eq_dividend [of "nat n" imgsize for n]
  by (auto simp: frame_wanted_def Let_def intro: order_trans [OF div_times_less_eq_dividend])

lemma sdiv_nat: "int m sdiv int n = int (m div n)"
  by (simp add: signed_divide_int_def zdiv_int sgn_if)

lemma sdiv_small: "m < 0 \<Longrightarrow> - int n < m \<Longrightarrow> m sdiv int n = 0"
  by (simp add: signed_divide_int_def sgn_if)

lemma rawvideo_seek_step:
  fixes d :: "os_file demuxer"
  assumes st: "dm_movi_start d = 0" "dm_movi_end d = int (length content)" "content \<noteq> []"
    and g: "regular.ready content (dm_stream d)" "\<not> eof (dm_stream d)"
      "mode (dm_stream d) = STREAM_READ" "sector_size (dm_stream d) = 0"
    and f: "f = frame_wanted (length content) (Suc k) bps rel fl (stream_tell (dm_stream d))"
  shows "\<exists>s. demux_rawvideo_seek file_ops (Suc k) ft bps d rel delay fl =
      Some (upd_ds Video (\<lambda>ds. ds\<lparr>ds_pts := of_nat f * ft\<rparr>) (d\<lparr>dm_stream := s\<rparr>)) \<and>
    rawvideo_good content s \<and> regular.rest content s = drop (f * Suc k) content"
proof -
  let ?c = "stream_tell (dm_stream d)" and ?l = "length content"
  define x :: real where "x = (if fl AND SEEK_ABSOLUTE \<noteq> 0 then 0 else of_int ?c) +
    rel * (if fl AND SEEK_FACTOR \<noteq> 0 then of_nat ?l else bps)"
  define p1 where "p1 = (if trunc x < 0 then 0 else trunc x)"
  define p2 where "p2 = (if p1 > int ?l then int ?l - int (Suc k) else p1)"
  have p1: "p1 = (if x < 1 then 0 else \<lfloor>x\<rfloor>)" by (auto simp: p1_def trunc_def floor_eq_iff) linarith+
  have p2: "p2 sdiv int (Suc k) = int f"
  proof (cases "p1 > int ?l")
    case False
    have "p2 = int (nat p1)" using False p1 by (auto simp: p2_def)
    then have "p2 sdiv int (Suc k) = int (nat p1 div Suc k)" using sdiv_nat by metis
    moreover have "f = nat p1 div Suc k"
      using False unfolding f frame_wanted_def x_def [symmetric] Let_def p1 by auto
    ultimately show ?thesis by simp
  next
    case True
    then have x: "\<not> x < 1" "\<not> nat \<lfloor>x\<rfloor> \<le> ?l" using p1 by (auto split: if_splits)
    then have f': "f = (?l - Suc k) div Suc k" unfolding f frame_wanted_def x_def [symmetric] Let_def by simp
    show ?thesis
    proof (cases "Suc k \<le> ?l")
      case True
      then have "p2 = int (?l - Suc k)" using \<open>p1 > int ?l\<close> by (simp add: p2_def)
      then show ?thesis using sdiv_nat [of "?l - Suc k" "Suc k"] f' by (simp only:)
    next
      case False
      have "p2 = int ?l - int (Suc k)" using \<open>p1 > int ?l\<close> by (simp add: p2_def)
      then have "p2 < 0" "- int (Suc k) < p2" using False st(3) by simp_all
      then show ?thesis using sdiv_small [of p2 "Suc k"] f' False by simp
    qed
  qed
  have "f * Suc k \<le> ?l" unfolding f by (rule frame_wanted_bound) simp
  then have q: "0 \<le> int f * int (Suc k)" "int f * int (Suc k) \<le> int ?l"
    by (simp, metis of_nat_le_iff of_nat_mult)
  from regular.seek [OF g(1) _ _ q] g(3,4) obtain r s where
    s: "stream_seek file_ops (dm_stream d) (int f * int (Suc k)) = Some (r, s)" "regular.ready content s"
      "same_setup (dm_stream d) s" "stream_tell s = int f * int (Suc k)"
      "int f * int (Suc k) < int ?l \<longrightarrow> r = 1" by (auto simp: stream_consts)
  have rest: "regular.rest content s = drop (f * Suc k) content"
    unfolding regular.rest_def s(4) by (metis nat_int of_nat_mult)
  have "eof s \<longrightarrow> regular.rest content s = []"
  proof
    assume "eof s"
    then have "r \<noteq> 1" using seek_ends [OF _ g(2)] s(1) g(3) by (auto simp: stream_consts)
    then have "?l \<le> f * Suc k" using s(5) by (metis not_le of_nat_less_iff of_nat_mult)
    then show "regular.rest content s = []" unfolding rest by simp
  qed
  then have good: "rawvideo_good content s" using s(2,3) g(3,4) by (simp add: rawvideo_good_def same_setup_def)
  have "demux_rawvideo_seek file_ops (Suc k) ft bps d rel delay fl =
      do { (r, st) \<leftarrow> stream_seek file_ops (dm_stream d) (p2 sdiv int (Suc k) * int (Suc k));
           Some (upd_ds Video (\<lambda>ds. ds\<lparr>ds_pts := of_int (p2 sdiv int (Suc k)) * ft\<rparr>) (d\<lparr>dm_stream := st\<rparr>)) }"
    unfolding demux_rawvideo_seek_def p2_def p1_def x_def using st by (simp add: Let_def mult.commute)
  then have "demux_rawvideo_seek file_ops (Suc k) ft bps d rel delay fl =
      Some (upd_ds Video (\<lambda>ds. ds\<lparr>ds_pts := of_nat f * ft\<rparr>) (d\<lparr>dm_stream := s\<rparr>))"
    unfolding p2 s(1) by simp
  then show ?thesis using good rest by blast
qed


text \<open>The whole seek: nothing queued survives, and the stream goes on from the frame.\<close>

lemma rawvideo_seek:
  fixes d :: "os_file demuxer"
  assumes st: "dm_movi_start d = 0" "dm_movi_end d = int (length content)" "dm_seekable d" "content \<noteq> []"
    and ok: "rawvideo.ok content d"
    and f: "f = frame_wanted (length content) (Suc k) bps rel fl (stream_tell (dm_stream d))"
  shows "\<exists>d'. demux_seek (rawvideo_ops file_ops (Suc k) ft bps) d rel delay fl = Some (1, d') \<and>
    rawvideo.ok content d' \<and> rawvideo.flowing k ft content ni Video d' \<and>
    rawvideo.rest content Video d' = drop (f * Suc k) content \<and> ds_pts (dm_video d') = of_nat f * ft"
proof -
  let ?r = "demux_restart d" and ?ops = "rawvideo_ops file_ops (Suc k) ft bps"
  have g: "regular.ready content (dm_stream d)" "mode (dm_stream d) = STREAM_READ" "sector_size (dm_stream d) = 0"
    using ok by (simp_all add: rawvideo.ok_def rawvideo_good_def)
  have "stream_tell (dm_stream ?r) = stream_tell (dm_stream d)" by (simp add: restart_fields stream_tell_def)
  moreover have "regular.ready content (dm_stream ?r)"
    using g(1) by (simp add: restart_fields regular.ready_def file_at_def buffered_def)
  ultimately obtain s where s: "demux_rawvideo_seek file_ops (Suc k) ft bps ?r rel delay fl =
      Some (upd_ds Video (\<lambda>ds. ds\<lparr>ds_pts := of_nat f * ft\<rparr>) (?r\<lparr>dm_stream := s\<rparr>))"
      "rawvideo_good content s" "regular.rest content s = drop (f * Suc k) content"
    using rawvideo_seek_step [of ?r content f k bps rel fl ft delay] st g f by (auto simp: restart_fields)
  define d' where "d' = demux_resync ?ops (upd_ds Video (\<lambda>ds. ds\<lparr>ds_pts := of_nat f * ft\<rparr>) (?r\<lparr>dm_stream := s\<rparr>))"
  have "snd (seek_target ?ops rel fl ?r) = ?r"
    by (auto simp: seek_target_def rawvideo_ops_def split: option.splits)
  then have "demux_seek ?ops d rel delay fl = map_option (Pair 1) (dmx_seek ?ops rel delay fl ?r)"
    using st(3) by (cases "seek_target ?ops rel fl ?r") (auto simp: demux_seek_def Let_def rawvideo_ops_def split: option.splits)
  then have seek: "demux_seek ?ops d rel delay fl = Some (1, d')"
    using s(1) by (simp add: dmx_seek_def d'_def) (simp add: rawvideo_ops_def)
  have ds: "ds_ok (the_ds x d')" "unread (the_ds x d') = []" "\<not> ds_eof (the_ds x d')"
      "ds_queue (the_ds x d') = []" "ds_packs (the_ds x d') = 0" "ds_bytes (the_ds x d') = 0" for x
    by (cases x; simp add: d'_def demux_resync_def demux_control_def rawvideo_ops_def the_ds_restart [where x = Audio, simplified]
      the_ds_restart [where x = Video, simplified] the_ds_restart [where x = Sub, simplified]
      ds_free_packs_def ds_ok_def unread_def ds_avail_def)+
  have vid: "ds_fill_count (the_ds Video d') = -80" "ds_pts (the_ds Video d') = of_nat f * ft"
    by (simp_all add: d'_def demux_resync_def demux_control_def rawvideo_ops_def)
  have str: "dm_stream d' = s" by (simp add: d'_def demux_resync_def demux_control_def rawvideo_ops_def)
  have "clear Video d'" 
    unfolding clear_def using ds(4) [of Video] vid(1) ds(5,6) by (simp del: the_ds.simps add: MAX_PACKS_def MAX_PACK_BYTES_def)
  then have "rawvideo.full k ft content ni Video d'" unfolding rawvideo.full_def using rawvideo_prompt by blast
  then have "rawvideo.flowing k ft content ni Video d'" unfolding rawvideo.flowing_def using ds(3) by blast
  moreover have "rawvideo.ok content d'" unfolding rawvideo.ok_def using ds(1) s(2) str by simp
  moreover have "rawvideo.rest content Video d' = drop (f * Suc k) content"
    unfolding rawvideo.rest_def rawvideo_pend_def using ds(2) [of Video] s(3) str by (simp del: the_ds.simps)
  moreover have "ds_pts (dm_video d') = of_nat f * ft" using vid by simp
  ultimately show ?thesis using seek by blast
qed

end
