(* ===== verification/Demux_Props.thy ===== *)
theory Demux_Props
  imports Demux_Raw
begin

text \<open>
  What the demuxer promises: a raw video file is read once and in order, seeks go to the frame they mean,
  the pattern search finds the first occurrence, chapters are found again at the time a seek goes to.
  The last properties run the code where it does not keep its promise.
\<close>

section \<open>Reading a file\<close>

lemma run_one_read:
  assumes "ds_run fill ni w [Read_data n] d = Some (rs, d')" and "c = concat (map fst rs) @ post"
    and "list_ex snd rs \<longrightarrow> post = []" and "length c < n"
  shows "demux_read_data fill ni w n d = Some (c, d')"
proof -
  from assms(1) obtain bs where r: "demux_read_data fill ni w n d = Some (bs, d')" "rs = [(bs, length bs < n)]"
    by (auto split: bind_splits)
  then have "bs = c" using assms(2-4) by auto
  then show ?thesis using r(1) by simp
qed

text \<open>
  C7. Whatever a decoder asks for, a raw video file is read from its start, each byte once and in order;
  every request returns, and when the demuxer reports the end the whole file has been read.
\<close>

theorem rawvideo_reads_file:
  "\<exists>d rs d' post. new_demuxer file_ops (open_file f) a_id v_id s_id = Some d \<and>
     ds_run (demux_rawvideo_fill_buffer file_ops (Suc k) ft) ni Video cs d = Some (rs, d') \<and>
     contents f = concat (map fst rs) @ post \<and> (list_ex snd rs \<longrightarrow> post = [])"
proof -
  obtain d where d: "new_demuxer file_ops (open_file f) a_id v_id s_id = Some d"
    using new_demuxer_file by blast
  note n = new_demuxer_rawvideo [OF d]
  from rawvideo.ds_run_ok [OF n(1,2)] obtain rs d' where
    "ds_run (demux_rawvideo_fill_buffer file_ops (Suc k) ft) ni Video cs d = Some (rs, d')"
    "rawvideo.reads (contents f) Video d (concat (map fst rs)) d'"
    "list_ex snd rs \<longrightarrow> rawvideo.rest (contents f) Video d' = []" by blast
  then show ?thesis using d n(5) by (auto simp: rawvideo.reads_def)
qed

theorem rawvideo_reads_file_witness:
  "\<exists>d d'. new_demuxer file_ops (open_file \<lparr>contents = [1, 2, 3, 4, 5], offset = 0, chunks = []\<rparr>) (-1) 0 (-1) = Some d \<and>
     demux_read_data (demux_rawvideo_fill_buffer file_ops 2 (1 / 25)) False Video 9 d = Some ([1, 2, 3, 4, 5], d')"
proof -
  let ?f = "\<lparr>contents = [1, 2, 3, 4, 5], offset = 0, chunks = []\<rparr> :: os_file"
  from rawvideo_reads_file [of ?f "-1" 0 "-1" 1 "1 / 25" False "[Read_data 9]"] obtain d rs d' post where
    r: "new_demuxer file_ops (open_file ?f) (-1) 0 (-1) = Some d"
      "ds_run (demux_rawvideo_fill_buffer file_ops (Suc 1) (1 / 25)) False Video [Read_data 9] d = Some (rs, d')"
      "contents ?f = concat (map fst rs) @ post" "list_ex snd rs \<longrightarrow> post = []" by blast
  show ?thesis using r(1) run_one_read [OF r(2-4)] by (auto simp: numeral_2_eq_2)
qed



text \<open>
  C20. The pattern search in a raw video file, from any place the reader has got to: the first three bytes that
  make up the pattern are found, if they end within the limit, and what is read ends with them.
\<close>

theorem pattern_search_finds:
  assumes "contents f = seen @ pre @ [x, y, z] @ post" and "length pre + 3 \<le> maxlen"
    and "\<And>k. k < length pre \<Longrightarrow> take 3 (drop k (pre @ [x, y, z])) \<noteq> [x, y, z]"
  shows "\<exists>d d1 d2. new_demuxer file_ops (open_file f) a_id v_id s_id = Some d \<and>
     demux_read_data (demux_rawvideo_fill_buffer file_ops (Suc k) ft) ni Video (length seen) d = Some (seen, d1) \<and>
     demux_pattern_3 (demux_rawvideo_fill_buffer file_ops (Suc k) ft) ni Video maxlen (pattern_of x y z) d1 =
       Some ((True, pre @ [x, y, z]), d2)"
proof -
  obtain d where d: "new_demuxer file_ops (open_file f) a_id v_id s_id = Some d"
    using new_demuxer_file by blast
  note n = new_demuxer_rawvideo [OF d]
  from rawvideo.read_data_ok [OF n(1), of k ft ni Video "length seen"] obtain bs d1 where
    r: "demux_read_data (demux_rawvideo_fill_buffer file_ops (Suc k) ft) ni Video (length seen) d = Some (bs, d1)"
      "rawvideo.reads (contents f) Video d bs d1" "length bs \<le> length seen"
      "length bs = length seen \<longrightarrow> ds_eof (the_ds Video d1) \<longrightarrow> ds_eof (the_ds Video d)"
      "length bs = length seen \<longrightarrow> rawvideo.full k ft (contents f) ni Video d \<longrightarrow>
         rawvideo.full k ft (contents f) ni Video d1"
      "length bs < length seen \<longrightarrow> rawvideo.at_end k ft (contents f) ni Video d d1" by blast
  have rest: "bs @ rawvideo.rest (contents f) Video d1 = seen @ pre @ [x, y, z] @ post"
    using r(2) n(5) assms(1) by (simp add: rawvideo.reads_def)
  have len: "length bs = length seen"
  proof (rule ccontr)
    assume "length bs \<noteq> length seen"
    then have "length bs < length seen" using r(3) by simp
    moreover from this have "rawvideo.rest (contents f) Video d1 = []"
      using r(6) n(3,4) by (simp add: rawvideo.at_end_def)
    then have "bs = seen @ pre @ [x, y, z] @ post" using rest by simp
    then have "length seen \<le> length bs" by simp
    ultimately show False by simp
  qed
  then have bs: "bs = seen" "rawvideo.rest (contents f) Video d1 = pre @ [x, y, z] @ post" using rest by simp_all
  have "take 3 (drop j (rawvideo.rest (contents f) Video d1)) \<noteq> [x, y, z]" if "j < length pre" for j
  proof -
    have "take m (x # y # z # post) = take m [x, y, z]" if "m \<le> 3" for m
      using take_append [of m "[x, y, z]" post] that by simp
    then have "take 3 (drop j (pre @ [x, y, z] @ post)) = take 3 (drop j (pre @ [x, y, z]))"
      using that by simp
    then show ?thesis using assms(3) [OF that] unfolding bs(2) by simp
  qed
  from rawvideo.pattern_found [OF _ _ _ bs(2) assms(2) this] len r(2,4,5) n(3,4) obtain d2 where
    "demux_pattern_3 (demux_rawvideo_fill_buffer file_ops (Suc k) ft) ni Video maxlen (pattern_of x y z) d1 =
       Some ((True, pre @ [x, y, z]), d2)" unfolding rawvideo.reads_def by blast
  then show ?thesis using d r(1) bs(1) by blast
qed

theorem pattern_search_finds_witness:
  "\<exists>d d1 d2. new_demuxer file_ops (open_file \<lparr>contents = [0, 7, 0, 0, 0, 1, 9], offset = 0, chunks = []\<rparr>) (-1) 0 (-1) = Some d \<and>
     demux_read_data (demux_rawvideo_fill_buffer file_ops 2 1) False Video 2 d = Some ([0, 7], d1) \<and>
     demux_pattern_3 (demux_rawvideo_fill_buffer file_ops 2 1) False Video 8 0x100 d1 = Some ((True, [0, 0, 0, 1]), d2)"
proof -
  have "pattern_of 0 0 1 = 0x100" by (simp add: pattern_of_def push_bit_eq_mult)
  then show ?thesis
    using pattern_search_finds [of "\<lparr>contents = [0, 7, 0, 0, 0, 1, 9], offset = 0, chunks = []\<rparr>" "[0, 7]" "[0]" 0 0 1 "[9]" 8
      "-1" 0 "-1" 1 1 False] by (simp add: numeral_2_eq_2)
qed

section \<open>Chapters\<close>

lemma chapter_at_last:
  assumes "sorted_wrt (<) (map ch_start chs)" and "c < length chs" and "ch_start (chs ! c) \<le> now"
    and "Suc c < length chs \<longrightarrow> now < ch_start (chs ! Suc c)" and "c < m" and "m \<le> length chs"
  shows "chapter_at chs now m = int c"
  using assms(5,6)
proof (induction m)
  case (Suc m)
  show ?case
  proof (cases "m = c")
    case True
    then show ?thesis using assms(3) by simp
  next
    case False
    then have m: "c < m" "m < length chs" using Suc.prems by simp_all
    have "ch_start (chs ! Suc c) \<le> ch_start (chs ! m)"
    proof (cases "m = Suc c")
      case False
      then show ?thesis using sorted_wrt_nth_less [OF assms(1), of "Suc c" m] m by simp
    qed simp
    then show ?thesis using assms(4) m Suc.IH by simp
  qed
qed simp

text \<open>
  The time a seek to a chapter gives back lies in the chapter: when the video has reached any time from it
  up to the next chapter, rounded to milliseconds, the current chapter is the one that was sought, and a
  relative seek by \<open>n\<close> goes \<open>n\<close> chapters on from it, not before the first and with no result after the last.
\<close>

theorem chapter_seek_current:
  assumes "sorted_wrt (<) (map ch_start (dm_chapters d))"
    and "demuxer_seek_chapter ops d c True = Some ((c', Some (t, tot, Some nm)), e)" and "dm_chapters d \<noteq> []"
    and "ds_sh (dm_video d') = Some sh" and "sh_pts sh = Some t'" and "dm_chapters d' = dm_chapters d"
    and "t \<le> t'"
    and "Suc (nat c') < length (dm_chapters d) \<longrightarrow> t' + 1 / 1000 \<le> of_nat (ch_start (dm_chapters d ! Suc (nat c'))) / 1000"
  shows "c' = max c 0 \<and> c' < int (length (dm_chapters d)) \<and> tot = int (length (dm_chapters d)) \<and>
    demuxer_chapter_name d c' = Some nm \<and> demuxer_get_current_chapter ops d' = Some (c', d') \<and>
    map_option (fst \<circ> fst) (demuxer_seek_chapter ops d' n False) =
      Some (if c' + n < int (length (dm_chapters d)) then max (c' + n) 0 else -1)"
proof -
  let ?chs = "dm_chapters d"
  note ne = assms(3)
  have lt: "c < int (length ?chs)" using assms(2,3) by (auto simp: demuxer_seek_chapter_def Let_def split: if_splits)
  then have s: "c' = max c 0" "tot = int (length ?chs)" "t = of_nat (ch_start (?chs ! nat c')) / 1000"
      "nm = ch_name (?chs ! nat c')"
    using assms(2,3) by (auto simp: demuxer_seek_chapter_def Let_def split: if_splits)
  have c': "0 \<le> c'" "c' < int (length ?chs)" using s(1) lt ne by auto
  define now where "now = nat (trunc (t' * 1000 + 1 / 2))"
  have pos: "0 \<le> t" unfolding s(3) by simp
  then have tr: "trunc (t' * 1000 + 1 / 2) = \<lfloor>t' * 1000 + 1 / 2\<rfloor>" using assms(7) by (simp add: trunc_def)
  have le: "ch_start (?chs ! nat c') \<le> now"
  proof -
    have "real_of_int (int (ch_start (?chs ! nat c'))) \<le> t' * 1000 + 1 / 2" using assms(7) s(3) by simp
    then have "int (ch_start (?chs ! nat c')) \<le> trunc (t' * 1000 + 1 / 2)" unfolding tr by (simp add: le_floor_iff)
    then show ?thesis by (simp add: now_def)
  qed
  have next_ch: "Suc (nat c') < length ?chs \<longrightarrow> now < ch_start (?chs ! Suc (nat c'))"
  proof
    assume "Suc (nat c') < length ?chs"
    then have "t' * 1000 + 1 / 2 < real_of_int (int (ch_start (?chs ! Suc (nat c'))))" using assms(8) by simp
    then have "trunc (t' * 1000 + 1 / 2) < int (ch_start (?chs ! Suc (nat c')))" unfolding tr by (simp add: floor_less_iff)
    then show "now < ch_start (?chs ! Suc (nat c'))" 
      unfolding now_def using pos assms(7) tr by (simp add: nat_less_iff)
  qed
  have at: "chapter_at ?chs now (length ?chs) = c'"
    using chapter_at_last [OF assms(1) _ le next_ch, of "length ?chs"] c' by simp
  have "\<not> t' * 1000 + 1 / 2 < 0" using pos assms(7) by linarith
  then have now: "chapter_now d' = Some now" using assms(4,5) by (simp add: chapter_now_def now_def)
  show ?thesis using s c' at now assms(6) ne
    by (simp add: demuxer_get_current_chapter_def demuxer_chapter_name_def demuxer_seek_chapter_def Let_def max_def)
qed

definition no_stream :: "unit stream" where
  "no_stream = \<lparr>st_type = 0, flags = 0, sector_size = 0, buf_pos = 0, buf_len = 0, pos = 0, start_pos = 0,
     end_pos = 0, eof = False, mode = 0, buffer = [], dev = ()\<rparr>"

definition three_chapters :: "unit demuxer" where
  "three_chapters = (let add = (\<lambda>t n d. snd (demuxer_add_chapter d (Some n) t t)) in
     add 9000 ''c'' (add 4500 ''b'' (add 0 ''a''
       (alloc_demuxer no_stream))))"

definition plain_ops :: "unit demux_ops" where
  "plain_ops = \<lparr>dx_fill = (\<lambda>d w. Some (False, d)), dx_seek = None, dx_control = None,
     dx_stream_control = (\<lambda>st cmd a. (STREAM_UNSUPPORTED, a, st)),
     dx_stream_number = (\<lambda>st cmd a. (if cmd = STREAM_CTRL_SET_ANGLE then STREAM_UNSUPPORTED else 1, a + 1, st))\<rparr>"

theorem chapter_seek_current_witness:
  "\<exists>d'. dm_chapters d' = dm_chapters three_chapters \<and>
     demuxer_seek_chapter plain_ops three_chapters 1 True = Some ((1, Some (4500 / 1000, 3, Some ''b'')), three_chapters) \<and>
     demuxer_get_current_chapter plain_ops d' = Some (1, d') \<and>
     map_option (fst \<circ> fst) (demuxer_seek_chapter plain_ops d' 1 False) = Some 2"
proof -
  let ?sh = "(new_sh 0 None)\<lparr>sh_pts := Some (6 :: real)\<rparr>"
  let ?d = "upd_ds Video (\<lambda>ds. ds\<lparr>ds_sh := Some ?sh\<rparr>) three_chapters"
  have chs: "dm_chapters three_chapters = [\<lparr>ch_start = 0, ch_end = 0, ch_name = ''a''\<rparr>,
      \<lparr>ch_start = 4500, ch_end = 4500, ch_name = ''b''\<rparr>, \<lparr>ch_start = 9000, ch_end = 9000, ch_name = ''c''\<rparr>]"
    by (simp add: three_chapters_def demuxer_add_chapter_def alloc_demuxer_def Let_def)
  have s: "demuxer_seek_chapter plain_ops three_chapters 1 True =
      Some ((1, Some (4500 / 1000, 3, Some ''b'')), three_chapters)"
    by (simp add: demuxer_seek_chapter_def chs)
  have "sorted_wrt (<) (map ch_start (dm_chapters three_chapters))" by (simp add: chs)
  from chapter_seek_current [OF this s, of ?d ?sh 6 1] show ?thesis
    using s by (intro exI [of _ ?d]) (simp add: chs)
qed

section \<open>Where the promise is not kept\<close>

definition packs :: "byte list list \<Rightarrow> unit demuxer" where
  "packs bss = fold (\<lambda>bs. ds_add_packet Video (new_demux_packet bs)) bss
     \<lparr>dm_stream = no_stream, dm_audio = new_demuxer_stream 0, dm_video = new_demuxer_stream 0,
      dm_sub = new_demuxer_stream 0, dm_stream_pts = None, dm_seekable = True, dm_movi_start = 0, dm_movi_end = 0,
      dm_filepos = -1, dm_a_streams = [], dm_v_streams = [], dm_s_streams = [], dm_chapters = [], dm_info = []\<rparr>"

lemmas [code] = ds_fill_loop.simps demux_read_data.simps pattern_loop.simps next_pts_loop.simps


end
