(* ===== verification/Ebml.thy ===== *)
theory Ebml
  imports Byte_Source
begin

text \<open>
  \<^verbatim>\<open>libmpdemux/ebml.c\<close>, the reader of the element structure under Matroska files: numbers of variable
  length, the values of elements, and the header of a file. It is a client of the byte stream: everything
  goes through \<open>stream_read_char\<close>, \<open>stream_read\<close> and \<open>stream_skip\<close>.

  An \<^verbatim>\<open>int\<close> that a call stores through a pointer is part of its result, \<open>None\<close> where the call does not
  store it. Shifting a negative \<^verbatim>\<open>int64_t\<close> to the left, as \<^verbatim>\<open>ebml_read_int\<close> does, is the shift of the
  word.
\<close>

section \<open>Constants\<close>

definition EBML_VERSION :: u64 where "EBML_VERSION = 1"
definition EBML_ID_HEADER :: u32 where "EBML_ID_HEADER = 0x1A45DFA3"
definition EBML_ID_EBMLREADVERSION :: u32 where "EBML_ID_EBMLREADVERSION = 0x42F7"
definition EBML_ID_EBMLMAXIDLENGTH :: u32 where "EBML_ID_EBMLMAXIDLENGTH = 0x42F2"
definition EBML_ID_EBMLMAXSIZELENGTH :: u32 where "EBML_ID_EBMLMAXSIZELENGTH = 0x42F3"
definition EBML_ID_DOCTYPE :: u32 where "EBML_ID_DOCTYPE = 0x4282"
definition EBML_ID_DOCTYPEREADVERSION :: u32 where "EBML_ID_DOCTYPEREADVERSION = 0x4285"
definition EBML_ID_VOID :: u32 where "EBML_ID_VOID = 0xEC"
definition EBML_ID_INVALID :: u32 where "EBML_ID_INVALID = 0xFFFFFFFF"
definition EBML_UINT_INVALID :: u64 where "EBML_UINT_INVALID = 0xFFFFFFFFFFFFFFFF"
definition EBML_INT_INVALID :: u64 where "EBML_INT_INVALID = 0x7FFFFFFFFFFFFFFF"

lemmas ebml_ids = EBML_ID_EBMLREADVERSION_def EBML_ID_EBMLMAXIDLENGTH_def
  EBML_ID_EBMLMAXSIZELENGTH_def EBML_ID_DOCTYPE_def EBML_ID_DOCTYPEREADVERSION_def

section \<open>Numbers of variable length\<close>

text \<open>
  The loop over the first byte that counts the leading zeros: \<open>n\<close> turns at most, \<open>i\<close> counts them and \<open>m\<close> is
  \<^verbatim>\<open>len_mask\<close>.
\<close>

fun scan_mask :: "nat \<Rightarrow> 'a::len word \<Rightarrow> nat \<Rightarrow> 'a word \<Rightarrow> nat \<times> 'a word" where
  "scan_mask 0 num i m = (i, m)"
| "scan_mask (Suc n) num i m =
     (if num AND m \<noteq> 0 then (i, m) else scan_mask n num (Suc i) (drop_bit 1 m))"

fun id_tail :: "'d stream_ops \<Rightarrow> nat \<Rightarrow> u32 \<Rightarrow> 'd stream \<Rightarrow> (u32 \<times> 'd stream) option" where
  "id_tail ops 0 num s = Some (num, s)"
| "id_tail ops (Suc i) num s =
     do { (c, s) \<leftarrow> stream_read_char ops s; id_tail ops i (push_bit 8 num OR c) s }"

definition ebml_read_id :: "'d stream_ops \<Rightarrow> 'd stream \<Rightarrow> ((u32 \<times> nat option) \<times> 'd stream) option" where
  "ebml_read_id ops s = do {
     (num, s) \<leftarrow> stream_read_char ops s;
     let i = fst (scan_mask 4 num 0 0x80);
     if i \<ge> 4 then Some ((EBML_ID_INVALID, None), s)
     else do { (num, s) \<leftarrow> id_tail ops i num s; Some ((num, Some (i + 1)), s) } }"

text \<open>
  The rest of a length: the number so far and the count of bytes that are all ones. An \<^verbatim>\<open>int\<close> is extended
  to 64 bits with its sign.
\<close>

fun length_tail ::
  "'d stream_ops \<Rightarrow> nat \<Rightarrow> u64 \<Rightarrow> nat \<Rightarrow> 'd stream \<Rightarrow> ((u64 \<times> nat) \<times> 'd stream) option" where
  "length_tail ops 0 num ffs s = Some ((num, ffs), s)"
| "length_tail ops (Suc i) num ffs s = do {
     (c, s) \<leftarrow> stream_read_char ops s;
     let num = push_bit 8 num OR scast c;
     length_tail ops i num (if num AND 0xFF = 0xFF then ffs + 1 else ffs) s }"

definition ebml_read_length :: "'d stream_ops \<Rightarrow> 'd stream \<Rightarrow> ((u64 \<times> nat option) \<times> 'd stream) option" where
  "ebml_read_length ops s = do {
     (c, s) \<leftarrow> stream_read_char ops s;
     let num = scast c;
     let (i, m) = scan_mask 8 num 0 0x80;
     if i \<ge> 8 then Some ((EBML_UINT_INVALID, None), s)
     else (let num = num AND (m - 1)
           in do { ((num, ffs), s) \<leftarrow> length_tail ops i num (if num = m - 1 then 1 else 0) s;
                   Some ((if i + 1 = ffs then EBML_UINT_INVALID else num, Some (i + 1)), s) }) }"

text \<open>The same number in a buffer; reading past its end is undefined.\<close>

fun vlen_tail :: "nat \<Rightarrow> u64 \<Rightarrow> nat \<Rightarrow> byte list \<Rightarrow> (u64 \<times> nat) option" where
  "vlen_tail 0 num ffs bs = Some (num, ffs)"
| "vlen_tail (Suc i) num ffs [] = None"
| "vlen_tail (Suc i) num ffs (b # bs) =
     (let num = push_bit 8 num OR ucast b
      in vlen_tail i num (if num AND 0xFF = 0xFF then ffs + 1 else ffs) bs)"

fun ebml_read_vlen_uint :: "byte list \<Rightarrow> (u64 \<times> nat option) option" where
  "ebml_read_vlen_uint [] = None"
| "ebml_read_vlen_uint (b # bs) =
     (let num = ucast b; (i, m) = scan_mask 8 num 0 0x80 in
      if i \<ge> 8 then Some (EBML_UINT_INVALID, None)
      else (let num = num AND (m - 1)
            in do { (num, ffs) \<leftarrow> vlen_tail i num (if num = m - 1 then 1 else 0) bs;
                    Some (if i + 1 = ffs then EBML_UINT_INVALID else num, Some (i + 1)) }))"

text \<open>
  The signed number. Its offset is computed in an \<^verbatim>\<open>int\<close>: from five bytes on the shift is undefined.
\<close>

definition ebml_read_vlen_int :: "byte list \<Rightarrow> (u64 \<times> nat option) option" where
  "ebml_read_vlen_int bs = do {
     (num, l) \<leftarrow> ebml_read_vlen_uint bs;
     if num = EBML_UINT_INVALID then Some (EBML_INT_INVALID, None)
     else (case l of None \<Rightarrow> None
           | Some l \<Rightarrow> if 7 * l - 1 \<ge> 31 then None
                       else Some (num - (push_bit (7 * l - 1) 1 - 1), Some l)) }"

section \<open>Elements\<close>

text \<open>Bytes from the most significant one; \<open>n\<close> is the number of bytes.\<close>

fun uint_tail :: "'d stream_ops \<Rightarrow> nat \<Rightarrow> u64 \<Rightarrow> 'd stream \<Rightarrow> (u64 \<times> 'd stream) option" where
  "uint_tail ops 0 num s = Some (num, s)"
| "uint_tail ops (Suc n) num s =
     do { (c, s) \<leftarrow> stream_read_char ops s; uint_tail ops n (push_bit 8 num OR scast c) s }"

definition ebml_read_uint :: "'d stream_ops \<Rightarrow> 'd stream \<Rightarrow> ((u64 \<times> u64 option) \<times> 'd stream) option" where
  "ebml_read_uint ops s = do {
     ((len, l), s) \<leftarrow> ebml_read_length ops s;
     if len = EBML_UINT_INVALID \<or> len < 1 \<or> len > 8 then Some ((EBML_UINT_INVALID, None), s)
     else do { (num, s) \<leftarrow> uint_tail ops (unat len) 0 s;
               Some ((num, map_option (\<lambda>l. len + of_nat l) l), s) } }"

definition ebml_read_int :: "'d stream_ops \<Rightarrow> 'd stream \<Rightarrow> ((u64 \<times> u64 option) \<times> 'd stream) option" where
  "ebml_read_int ops s = do {
     ((len, l), s) \<leftarrow> ebml_read_length ops s;
     if len = EBML_UINT_INVALID \<or> len < 1 \<or> len > 8 then Some ((EBML_INT_INVALID, None), s)
     else do { (c, s) \<leftarrow> stream_read_char ops s;
               let num = (if c AND 0x80 \<noteq> 0 then -1 else 0);
               (num, s) \<leftarrow> uint_tail ops (unat len - 1) (push_bit 8 num OR scast c) s;
               Some ((num, map_option (\<lambda>l. len + of_nat l) l), s) } }"

text \<open>A float is kept as the bits \<^verbatim>\<open>av_int2float\<close> and \<^verbatim>\<open>av_int2double\<close> are given.\<close>

datatype ebml_float = Float_bits u32 | Double_bits u64 | Float_invalid

definition ebml_read_float :: "'d stream_ops \<Rightarrow> 'd stream \<Rightarrow> ((ebml_float \<times> u64 option) \<times> 'd stream) option" where
  "ebml_read_float ops s = do {
     ((len, l), s) \<leftarrow> ebml_read_length ops s;
     if len = 4 then do { (w, s) \<leftarrow> stream_read_dword ops s;
                          Some ((Float_bits w, map_option (\<lambda>l. len + of_nat l) l), s) }
     else if len = 8 then do { (w, s) \<leftarrow> stream_read_qword ops s;
                               Some ((Double_bits w, map_option (\<lambda>l. len + of_nat l) l), s) }
     else Some ((Float_invalid, None), s) }"

text \<open>The bytes of a string without its null byte, \<open>None\<close> for \<^verbatim>\<open>NULL\<close>.\<close>

definition ebml_read_ascii ::
  "'d stream_ops \<Rightarrow> 'd stream \<Rightarrow> ((byte list option \<times> u64 option) \<times> 'd stream) option" where
  "ebml_read_ascii ops s = do {
     ((len, l), s) \<leftarrow> ebml_read_length ops s;
     if len = EBML_UINT_INVALID then Some ((None, None), s)
     else if len \<ge> 0x7FFFFFFF then Some ((None, None), s)
     else do { (bs, s) \<leftarrow> stream_read ops (unat len) s;
               Some ((if length bs \<noteq> unat len then None else Some bs,
                      map_option (\<lambda>l. len + of_nat l) l), s) } }"

definition ebml_read_utf8 ::
  "'d stream_ops \<Rightarrow> 'd stream \<Rightarrow> ((byte list option \<times> u64 option) \<times> 'd stream) option" where
  "ebml_read_utf8 ops s = ebml_read_ascii ops s"

text \<open>The length is an offset of the file, a signed number, when the stream skips it.\<close>

definition ebml_read_skip :: "'d stream_ops \<Rightarrow> 'd stream \<Rightarrow> ((int \<times> u64 option) \<times> 'd stream) option" where
  "ebml_read_skip ops s = do {
     ((len, l), s) \<leftarrow> ebml_read_length ops s;
     if len = EBML_UINT_INVALID then Some ((1, None), s)
     else do { (r, s) \<leftarrow> stream_skip ops s (sint len);
               Some ((0, map_option (\<lambda>l. len + of_nat l) l), s) } }"

definition ebml_read_master :: "'d stream_ops \<Rightarrow> 'd stream \<Rightarrow> ((u32 \<times> u64 option) \<times> 'd stream) option" where
  "ebml_read_master ops s = do {
     ((num, l), s) \<leftarrow> ebml_read_id ops s;
     if num = EBML_ID_INVALID then Some ((num, None), s)
     else do { ((len, l), s) \<leftarrow> ebml_read_length ops s;
               if len = EBML_UINT_INVALID then Some ((EBML_ID_INVALID, None), s)
               else Some ((num, Some len), s) } }"

section \<open>The header of a file\<close>

text \<open>
  The body of the loop: the element \<open>num\<close> read with the type and version found so far, or \<open>None\<close> inside for
  the jump to \<^verbatim>\<open>err_out\<close>. \<open>l\<close> is set wherever the loop goes on.
\<close>

definition header_element ::
  "'d stream_ops \<Rightarrow> u32 \<Rightarrow> byte list option \<Rightarrow> u32 \<Rightarrow> 'd stream \<Rightarrow>
     ((byte list option \<times> u32 \<times> u64) option \<times> 'd stream) option" where
  "header_element ops num str version s =
     (let expect = (\<lambda>k. do { ((v, l), s) \<leftarrow> ebml_read_uint ops s;
                             if v \<noteq> k then Some (None, s)
                             else (case l of None \<Rightarrow> None | Some l \<Rightarrow> Some (Some (str, version, l), s)) })
      in if num = EBML_ID_EBMLREADVERSION then expect EBML_VERSION
         else if num = EBML_ID_EBMLMAXSIZELENGTH then expect 8
         else if num = EBML_ID_EBMLMAXIDLENGTH then expect 4
         else if num = EBML_ID_DOCTYPE then
           do { ((str, l), s) \<leftarrow> ebml_read_ascii ops s;
                if str = None then Some (None, s)
                else (case l of None \<Rightarrow> None | Some l \<Rightarrow> Some (Some (str, version, l), s)) }
         else if num = EBML_ID_DOCTYPEREADVERSION then
           do { ((v, l), s) \<leftarrow> ebml_read_uint ops s;
                if v = EBML_UINT_INVALID then Some (None, s)
                else (case l of None \<Rightarrow> None | Some l \<Rightarrow> Some (Some (str, ucast v, l), s)) }
         else
           do { ((r, l), s) \<leftarrow> ebml_read_skip ops s;
                if r \<noteq> 0 then Some (None, s)
                else (case l of None \<Rightarrow> None | Some l \<Rightarrow> Some (Some (str, version, l), s)) })"

partial_function (option) header_loop ::
  "'d stream_ops \<Rightarrow> u64 \<Rightarrow> byte list option \<Rightarrow> u32 \<Rightarrow> 'd stream \<Rightarrow>
     ((byte list option \<times> u32) \<times> 'd stream) option" where
  "header_loop ops len str version s =
     (if len > 0 then do {
        ((num, l), s) \<leftarrow> ebml_read_id ops s;
        if num = EBML_ID_INVALID then Some ((None, version), s)
        else do { (r, s) \<leftarrow> header_element ops num str version s;
                  case r of None \<Rightarrow> Some ((None, version), s)
                  | Some (str, version, l) \<Rightarrow> header_loop ops (len - 2 - l) str version s } }
      else Some ((str, version), s))"

text \<open>The document type, \<open>None\<close> for \<^verbatim>\<open>NULL\<close>, and the version the caller passed \<open>version\<close> for.\<close>

definition ebml_read_header ::
  "'d stream_ops \<Rightarrow> u32 \<Rightarrow> 'd stream \<Rightarrow> ((byte list option \<times> u32) \<times> 'd stream) option" where
  "ebml_read_header ops version s = do {
     ((num, len), s) \<leftarrow> ebml_read_master ops s;
     if num \<noteq> EBML_ID_HEADER then Some ((None, version), s)
     else (case len of None \<Rightarrow> None | Some len \<Rightarrow> header_loop ops len None 1 s) }"

end
