(* ===== verification/Ebml_Numbers.thy ===== *)
theory Ebml_Numbers
  imports Ebml
begin

text \<open>
  Numbers of variable length as a writer makes them, and the readers' arithmetic on them: shifting
  bytes in, the length in the first byte, the value that stands for a length that is not known.
\<close>

section \<open>Numbers as bytes\<close>

text \<open>A number in \<open>n\<close> bytes from the most significant one, and with the length of it in the first byte.\<close>

fun be_bytes :: "nat \<Rightarrow> nat \<Rightarrow> byte list" where
  "be_bytes 0 v = []"
| "be_bytes (Suc n) v = of_nat (v div 256 ^ n) # be_bytes n v"

definition vint_bytes :: "nat \<Rightarrow> nat \<Rightarrow> byte list" where
  "vint_bytes n v = be_bytes n (2 ^ (7 * n) + v)"

text \<open>The numbers \<open>n\<close> bytes can hold; the one with all bits set means that a length is not known.\<close>

definition vint_fits :: "nat \<Rightarrow> nat \<Rightarrow> bool" where
  "vint_fits n v \<longleftrightarrow> 1 \<le> n \<and> n \<le> 8 \<and> v < 2 ^ (7 * n) - 1"

lemma length_be_bytes [simp]: "length (be_bytes n v) = n"
  by (induction n) simp_all

lemma length_vint_bytes [simp]: "length (vint_bytes n v) = n"
  by (simp add: vint_bytes_def)

lemma be_bytes_add: "be_bytes n (256 ^ n * a + v) = be_bytes n v"
proof (induction n arbitrary: a)
  case (Suc n)
  have e: "256 ^ Suc n * a = 256 ^ n * (256 * a)" by simp
  have "(256 ^ n * (256 * a) + v) div 256 ^ n = 256 * a + v div 256 ^ n" by simp
  moreover have "(of_nat (256 * a + v div 256 ^ n) :: byte) = of_nat (v div 256 ^ n)"
  proof -
    have "(of_nat (256 * a) :: byte) = 0" by (subst word_of_nat_eq_0_iff) simp
    then show ?thesis by (simp only: of_nat_add add_0_left)
  qed
  ultimately show ?case unfolding e by (simp only: be_bytes.simps Suc.IH)
qed simp

lemma be_bytes_mod: "be_bytes n (v mod 256 ^ n) = be_bytes n v"
proof -
  have "be_bytes n v = be_bytes n (256 ^ n * (v div 256 ^ n) + v mod 256 ^ n)" by simp
  also have "\<dots> = be_bytes n (v mod 256 ^ n)" by (rule be_bytes_add)
  finally show ?thesis by simp
qed

lemma div_step: "v div 256 ^ n = 256 * (v div 256 ^ Suc n) + v div 256 ^ n mod 256" for v n :: nat
proof -
  have "v div 256 ^ Suc n = v div 256 ^ n div 256" using div_mult2_eq [of v "256 ^ n" 256] by (simp add: mult.commute)
  then show ?thesis by simp
qed

section \<open>Shifting bytes in\<close>

lemma unat_shift_in:
  fixes w :: "'a::len word"
  assumes "8 \<le> LENGTH('a)" and "unat w < 2 ^ (LENGTH('a) - 8)"
  shows "unat (push_bit 8 w OR ucast (b :: byte)) = 256 * unat w + unat b"
proof -
  have l: "LENGTH('a) = (LENGTH('a) - 8) + 8" using assms(1) by simp
  have le: "256 * unat w + unat b < 2 ^ LENGTH('a)"
  proof -
    have "unat b < 256" using unsigned_less [of b, where 'a = nat] by simp
    then have "256 * unat w + unat b < 256 * Suc (unat w)" by simp
    also have "\<dots> \<le> 256 * 2 ^ (LENGTH('a) - 8)" using assms(2) by simp
    also have "\<dots> = 2 ^ (8 + (LENGTH('a) - 8))" by (simp only: power_add) simp
    also have "\<dots> = 2 ^ LENGTH('a)" using assms(1) by simp
    finally show ?thesis .
  qed
  have "push_bit 8 w OR ucast b = push_bit 8 w + ucast b"
    by (rule disjunctive_add_eq_or [symmetric], rule bit_word_eqI)
      (auto simp: bit_simps dest: bit_imp_le_length)
  also have "\<dots> = of_nat (256 * unat w + unat b)"
    by (simp add: push_bit_eq_mult mult.commute)
  finally show ?thesis using le by (simp only: unsigned_of_nat take_bit_nat_eq_self of_nat_id)
qed

lemma ucast_byte_int: "ucast (b :: byte) = (ucast b :: 32 word)"
  by simp

lemma scast_ucast_byte: "scast (ucast (b :: byte) :: c_int) = (ucast b :: u64)"
  by (rule bit_word_eqI) (auto simp: bit_simps min_def dest: bit_imp_le_length split: if_splits)

text \<open>The length in the first byte.\<close>

lemma and_power_zero:
  fixes w :: "'a::len word"
  assumes "unat w < 2 ^ Suc k" and "k < LENGTH('a)"
  shows "w AND 2 ^ k = 0 \<longleftrightarrow> unat w < 2 ^ k"
proof -
  have "w AND 2 ^ k = 0 \<longleftrightarrow> \<not> bit w k"
  proof
    assume "w AND 2 ^ k = 0"
    then have "\<not> bit (w AND 2 ^ k) k" by simp
    then show "\<not> bit w k" using assms(2) by (simp add: bit_simps)
  next
    assume "\<not> bit w k"
    then show "w AND 2 ^ k = 0" by (intro bit_word_eqI) (auto simp: bit_simps)
  qed
  also have "bit w k \<longleftrightarrow> odd (unat w div 2 ^ k)" 
    using bit_unsigned_iff [of w k, where 'a = nat] assms(2) by (simp add: bit_iff_odd)
  also have "odd (unat w div 2 ^ k) \<longleftrightarrow> \<not> unat w < 2 ^ k"
  proof (cases "unat w < 2 ^ k")
    case False
    then have "unat w div 2 ^ k = 1" using assms(1) by (intro div_nat_eqI) simp_all
    then show ?thesis using False by simp
  qed simp
  finally show ?thesis by blast
qed

lemma scan_mask_finds:
  fixes w :: "'a::len word"
  assumes "2 ^ p \<le> unat w" and "unat w < 2 ^ Suc p" and "p \<le> k" and "k - p < n" and "k < LENGTH('a)"
  shows "scan_mask n w i (2 ^ k) = (i + (k - p), 2 ^ p)"
  using assms(3-5)
proof (induction n arbitrary: i k)
  case (Suc n)
  have lt: "unat w < 2 ^ Suc k"
    using assms(2) Suc.prems(1) by (meson less_le_trans one_le_numeral power_increasing Suc_le_mono)
  show ?case
  proof (cases "k = p")
    case True
    then show ?thesis using and_power_zero [OF lt Suc.prems(3)] assms(1) by simp
  next
    case False
    then obtain j where k: "k = Suc j" "p \<le> j" using Suc.prems(1) by (cases k) auto
    have "unat w < 2 ^ k"
      using assms(2) k by (meson less_le_trans one_le_numeral power_increasing Suc_le_mono)
    then have "w AND 2 ^ k = 0" using and_power_zero [OF lt Suc.prems(3)] by simp
    moreover have "drop_bit 1 (2 ^ k :: 'a word) = 2 ^ j"
      using Suc.prems(3) unfolding k(1) by (intro bit_word_eqI) (auto simp: bit_simps)
    ultimately show ?thesis using Suc.IH [of j "Suc i"] k Suc.prems by simp
  qed
qed simp

lemma and_mask_unat:
  fixes w :: "'a::len word"
  assumes "p < LENGTH('a)"
  shows "unat (w AND (2 ^ p - 1)) = unat w mod 2 ^ p"
proof -
  have "w AND (2 ^ p - 1) = take_bit p w" by (simp add: take_bit_eq_mask mask_eq_exp_minus_1)
  then show ?thesis unfolding \<open>w AND (2 ^ p - 1) = take_bit p w\<close>
    by (simp only: unsigned_take_bit_eq) (simp add: take_bit_eq_mod)
qed


text \<open>Bytes shifted into a word, and what they add up to.\<close>

definition shifted :: "'a::len word \<Rightarrow> byte list \<Rightarrow> 'a word" where
  "shifted w bs = fold (\<lambda>b w. push_bit 8 w OR ucast b) bs w"

definition ones :: "byte list \<Rightarrow> nat" where
  "ones bs = length (filter (\<lambda>b. b = 0xFF) bs)"

lemma shifted_simps [simp]:
  "shifted w [] = w" "shifted w (b # bs) = shifted (push_bit 8 w OR ucast b) bs"
  by (simp_all add: shifted_def)

lemma ones_simps [simp]: "ones [] = 0" "ones (b # bs) = (if b = 0xFF then 1 else 0) + ones bs"
  by (simp_all add: ones_def)

lemma low_byte: "(push_bit 8 w OR ucast (b :: byte)) AND 0xFF = 0xFF \<longleftrightarrow> b = 0xFF" for w :: u64
proof -
  have m: "(0xFF :: u64) = mask 8" by (simp add: mask_eq_exp_minus_1)
  have "(push_bit 8 w OR ucast b) AND 0xFF = (ucast b :: u64)"
    unfolding m by (intro bit_word_eqI) (auto simp: bit_simps dest: bit_imp_le_length)
  moreover have "(ucast b :: u64) = 0xFF \<longleftrightarrow> b = 0xFF"
  proof
    assume "(ucast b :: u64) = 0xFF"
    then have "unat (ucast b :: u64) = unat (0xFF :: u64)" by simp
    moreover have "unat (ucast b :: u64) = unat b"
      using unsigned_less [of b, where 'a = nat] by (simp add: unsigned_ucast_eq take_bit_nat_eq_self)
    ultimately have "unat b = unat (0xFF :: byte)" by simp
    then show "b = 0xFF" using unsigned_word_eqI by blast
  qed simp
  ultimately show ?thesis by simp
qed

lemma unat_shifted:
  fixes w :: "'a::len word"
  assumes "unat w = V div 256 ^ n" and "V < 2 ^ LENGTH('a)" and "8 \<le> LENGTH('a)"
  shows "unat (shifted w (be_bytes n V)) = V"
  using assms(1)
proof (induction n arbitrary: w)
  case (Suc n)
  let ?b = "of_nat (V div 256 ^ n) :: byte"
  have b: "unat ?b = V div 256 ^ n mod 256" by (simp add: unsigned_of_nat take_bit_eq_mod)
  have "unat w \<le> V div 256" unfolding Suc.prems by (simp add: div_mult2_eq div_le_mono)
  also have "\<dots> < 2 ^ (LENGTH('a) - 8)"
  proof -
    have "(2 :: nat) ^ LENGTH('a) = 2 ^ (LENGTH('a) - 8 + 8)" using assms(3) by simp
    also have "\<dots> = 2 ^ (LENGTH('a) - 8) * 2 ^ 8" by (rule power_add)
    finally have "(2 :: nat) ^ LENGTH('a) = 2 ^ (LENGTH('a) - 8) * 256" by simp
    then show ?thesis using assms(2) by (simp add: less_mult_imp_div_less)
  qed
  finally have "unat (push_bit 8 w OR ucast ?b) = V div 256 ^ n"
    using unat_shift_in [OF assms(3), of w ?b] div_step [of V n] b Suc.prems by simp
  then show ?case using Suc.IH by simp
qed simp

lemma ones_all: "ones (be_bytes n v) \<le> n \<and> (ones (be_bytes n v) = n \<longleftrightarrow> v mod 256 ^ n = 256 ^ n - 1)"
proof (induction n)
  case (Suc n)
  let ?b = "of_nat (v div 256 ^ n) :: byte" and ?d = "v div 256 ^ n mod 256"
  have b: "?b = 0xFF \<longleftrightarrow> ?d = 255"
  proof
    assume "?b = 0xFF"
    then have "unat ?b = 255" by simp
    then show "?d = 255" by (simp add: unsigned_of_nat take_bit_eq_mod)
  next
    assume "?d = 255"
    then have "unat ?b = unat (0xFF :: byte)" by (simp add: unsigned_of_nat take_bit_eq_mod)
    then show "?b = 0xFF" using unsigned_word_eqI by blast
  qed
  have m: "v mod 256 ^ Suc n = 256 ^ n * ?d + v mod 256 ^ n"
    using mod_mult2_eq [of v "256 ^ n" 256] by (simp add: mult.commute)
  have lt: "v mod 256 ^ n < 256 ^ n" "?d < 256" by simp_all
  have e: "v mod 256 ^ Suc n = 256 ^ Suc n - 1 \<longleftrightarrow> ?d = 255 \<and> v mod 256 ^ n = 256 ^ n - 1"
  proof
    assume a: "v mod 256 ^ Suc n = 256 ^ Suc n - 1"
    have "?d = 255"
    proof (rule ccontr)
      assume "?d \<noteq> 255"
      then have "?d \<le> 254" using lt(2) by simp
      then have "256 ^ n * ?d \<le> 256 ^ n * 254" by simp
      moreover have "256 ^ n * ?d + v mod 256 ^ n + 1 = 256 * 256 ^ n" using a unfolding m by simp
      ultimately show False using lt(1) by linarith
    qed
    then show "?d = 255 \<and> v mod 256 ^ n = 256 ^ n - 1" using a unfolding m by simp
  next
    assume "?d = 255 \<and> v mod 256 ^ n = 256 ^ n - 1"
    then show "v mod 256 ^ Suc n = 256 ^ Suc n - 1" unfolding m using lt(1) by simp
  qed
  show ?case unfolding e using Suc.IH b by auto
qed simp

section \<open>The length in the first byte\<close>

lemma vint_first:
  assumes "1 \<le> n" and "n \<le> 8" and "v < 2 ^ (7 * n)"
  obtains b where "vint_bytes n v = b # be_bytes (n - 1) v" and "unat b = 2 ^ (8 - n) + v div 256 ^ (n - 1)"
    and "v div 256 ^ (n - 1) < 2 ^ (8 - n)"
proof -
  obtain m where n: "n = Suc m" using assms(1) by (cases n) auto
  let ?b = "of_nat ((2 ^ (7 * n) + v) div 256 ^ m) :: byte"
  have p: "(2 :: nat) ^ (7 * n) = 256 ^ m * 2 ^ (8 - n)"
  proof -
    have "7 * n = 8 * m + (8 - n)" using assms(2) n by simp
    then have "(2 :: nat) ^ (7 * n) = (2 ^ 8) ^ m * 2 ^ (8 - n)" by (simp only: power_add power_mult)
    then show ?thesis by simp
  qed
  have lt: "v div 256 ^ m < 2 ^ (8 - n)" using assms(3) unfolding p by (simp add: less_mult_imp_div_less mult.commute)
  have d: "(2 ^ (7 * n) + v) div 256 ^ m = 2 ^ (8 - n) + v div 256 ^ m" unfolding p by simp
  have "2 ^ (8 - n) + v div 256 ^ m < 2 ^ Suc (8 - n)" using lt by simp
  also have "(2 :: nat) ^ Suc (8 - n) \<le> 2 ^ 8" using n by (intro power_increasing) auto
  finally have "unat ?b = 2 ^ (8 - n) + v div 256 ^ m"
    unfolding d by (simp only: unsigned_of_nat of_nat_id) (simp add: take_bit_nat_eq_self)
  moreover have "vint_bytes n v = ?b # be_bytes m v"
    unfolding vint_bytes_def n be_bytes.simps using be_bytes_add [of m "2 ^ (8 - n)" v] p n by simp
  ultimately show ?thesis using that [of ?b] lt n by simp
qed

lemma scan_first:
  fixes b :: byte
  assumes "8 \<le> LENGTH('a::len)" and "2 ^ (8 - n) \<le> unat b" and "unat b < 2 ^ Suc (8 - n)"
    and "1 \<le> n" and "n \<le> k" and "k \<le> 8"
  shows "scan_mask k (ucast b :: 'a word) 0 0x80 = (n - 1, 2 ^ (8 - n))"
proof -
  have u: "unat (ucast b :: 'a word) = unat b"
  proof -
    have "unat b < 2 ^ 8" using unsigned_less [of b, where 'a = nat] by simp
    also have "(2 :: nat) ^ 8 \<le> 2 ^ LENGTH('a)" using assms(1) by (intro power_increasing) simp_all
    finally show ?thesis by (simp add: unsigned_ucast_eq take_bit_nat_eq_self)
  qed
  have "scan_mask k (ucast b :: 'a word) 0 (2 ^ 7) = (0 + (7 - (8 - n)), 2 ^ (8 - n))"
    using assms by (intro scan_mask_finds) (simp_all add: u)
  then show ?thesis using assms(4-6) by (simp add: numeral_eq_Suc)
qed

lemma vint_fits_bound: "vint_fits n v \<Longrightarrow> v < 2 ^ 56"
proof -
  assume f: "vint_fits n v"
  then have "(2 :: nat) ^ (7 * n) \<le> 2 ^ 56" by (intro power_increasing) (simp_all add: vint_fits_def)
  moreover have "v < 2 ^ (7 * n) - 1" using f by (simp add: vint_fits_def)
  ultimately show ?thesis by linarith
qed

text \<open>The number without its length bit, and when it is all ones.\<close>

lemma vint_head:
  assumes "vint_fits n v" and "unat (b :: byte) = 2 ^ (8 - n) + v div 256 ^ (n - 1)" and "v div 256 ^ (n - 1) < 2 ^ (8 - n)"
  defines "h \<equiv> (ucast b :: u64) AND (2 ^ (8 - n) - 1)"
  shows "scan_mask 8 (ucast b :: u64) 0 0x80 = (n - 1, 2 ^ (8 - n))"
    and "unat (shifted h (be_bytes (n - 1) v)) = v"
    and "n \<noteq> (if h = 2 ^ (8 - n) - 1 then 1 else 0) + ones (be_bytes (n - 1) v)"
    and "shifted h (be_bytes (n - 1) v) \<noteq> EBML_UINT_INVALID"
proof -
  have n: "1 \<le> n" "n \<le> 8" "v < 2 ^ (7 * n) - 1" using assms(1) by (simp_all add: vint_fits_def)
  show "scan_mask 8 (ucast b :: u64) 0 0x80 = (n - 1, 2 ^ (8 - n))"
    using scan_first [where 'a = 64, of n b 8] assms(2,3) n by simp
  have u: "unat (ucast b :: u64) = unat b"
    using unsigned_less [of b, where 'a = nat] by (simp add: unsigned_ucast_eq take_bit_nat_eq_self)
  have h: "unat h = v div 256 ^ (n - 1)"
    unfolding h_def using and_mask_unat [of "8 - n" "ucast b :: u64"] n assms(3) by (simp add: u assms(2))
  have v64: "v < 2 ^ 56" by (rule vint_fits_bound [OF assms(1)])
  show s: "unat (shifted h (be_bytes (n - 1) v)) = v" using unat_shifted [of h v "n - 1"] h v64 by simp
  show "shifted h (be_bytes (n - 1) v) \<noteq> EBML_UINT_INVALID"
  proof
    assume "shifted h (be_bytes (n - 1) v) = EBML_UINT_INVALID"
    then have "v = unat EBML_UINT_INVALID" using s by simp
    then show False using v64 by (simp add: EBML_UINT_INVALID_def)
  qed
  show "n \<noteq> (if h = 2 ^ (8 - n) - 1 then 1 else 0) + ones (be_bytes (n - 1) v)"
  proof
    assume e: "n = (if h = 2 ^ (8 - n) - 1 then 1 else 0) + ones (be_bytes (n - 1) v)"
    have o: "ones (be_bytes (n - 1) v) \<le> n - 1" using ones_all by blast
    then have h1: "h = 2 ^ (8 - n) - 1" using e n(1) by (auto split: if_splits)
    then have "ones (be_bytes (n - 1) v) = n - 1" using e by simp
    then have m: "v mod 256 ^ (n - 1) = 256 ^ (n - 1) - 1" using ones_all by blast
    have "unat h = 2 ^ (8 - n) - 1"
    proof -
      have lt: "(2 :: nat) ^ (8 - n) - 1 < 2 ^ 64"
      proof -
        have "(2 :: nat) ^ (8 - n) \<le> 2 ^ 8" by (intro power_increasing) simp_all
        then show ?thesis by simp
      qed
      have "(2 :: u64) ^ (8 - n) - 1 = of_nat (2 ^ (8 - n) - 1)" by (simp add: of_nat_diff)
      then show ?thesis unfolding h1 using lt by (simp only: unsigned_of_nat of_nat_id) (simp add: take_bit_nat_eq_self)
    qed
    then have d: "v div 256 ^ (n - 1) = 2 ^ (8 - n) - 1" using h by simp
    have "v = 256 ^ (n - 1) * (2 ^ (8 - n) - 1) + (256 ^ (n - 1) - 1)"
      using div_mult_mod_eq [of v "256 ^ (n - 1)"] unfolding d m by (simp add: mult.commute)
    also have "\<dots> = 256 ^ (n - 1) * 2 ^ (8 - n) - 1"
      by (simp add: diff_mult_distrib2)
    also have "(256 :: nat) ^ (n - 1) * 2 ^ (8 - n) = 2 ^ (7 * n)"
    proof -
      have "7 * n = 8 * (n - 1) + (8 - n)" using n by simp
      then have "(2 :: nat) ^ (7 * n) = (2 ^ 8) ^ (n - 1) * 2 ^ (8 - n)" by (simp only: power_add power_mult)
      then show ?thesis by simp
    qed
    finally show False using n(3) by simp
  qed
qed

section \<open>Numbers in a buffer\<close>

lemma vlen_tail_shifted:
  "length bs = i \<Longrightarrow> vlen_tail i w ffs (bs @ cs) = Some (shifted w bs, ffs + ones bs)"
  by (induction i arbitrary: bs w ffs) (auto simp: length_Suc_conv Let_def low_byte)

lemma vlen_uint_ok:
  assumes "vint_fits n v"
  shows "ebml_read_vlen_uint (vint_bytes n v @ post) = Some (of_nat v, Some n)"
proof -
  have n: "1 \<le> n" "n \<le> 8" "v < 2 ^ (7 * n)" using assms by (auto simp: vint_fits_def)
  obtain b where b: "vint_bytes n v = b # be_bytes (n - 1) v" "unat b = 2 ^ (8 - n) + v div 256 ^ (n - 1)"
    "v div 256 ^ (n - 1) < 2 ^ (8 - n)" using vint_first [OF n] by blast
  note h = vint_head [OF assms b(2,3)]
  have "shifted ((ucast b :: u64) AND (2 ^ (8 - n) - 1)) (be_bytes (n - 1) v) = of_nat v"
    using h(2) by (metis of_nat_unat ucast_id)
  then show ?thesis using h n b(1) vlen_tail_shifted [of "be_bytes (n - 1) v" "n - 1"]
    by (simp add: Let_def)
qed

end
