(* ===== verification/Ebml_Reader.thy ===== *)
theory Ebml_Reader
  imports Ebml_Numbers
begin

text \<open>
  The readers on a stream whose content is what a writer made: they return the values and leave the
  stream behind them. The lemmas are about any byte source, and any seekable one where elements are
  skipped.
\<close>

section \<open>Numbers in a stream\<close>

context byte_source
begin

text \<open>The stream after a call: still good, and \<open>post\<close> left to read.\<close>

definition moved :: "'d stream \<Rightarrow> byte list \<Rightarrow> 'd stream \<Rightarrow> bool" where
  "moved s post s' \<longleftrightarrow> ready s' \<and> same_setup s s' \<and> rest s' = post"

lemma moved_trans: "moved s q t \<Longrightarrow> moved t p u \<Longrightarrow> moved s p u"
  by (simp add: moved_def same_setup_def)

lemma moved_refl: "ready s \<Longrightarrow> moved s (rest s) s"
  by (simp add: moved_def same_setup_def)

lemma read_char_moved:
  assumes "ready s" and "rest s = b # post"
  shows "\<exists>s'. stream_read_char ops s = Some (ucast b, s') \<and> moved s post s'"
proof -
  let ?i = "nat (stream_tell s)"
  have t: "0 \<le> stream_tell s" using assms(1) buffered_tell by (auto simp: ready_def)
  have i: "?i < length content" using assms(2) by (metis drop_eq_Nil not_le list.distinct(1) rest_def)
  then have "drop ?i content = content ! ?i # drop (Suc ?i) content" by (simp add: Cons_nth_drop_Suc)
  then have b: "content ! ?i = b" "drop (Suc ?i) content = post" using assms(2) by (simp_all add: rest_def)
  from read_char [OF assms(1)] i b obtain s' where "stream_read_char ops s = Some (ucast b, s')" "ready s'"
    "same_setup s s'" "stream_tell s' = stream_tell s + 1" by auto
  moreover from this(4) t b(2) have "rest s' = post" by (simp add: rest_def nat_add_distrib)
  ultimately show ?thesis by (auto simp: moved_def)
qed

lemma moved_ready: "moved s post s' \<Longrightarrow> ready s'" "moved s post s' \<Longrightarrow> rest s' = post"
  by (simp_all add: moved_def)

text \<open>The loops that shift bytes in: each reads a byte, changes the number with it and goes on.\<close>

lemma tail_moved:
  fixes T :: "nat \<Rightarrow> 'w \<Rightarrow> 'd stream \<Rightarrow> ('w \<times> 'd stream) option"
  assumes "\<And>w s. T 0 w s = Some (w, s)"
    and "\<And>i w s. T (Suc i) w s = do { (c, s) \<leftarrow> stream_read_char ops s; T i (push c w) s }"
    and "ready s" and "rest s = bs @ post"
  shows "\<exists>s'. T (length bs) w s = Some (fold (\<lambda>b. push (ucast b)) bs w, s') \<and> moved s post s'"
  using assms(3,4)
proof (induction bs arbitrary: w s)
  case Nil
  then show ?case using assms(1) moved_refl [of s] by simp
next
  case (Cons b bs)
  from read_char_moved [OF Cons.prems(1), of b "bs @ post"] Cons.prems(2) obtain s1 where
    1: "stream_read_char ops s = Some (ucast b, s1)" "moved s (bs @ post) s1" by auto
  from Cons.IH [OF moved_ready [OF 1(2)]] obtain s' where
    "T (length bs) (push (ucast b) w) s1 = Some (fold (\<lambda>b. push (ucast b)) bs (push (ucast b) w), s')"
    "moved s1 post s'" by blast
  then show ?case using 1 moved_trans assms(2) by auto
qed

lemma id_tail_moved:
  assumes "ready s" and "rest s = bs @ post" and "length bs = i"
  shows "\<exists>s'. id_tail ops i w s = Some (shifted w bs, s') \<and> moved s post s'"
  using tail_moved [of "id_tail ops" "\<lambda>c w. push_bit 8 w OR c", OF _ _ assms(1,2)] assms(3)
  by (simp add: shifted_def)

lemma uint_tail_moved:
  assumes "ready s" and "rest s = bs @ post" and "length bs = i"
  shows "\<exists>s'. uint_tail ops i w s = Some (shifted w bs, s') \<and> moved s post s'"
  using tail_moved [of "uint_tail ops" "\<lambda>c w. push_bit 8 w OR scast c", OF _ _ assms(1,2)] assms(3)
  by (simp add: shifted_def scast_ucast_byte)

lemma length_tail_moved:
  assumes "ready s" and "rest s = bs @ post" and "length bs = i"
  shows "\<exists>s'. length_tail ops i w ffs s = Some ((shifted w bs, ffs + ones bs), s') \<and> moved s post s'"
proof -
  let ?push = "\<lambda>c (w :: u64, f). let w = push_bit 8 w OR scast (c :: c_int) in (w, if w AND 0xFF = 0xFF then f + 1 else f)"
  have "fold (\<lambda>b. ?push (ucast b)) bs (w, ffs) = (shifted w bs, ffs + ones bs)" for w :: u64 and ffs
    by (induction bs arbitrary: w ffs) (auto simp: Let_def scast_ucast_byte low_byte)
  then show ?thesis
    using tail_moved [of "\<lambda>i (w, f) s. length_tail ops i w f s" ?push, OF _ _ assms(1,2), of "(w, ffs)"] assms(3)
    by (simp add: Let_def case_prod_beta)
qed

lemma read_length_moved:
  assumes "ready s" and "rest s = vint_bytes n v @ post" and "vint_fits n v"
  shows "\<exists>s'. ebml_read_length ops s = Some ((of_nat v, Some n), s') \<and> moved s post s'"
proof -
  have n: "1 \<le> n" "n \<le> 8" "v < 2 ^ (7 * n)" using assms(3) by (auto simp: vint_fits_def)
  obtain b where b: "vint_bytes n v = b # be_bytes (n - 1) v" "unat b = 2 ^ (8 - n) + v div 256 ^ (n - 1)"
    "v div 256 ^ (n - 1) < 2 ^ (8 - n)" using vint_first [OF n] by blast
  note h = vint_head [OF assms(3) b(2,3)]
  define hd where "hd = (ucast b :: u64) AND (2 ^ (8 - n) - 1)"
  have v: "shifted hd (be_bytes (n - 1) v) = of_nat v"
    using h(2) unfolding hd_def by (metis of_nat_unat ucast_id)
  from read_char_moved [OF assms(1), of b "be_bytes (n - 1) v @ post"] assms(2) b(1) obtain s1 where
    1: "stream_read_char ops s = Some (ucast b, s1)" "moved s (be_bytes (n - 1) v @ post) s1" by auto
  from length_tail_moved [OF moved_ready [OF 1(2)], of "n - 1" hd "if hd = 2 ^ (8 - n) - 1 then 1 else 0"]
  obtain s' where 2: "length_tail ops (n - 1) hd (if hd = 2 ^ (8 - n) - 1 then 1 else 0) s1 =
      Some ((of_nat v, (if hd = 2 ^ (8 - n) - 1 then 1 else 0) + ones (be_bytes (n - 1) v)), s')" "moved s1 post s'"
    unfolding v by auto
  have "ebml_read_length ops s = Some ((of_nat v, Some n), s')"
    using 1(1) 2(1) h(1,3) n unfolding ebml_read_length_def
    by (simp add: scast_ucast_byte hd_def [symmetric] Let_def)
  then show ?thesis using moved_trans [OF 1(2) 2(2)] by blast
qed

text \<open>An identifier of \<open>n\<close> bytes is read with its length bit.\<close>

lemma read_id_moved:
  assumes "ready s" and "rest s = be_bytes n v @ post" and "1 \<le> n" and "n \<le> 4"
    and "2 ^ (7 * n) \<le> v" and "v < 2 ^ Suc (7 * n)"
  shows "\<exists>s'. ebml_read_id ops s = Some ((of_nat v, Some n), s') \<and> moved s post s'"
proof -
  define u where "u = v - 2 ^ (7 * n)"
  have u: "v = 2 ^ (7 * n) + u" "u < 2 ^ (7 * n)" using assms(5,6) by (simp_all add: u_def)
  obtain m where m: "n = Suc m" using assms(3) by (cases n) auto
  have n: "1 \<le> n" "n \<le> 8" using assms(3,4) by simp_all
  obtain b where b: "be_bytes n v = b # be_bytes m u" "unat b = 2 ^ (8 - n) + u div 256 ^ m"
    "u div 256 ^ m < 2 ^ (8 - n)" using vint_first [OF n u(2)] m u(1) by (auto simp: vint_bytes_def)
  have tl: "be_bytes m u = be_bytes m v" using b(1) unfolding m by simp
  have p: "v div 256 ^ m = unat b"
  proof -
    have "7 * n = 8 * m + (8 - n)" using n m by simp
    then have "(2 :: nat) ^ (7 * n) = (2 ^ 8) ^ m * 2 ^ (8 - n)" by (simp only: power_add power_mult)
    then show ?thesis unfolding u(1) b(2) by simp
  qed
  have "v < 2 ^ 32"
  proof -
    have "(2 :: nat) ^ Suc (7 * n) \<le> 2 ^ 29" using assms(4) by (intro power_increasing) simp_all
    then show ?thesis using assms(6) by simp
  qed
  moreover have "unat (ucast b :: u32) = v div 256 ^ m"
    using unsigned_less [of b, where 'a = nat] p by (simp add: unsigned_ucast_eq take_bit_nat_eq_self)
  ultimately have "unat (shifted (ucast b :: u32) (be_bytes m v)) = v" using unat_shifted [of "ucast b :: u32" v m] by simp
  then have sh: "shifted (ucast b :: u32) (be_bytes m u) = of_nat v" unfolding tl by (metis of_nat_unat ucast_id)
  have "scan_mask 4 (ucast b :: u32) 0 0x80 = (n - 1, 2 ^ (8 - n))"
    using scan_first [where 'a = 32, of n b 4] b(2,3) assms(3,4) by simp
  moreover from read_char_moved [OF assms(1), of b "be_bytes m u @ post"] assms(2) b(1) obtain s1 where
    1: "stream_read_char ops s = Some (ucast b, s1)" "moved s (be_bytes m u @ post) s1" by auto
  moreover from id_tail_moved [OF moved_ready [OF 1(2)], of m "ucast b"] obtain s' where
    2: "id_tail ops m (ucast b) s1 = Some (of_nat v, s')" "moved s1 post s'" unfolding sh by auto
  ultimately have "ebml_read_id ops s = Some ((of_nat v, Some n), s')"
    using assms(4) m by (simp add: ebml_read_id_def Let_def)
  then show ?thesis using moved_trans [OF 1(2) 2(2)] by blast
qed

section \<open>Elements\<close>

lemma read_uint_moved:
  assumes "ready s" and "rest s = vint_bytes n k @ be_bytes k v @ post" and "vint_fits n k"
    and "1 \<le> k" and "k \<le> 8" and "v < 256 ^ k"
  shows "\<exists>s'. ebml_read_uint ops s = Some ((of_nat v, Some (of_nat (n + k))), s') \<and> moved s post s'"
proof -
  from read_length_moved [OF assms(1,2,3)] obtain s1 where
    1: "ebml_read_length ops s = Some ((of_nat k, Some n), s1)" "moved s (be_bytes k v @ post) s1" by blast
  have uk: "unat (of_nat k :: u64) = k" using assms(5) by (simp add: unsigned_of_nat take_bit_nat_eq_self)
  have "v < 2 ^ 64"
  proof -
    have "(256 :: nat) ^ k \<le> 256 ^ 8" using assms(5) by (intro power_increasing) simp_all
    then show ?thesis using assms(6) by simp
  qed
  then have "unat (shifted (0 :: u64) (be_bytes k v)) = v" using unat_shifted [of "0 :: u64" v k] assms(6) by simp
  then have sh: "shifted (0 :: u64) (be_bytes k v) = of_nat v" by (metis of_nat_unat ucast_id)
  from uint_tail_moved [OF moved_ready [OF 1(2)], of k 0] obtain s' where
    2: "uint_tail ops k 0 s1 = Some (of_nat v, s')" "moved s1 post s'" unfolding sh by auto
  have "of_nat k \<noteq> EBML_UINT_INVALID" "\<not> (of_nat k :: u64) < 1" "\<not> (8 :: u64) < of_nat k"
    using assms(4,5) uk by (auto simp: EBML_UINT_INVALID_def word_less_nat_alt dest: arg_cong [of _ _ unat])
  then have "ebml_read_uint ops s = Some ((of_nat v, Some (of_nat (n + k))), s')"
    using 1(1) 2(1) uk by (simp add: ebml_read_uint_def add.commute)
  then show ?thesis using moved_trans [OF 1(2) 2(2)] by blast
qed

lemma read_ascii_moved:
  assumes "ready s" and "rest s = vint_bytes n (length bs) @ bs @ post" and "vint_fits n (length bs)"
    and "length bs < 0x7FFFFFFF"
  shows "\<exists>s'. ebml_read_ascii ops s = Some ((Some bs, Some (of_nat (n + length bs))), s') \<and> moved s post s'"
proof -
  let ?k = "length bs"
  from read_length_moved [OF assms(1,2,3)] obtain s1 where
    1: "ebml_read_length ops s = Some ((of_nat ?k, Some n), s1)" "moved s (bs @ post) s1" by blast
  have uk: "unat (of_nat ?k :: u64) = ?k" using assms(4) by (simp add: unsigned_of_nat take_bit_nat_eq_self)
  have r1: "ready s1" "rest s1 = bs @ post" using moved_ready [OF 1(2)] by simp_all
  have t: "0 \<le> stream_tell s1" using r1(1) buffered_tell by (auto simp: ready_def)
  from read_all [OF r1(1), of ?k] obtain s' where
    2: "stream_read ops ?k s1 = Some (bs, s')" "ready s'" "same_setup s1 s'"
      "stream_tell s' = stream_tell s1 + int ?k" unfolding r1(2) by auto
  have "rest s' = drop ?k (rest s1)" using 2(4) t by (simp add: rest_def nat_add_distrib add.commute)
  then have m: "moved s1 post s'" using 2(2,3) r1(2) by (simp add: moved_def)
  have "of_nat ?k \<noteq> EBML_UINT_INVALID" "\<not> (0x7FFFFFFF :: u64) \<le> of_nat ?k"
    using assms(4) uk by (auto simp: EBML_UINT_INVALID_def word_le_nat_alt dest: arg_cong [of _ _ unat])
  then have "ebml_read_ascii ops s = Some ((Some bs, Some (of_nat (n + ?k))), s')"
    using 1(1) 2(1) uk by (simp add: ebml_read_ascii_def add.commute)
  then show ?thesis using moved_trans [OF 1(2) m] by blast
qed

end

section \<open>Skipping\<close>

context seekable_source
begin

lemma skip_moved:
  assumes "ready s" and "rest s = bs @ post" and "mode s \<noteq> STREAM_WRITE" and "0 \<le> sector_size s"
  shows "\<exists>r s'. stream_skip ops s (int (length bs)) = Some (r, s') \<and> moved s post s'"
proof -
  have t: "0 \<le> stream_tell s" using assms(1) buffered_tell by (auto simp: ready_def)
  have len: "length content - nat (stream_tell s) = length bs + length post"
    using arg_cong [OF assms(2), of length] by (simp add: rest_def)
  have drop: "drop (length bs) (rest s) = post" by (simp add: assms(2))
  show ?thesis
  proof (cases "int (length bs) > 2 * int STREAM_BUFFER_SIZE \<and> flags s AND MP_STREAM_SEEK_FW \<noteq> 0")
    case True
    then have "0 < length bs" by (auto simp: stream_consts)
    then have "0 \<le> stream_tell s + int (length bs)" "stream_tell s + int (length bs) \<le> int (length content)"
      using t len by linarith+
    from seek [OF assms(1,3,4) this] obtain r s' where
      s': "stream_seek ops s (stream_tell s + int (length bs)) = Some (r, s')" "ready s'" "same_setup s s'"
        "stream_tell s' = stream_tell s + int (length bs)" by blast
    then have "moved s post s'"
      using drop t by (simp add: moved_def rest_def nat_add_distrib add.commute)
    then show ?thesis using s'(1) True by (auto simp: stream_skip_def)
  next
    case False
    from read_all [OF assms(1), of "length bs"] obtain s' where
      s': "stream_read ops (length bs) s = Some (bs, s')" "ready s'" "same_setup s s'"
        "stream_tell s' = stream_tell s + int (length bs)" unfolding assms(2) by auto
    then have "moved s post s'"
      using drop t by (simp add: moved_def rest_def nat_add_distrib add.commute)
    then show ?thesis using s'(1) False skip_reads [OF assms(1), of "length bs"] by (auto simp: stream_skip_def)
  qed
qed

lemma read_skip_moved:
  assumes "ready s" and "rest s = vint_bytes n (length bs) @ bs @ post" and "vint_fits n (length bs)"
    and "mode s \<noteq> STREAM_WRITE" and "0 \<le> sector_size s"
  shows "\<exists>s'. ebml_read_skip ops s = Some ((0, Some (of_nat (n + length bs))), s') \<and> moved s post s'"
proof -
  let ?k = "length bs"
  have k: "?k < 2 ^ 56" by (rule vint_fits_bound [OF assms(3)])
  from read_length_moved [OF assms(1-3)] obtain s1 where
    1: "ebml_read_length ops s = Some ((of_nat ?k, Some n), s1)" "moved s (bs @ post) s1" by blast
  have "mode s1 \<noteq> STREAM_WRITE" "0 \<le> sector_size s1"
    using 1(2) assms(4,5) by (auto simp: moved_def same_setup_def)
  from skip_moved [OF moved_ready [OF 1(2)] this] obtain r s' where
    2: "stream_skip ops s1 (int ?k) = Some (r, s')" "moved s1 post s'" by blast
  have "sint (of_nat ?k :: u64) = int ?k"
    using k by (simp add: signed_of_nat signed_take_bit_int_eq_self)
  moreover have "of_nat ?k \<noteq> EBML_UINT_INVALID"
  proof
    assume "of_nat ?k = EBML_UINT_INVALID"
    then have "unat (of_nat ?k :: u64) = unat EBML_UINT_INVALID" by simp
    then show False using k by (simp add: unsigned_of_nat take_bit_nat_eq_self EBML_UINT_INVALID_def)
  qed
  ultimately have "ebml_read_skip ops s = Some ((0, Some (of_nat (n + ?k))), s')"
    using 1(1) 2(1) by (simp add: ebml_read_skip_def add.commute)
  then show ?thesis using moved_trans [OF 1(2) 2(2)] by blast
qed

end

section \<open>Headers\<close>

text \<open>
  What a writer puts into a header: elements with identifiers of two bytes, the length of the content in \<open>n\<close>
  bytes, and as content a number in \<open>k\<close> bytes or a string.
\<close>

datatype ebml_content = Uint nat nat | Bytes "byte list"

type_synonym ebml_element = "nat \<times> nat \<times> ebml_content"

fun content_bytes :: "ebml_content \<Rightarrow> byte list" where
  "content_bytes (Uint k v) = be_bytes k v"
| "content_bytes (Bytes bs) = bs"

fun element_bytes :: "ebml_element \<Rightarrow> byte list" where
  "element_bytes (i, n, c) = be_bytes 2 i @ vint_bytes n (length (content_bytes c)) @ content_bytes c"

fun content_ok :: "nat \<Rightarrow> ebml_content \<Rightarrow> bool" where
  "content_ok i (Uint k v) \<longleftrightarrow> 1 \<le> k \<and> k \<le> 8 \<and> v < 256 ^ k \<and> i \<noteq> 0x4282 \<and> (i = 0x42F7 \<longrightarrow> v = 1) \<and>
     (i = 0x42F3 \<longrightarrow> v = 8) \<and> (i = 0x42F2 \<longrightarrow> v = 4) \<and> v < 2 ^ 64 - 1"
| "content_ok i (Bytes bs) \<longleftrightarrow> length bs < 0x7FFFFFFF \<and> i \<notin> {0x42F7, 0x42F3, 0x42F2, 0x4285}"

fun element_ok :: "ebml_element \<Rightarrow> bool" where
  "element_ok (i, n, c) \<longleftrightarrow> 0x4000 \<le> i \<and> i < 0x8000 \<and> vint_fits n (length (content_bytes c)) \<and> content_ok i c"

definition header_bytes :: "nat \<Rightarrow> ebml_element list \<Rightarrow> byte list" where
  "header_bytes n es =
     (let body = concat (map element_bytes es)
      in be_bytes 4 0x1A45DFA3 @ vint_bytes n (length body) @ body)"

text \<open>What the reader makes of them: the last document type and the last version of it.\<close>

fun element_means :: "ebml_element \<Rightarrow> byte list option \<times> u32 \<Rightarrow> byte list option \<times> u32" where
  "element_means (i, n, Bytes bs) (str, version) = (if i = 0x4282 then Some bs else str, version)"
| "element_means (i, n, Uint k v) (str, version) = (str, if i = 0x4285 then of_nat v else version)"

definition header_means :: "ebml_element list \<Rightarrow> byte list option \<times> u32" where
  "header_means es = fold element_means es (None, 1)"

lemma of_nat_eq_unat:
  fixes w :: "'a::len word"
  assumes "i < 2 ^ LENGTH('a)"
  shows "of_nat i = w \<longleftrightarrow> i = unat w"
proof
  assume "of_nat i = w"
  then have "unat (of_nat i :: 'a word) = unat w" by simp
  then show "i = unat w" using assms by (simp add: unsigned_of_nat take_bit_nat_eq_self)
next
  assume "i = unat w"
  then show "of_nat i = w" by simp
qed

context seekable_source
begin

lemma header_element_moved:
  assumes "element_ok (i, n, c)" and "ready s" and "mode s \<noteq> STREAM_WRITE" and "0 \<le> sector_size s"
    and "rest s = vint_bytes n (length (content_bytes c)) @ content_bytes c @ post"
  shows "\<exists>s' str' version'. header_element ops (of_nat i) str version s =
      Some (Some (str', version', of_nat (n + length (content_bytes c))), s') \<and>
    (str', version') = element_means (i, n, c) (str, version) \<and> moved s post s'"
proof -
  have fits: "vint_fits n (length (content_bytes c))" and i: "i < 2 ^ LENGTH(32)" using assms(1) by simp_all
  note ids = of_nat_eq_unat [OF i] ebml_ids
  show ?thesis
  proof (cases c)
    case (Uint k v)
    have k: "1 \<le> k" "k \<le> 8" "v < 256 ^ k" "v < 2 ^ 64 - 1" "i \<noteq> 0x4282" "i = 0x42F7 \<longrightarrow> v = 1"
      "i = 0x42F3 \<longrightarrow> v = 8" "i = 0x42F2 \<longrightarrow> v = 4" using assms(1) Uint by simp_all
    have r: "rest s = vint_bytes n k @ be_bytes k v @ post" "vint_fits n k" using assms(5) fits Uint by simp_all
    from read_uint_moved [OF assms(2) r k(1-3)] obtain s' where
      s': "ebml_read_uint ops s = Some ((of_nat v, Some (of_nat (n + k))), s')" "moved s post s'" by blast
    have "(of_nat v :: u64) \<noteq> EBML_UINT_INVALID"
      using k(4) of_nat_eq_unat [of v EBML_UINT_INVALID] by (simp add: EBML_UINT_INVALID_def)
    moreover have "(ucast (of_nat v :: u64) :: u32) = of_nat v"
    proof -
      have "unat (of_nat v :: u64) = v" using k(4) by (simp add: unsigned_of_nat take_bit_nat_eq_self)
      then show ?thesis by (metis of_nat_unat)
    qed
    moreover note s'(1)
    moreover have "\<exists>s'. ebml_read_skip ops s = Some ((0, Some (of_nat (n + k))), s') \<and> moved s post s'"
      using read_skip_moved [OF assms(2) _ _ assms(3,4), of n "be_bytes k v" post] r by simp
    ultimately show ?thesis using k(5-8) s'(2) Uint
      by (auto simp: header_element_def ids EBML_VERSION_def Let_def)
  next
    case (Bytes bs)
    have b: "length bs < 0x7FFFFFFF" "i \<notin> {0x42F7, 0x42F3, 0x42F2, 0x4285}" using assms(1) Bytes by simp_all
    have r: "rest s = vint_bytes n (length bs) @ bs @ post" "vint_fits n (length bs)" using assms(5) fits Bytes by simp_all
    have "\<exists>s'. ebml_read_skip ops s = Some ((0, Some (of_nat (n + length bs))), s') \<and> moved s post s'"
      using read_skip_moved [OF assms(2) r assms(3,4)] .
    then show ?thesis using read_ascii_moved [OF assms(2) r b(1)] b(2) Bytes
      by (auto simp: header_element_def ids Let_def)
  qed
qed

lemma header_loop_moved:
  assumes "list_all element_ok es" and "ready s" and "mode s \<noteq> STREAM_WRITE" and "0 \<le> sector_size s"
    and "rest s = concat (map element_bytes es) @ post" and "length (concat (map element_bytes es)) < 2 ^ 56"
  shows "\<exists>s'. header_loop ops (of_nat (length (concat (map element_bytes es)))) str version s =
      Some (fold element_means es (str, version), s') \<and> moved s post s'"
  using assms
proof (induction es arbitrary: s str version)
  case Nil
  then show ?case using moved_refl [of s] by (subst header_loop.simps) simp
next
  case (Cons e es)
  obtain i n c where e: "e = (i, n, c)" by (cases e) auto
  let ?k = "length (content_bytes c)" and ?r = "concat (map element_bytes es)"
  have ok: "element_ok (i, n, c)" "0x4000 \<le> i" "i < 0x8000" "list_all element_ok es" using Cons.prems(1) e by simp_all
  have r: "rest s = be_bytes 2 i @ (vint_bytes n ?k @ content_bytes c @ ?r @ post)" using Cons.prems(5) e by simp
  from read_id_moved [OF Cons.prems(2) r] ok(2,3) obtain s1 where
    1: "ebml_read_id ops s = Some ((of_nat i, Some 2), s1)"
      "moved s (vint_bytes n ?k @ content_bytes c @ ?r @ post) s1" by auto
  have m1: "mode s1 \<noteq> STREAM_WRITE" "0 \<le> sector_size s1"
    using 1(2) Cons.prems(3,4) by (auto simp: moved_def same_setup_def)
  from header_element_moved [OF ok(1) moved_ready(1) [OF 1(2)] m1, of "?r @ post" str version]
    moved_ready(2) [OF 1(2)] obtain s2 str2 version2 where
    2: "header_element ops (of_nat i) str version s1 = Some (Some (str2, version2, of_nat (n + ?k)), s2)"
      "(str2, version2) = element_means (i, n, c) (str, version)" "moved s1 (?r @ post) s2" by auto
  have m2: "mode s2 \<noteq> STREAM_WRITE" "0 \<le> sector_size s2"
    using 2(3) m1 by (auto simp: moved_def same_setup_def)
  have "length ?r < 2 ^ 56" using Cons.prems(6) by simp
  from Cons.IH [OF ok(4) moved_ready(1) [OF 2(3)] m2 moved_ready(2) [OF 2(3)] this] obtain s' where
    3: "header_loop ops (of_nat (length ?r)) str2 version2 s2 = Some (fold element_means es (str2, version2), s')"
      "moved s2 post s'" by blast
  have len: "length (concat (map element_bytes (e # es))) = 2 + (n + ?k) + length ?r" unfolding e by simp
  have "(of_nat (2 + (n + ?k) + length ?r) :: u64) - 2 - of_nat (n + ?k) = of_nat (length ?r)" by simp
  moreover have "(0 :: u64) < of_nat (2 + (n + ?k) + length ?r)"
    using Cons.prems(6) unfolding len
    by (simp only: word_less_nat_alt unsigned_of_nat of_nat_id) (simp add: take_bit_nat_eq_self)
  moreover have "of_nat i \<noteq> EBML_ID_INVALID"
    using ok(3) of_nat_eq_unat [of i EBML_ID_INVALID] by (simp add: EBML_ID_INVALID_def)
  ultimately have "header_loop ops (of_nat (2 + (n + ?k) + length ?r)) str version s =
      Some (fold element_means es (str2, version2), s')"
    using 1(1) 2(1) 3(1) by (subst header_loop.simps) simp
  then show ?case unfolding len using 2(2) e moved_trans [OF 1(2) moved_trans [OF 2(3) 3(2)]] by auto
qed

lemma header_moved:
  assumes "list_all element_ok es" and "vint_fits n (length (concat (map element_bytes es)))"
    and "ready s" and "rest s = header_bytes n es @ post" and "mode s \<noteq> STREAM_WRITE" and "0 \<le> sector_size s"
  shows "\<exists>s'. ebml_read_header ops v s = Some (header_means es, s') \<and> moved s post s'"
proof -
  let ?b = "concat (map element_bytes es)"
  have r: "rest s = be_bytes 4 0x1A45DFA3 @ (vint_bytes n (length ?b) @ ?b @ post)"
    using assms(4) by (simp add: header_bytes_def Let_def)
  from read_id_moved [OF assms(3) r] obtain s1 where
    1: "ebml_read_id ops s = Some (((0x1A45DFA3 :: u32), Some 4), s1)" "moved s (vint_bytes n (length ?b) @ ?b @ post) s1"
    by auto
  from read_length_moved [OF moved_ready [OF 1(2)] assms(2)] obtain s2 where
    2: "ebml_read_length ops s1 = Some ((of_nat (length ?b), Some n), s2)" "moved s1 (?b @ post) s2" by blast
  have lt: "length ?b < 2 ^ 56" by (rule vint_fits_bound [OF assms(2)])
  have m: "mode s2 \<noteq> STREAM_WRITE" "0 \<le> sector_size s2"
    using assms(5,6) 1(2) 2(2) by (auto simp: moved_def same_setup_def)
  from header_loop_moved [OF assms(1) moved_ready(1) [OF 2(2)] m moved_ready(2) [OF 2(2)] lt] obtain s' where
    3: "header_loop ops (of_nat (length ?b)) None 1 s2 = Some (header_means es, s')" "moved s2 post s'"
    unfolding header_means_def by blast
  have "of_nat (length ?b) \<noteq> EBML_UINT_INVALID"
    using lt of_nat_eq_unat [of "length ?b" EBML_UINT_INVALID] by (simp add: EBML_UINT_INVALID_def)
  then have "ebml_read_master ops s = Some ((EBML_ID_HEADER, Some (of_nat (length ?b))), s2)"
    using 1(1) 2(1) by (simp add: ebml_read_master_def EBML_ID_HEADER_def EBML_ID_INVALID_def)
  then have "ebml_read_header ops v s = Some (header_means es, s')"
    using 3(1) by (simp add: ebml_read_header_def)
  then show ?thesis using moved_trans [OF 1(2) moved_trans [OF 2(2) 3(2)]] by blast
qed

end

end
