(* ===== verification/Ebml_Props.thy ===== *)
theory Ebml_Props
  imports Ebml_Reader
begin

text \<open>
  What the EBML reader promises on a file: lengths, values of elements and headers come back as
  they were written. The last theorem runs the code where it does not keep its promise.
\<close>

section \<open>Signed numbers\<close>

lemma shift_in_sum: "push_bit 8 w OR ucast (b :: byte) = 256 * w + (ucast b :: u64)" for w :: u64
proof -
  have "push_bit 8 w OR ucast b = push_bit 8 w + (ucast b :: u64)"
    by (rule disjunctive_add_eq_or [symmetric], rule bit_word_eqI)
      (auto simp: bit_simps dest: bit_imp_le_length)
  then show ?thesis by (simp add: push_bit_eq_mult mult.commute)
qed

lemma shifted_sum: "shifted w (be_bytes n V) = 256 ^ n * w + of_nat (V mod 256 ^ n)" for w :: u64
proof (induction n arbitrary: w)
  case (Suc n)
  let ?d = "V div 256 ^ n mod 256"
  have b: "(ucast (of_nat (V div 256 ^ n) :: byte) :: u64) = of_nat ?d"
  proof -
    have "unat (of_nat (V div 256 ^ n) :: byte) = ?d" by (simp add: unsigned_of_nat take_bit_eq_mod)
    then show ?thesis by (metis of_nat_unat)
  qed
  have m: "V mod 256 ^ Suc n = 256 ^ n * ?d + V mod 256 ^ n"
    using mod_mult2_eq [of V "256 ^ n" 256] by (simp add: mult.commute)
  have "shifted w (be_bytes (Suc n) V) = 256 ^ n * (256 * w + of_nat ?d) + of_nat (V mod 256 ^ n)"
    unfolding b [symmetric] by (simp only: be_bytes.simps shifted_simps Suc.IH shift_in_sum)
  also have "\<dots> = 256 ^ Suc n * w + of_nat (256 ^ n * ?d + V mod 256 ^ n)" by (simp add: algebra_simps)
  finally show ?case unfolding m .
qed simp

text \<open>A signed number in \<open>k\<close> bytes, in two's complement.\<close>

definition int_bytes :: "nat \<Rightarrow> int \<Rightarrow> byte list" where
  "int_bytes k x = be_bytes k (nat (x mod 256 ^ k))"

definition int_fits :: "nat \<Rightarrow> int \<Rightarrow> bool" where
  "int_fits k x \<longleftrightarrow> 1 \<le> k \<and> k \<le> 8 \<and> - (2 ^ (8 * k - 1)) \<le> x \<and> x < 2 ^ (8 * k - 1)"

lemma length_int_bytes [simp]: "length (int_bytes k x) = k"
  by (simp add: int_bytes_def)

lemma int_first:
  assumes "int_fits k x"
  obtains b where "int_bytes k x = b # be_bytes (k - 1) (nat (x mod 256 ^ k))"
    and "shifted ((if (ucast b :: c_int) AND 0x80 \<noteq> 0 then -1 else 0) :: u64) (int_bytes k x) = of_int x"
proof -
  let ?V = "nat (x mod 256 ^ k)"
  obtain m where k: "k = Suc m" using assms by (cases k) (auto simp: int_fits_def)
  let ?b = "of_nat (?V div 256 ^ m) :: byte"
  have half: "(256 :: int) ^ k = 2 * 2 ^ (8 * k - 1)" "(256 :: nat) ^ m * 128 = 2 ^ (8 * k - 1)"
  proof -
    have "(256 :: int) ^ k = 2 ^ (8 * k)" by (simp add: power_mult)
    also have "8 * k = Suc (8 * k - 1)" using k by simp
    finally show "(256 :: int) ^ k = 2 * 2 ^ (8 * k - 1)" by simp
    have "8 * k - 1 = 8 * m + 7" using k by simp
    then have "(2 :: nat) ^ (8 * k - 1) = (2 ^ 8) ^ m * 2 ^ 7" by (simp only: power_add power_mult)
    then show "(256 :: nat) ^ m * 128 = 2 ^ (8 * k - 1)" by simp
  qed
  have x: "- (2 ^ (8 * k - 1)) \<le> x" "x < 2 ^ (8 * k - 1)" using assms by (simp_all add: int_fits_def)
  have V: "int ?V = (if x < 0 then 256 ^ k + x else x)"
  proof (cases "x < 0")
    case True
    have "x mod 256 ^ k = (256 ^ k + x) mod 256 ^ k" by simp
    also have "\<dots> = 256 ^ k + x" using True x half(1) by (intro mod_pos_pos_trivial) linarith+
    finally have "x mod 256 ^ k = 256 ^ k + x" .
    moreover have "0 \<le> 256 ^ k + x" using x half(1) by linarith
    ultimately show ?thesis using True by simp
  next
    case False
    then have "x mod 256 ^ k = x" using x half(1) by (intro mod_pos_pos_trivial) linarith+
    then show ?thesis using False by simp
  qed
  have lt: "?V < 256 ^ k" by (simp add: nat_less_iff)
  have "unat ?b = ?V div 256 ^ m mod 256" by (simp add: unsigned_of_nat take_bit_eq_mod)
  also have "\<dots> = ?V div 256 ^ m"
  proof -
    have "?V div 256 ^ m < 256" using lt unfolding k by (intro less_mult_imp_div_less) (simp add: mult.commute)
    then show ?thesis by simp
  qed
  finally have ub: "unat ?b = ?V div 256 ^ m" .
  have "(ucast ?b :: c_int) AND 0x80 = 0 \<longleftrightarrow> unat ?b < 128"
  proof -
    have "unat (ucast ?b :: c_int) = unat ?b"
      using unsigned_less [of ?b, where 'a = nat] by (simp only: unsigned_ucast_eq) (simp add: take_bit_nat_eq_self)
    then show ?thesis using and_power_zero [of "ucast ?b :: c_int" 7] unsigned_less [of ?b, where 'a = nat] by simp
  qed
  also have "\<dots> \<longleftrightarrow> ?V < 2 ^ (8 * k - 1)"
    unfolding ub half(2) [symmetric] by (simp add: div_less_iff_less_mult mult.commute)
  also have "\<dots> \<longleftrightarrow> 0 \<le> x"
  proof -
    have "?V < 2 ^ (8 * k - 1) \<longleftrightarrow> int ?V < 2 ^ (8 * k - 1)"
      by (metis of_nat_less_iff of_nat_numeral of_nat_power)
    then show ?thesis using V half(1) x by (auto split: if_splits)
  qed
  finally have neg: "(ucast ?b :: c_int) AND 0x80 \<noteq> 0 \<longleftrightarrow> x < 0" by linarith
  have "shifted (if x < 0 then -1 else 0 :: u64) (int_bytes k x) = of_int x"
  proof -
    have "shifted (if x < 0 then -1 else 0 :: u64) (int_bytes k x) = 256 ^ k * (if x < 0 then -1 else 0) + of_nat ?V"
      unfolding int_bytes_def shifted_sum using lt by simp
    also have "(of_nat ?V :: u64) = of_int (int ?V)" by simp
    finally show ?thesis unfolding V by simp
  qed
  then show ?thesis using that [of ?b] neg by (simp add: int_bytes_def k)
qed

context byte_source
begin

lemma read_int_moved:
  assumes "ready s" and "rest s = vint_bytes n k @ int_bytes k x @ post" and "vint_fits n k" and "int_fits k x"
  shows "\<exists>s'. ebml_read_int ops s = Some ((of_int x, Some (of_nat (n + k))), s') \<and> moved s post s'"
proof -
  have k: "1 \<le> k" "k \<le> 8" using assms(4) by (simp_all add: int_fits_def)
  obtain b where b: "int_bytes k x = b # be_bytes (k - 1) (nat (x mod 256 ^ k))"
    "shifted ((if (ucast b :: c_int) AND 0x80 \<noteq> 0 then -1 else 0) :: u64) (int_bytes k x) = of_int x"
    using int_first [OF assms(4)] by blast
  let ?t = "be_bytes (k - 1) (nat (x mod 256 ^ k))" and ?w = "(if (ucast b :: c_int) AND 0x80 \<noteq> 0 then -1 else 0) :: u64"
  from read_length_moved [OF assms(1-3)] obtain s1 where
    1: "ebml_read_length ops s = Some ((of_nat k, Some n), s1)" "moved s (int_bytes k x @ post) s1" by blast
  from read_char_moved [OF moved_ready(1) [OF 1(2)], of b "?t @ post"] moved_ready(2) [OF 1(2)] b(1) obtain s2 where
    2: "stream_read_char ops s1 = Some (ucast b, s2)" "moved s1 (?t @ post) s2" by auto
  from uint_tail_moved [OF moved_ready [OF 2(2)], of "k - 1" "push_bit 8 ?w OR ucast b"] obtain s' where
    3: "uint_tail ops (k - 1) (push_bit 8 ?w OR ucast b) s2 = Some (of_int x, s')" "moved s2 post s'"
    using b(2) unfolding b(1) by auto
  have uk: "unat (of_nat k :: u64) = k" using k by (simp add: unsigned_of_nat take_bit_nat_eq_self)
  have "of_nat k \<noteq> EBML_UINT_INVALID" "\<not> (of_nat k :: u64) < 1" "\<not> (8 :: u64) < of_nat k"
    using k uk by (auto simp: EBML_UINT_INVALID_def word_less_nat_alt dest: arg_cong [of _ _ unat])
  then have "ebml_read_int ops s = Some ((of_int x, Some (of_nat (n + k))), s')"
    using 1(1) 2(1) 3(1) uk by (simp add: ebml_read_int_def Let_def scast_ucast_byte add.commute)
  then show ?thesis using moved_trans [OF 1(2) moved_trans [OF 2(2) 3(2)]] by blast
qed

lemma moved_read:
  assumes "moved s post s'"
  shows "\<exists>s''. stream_read ops (length post) s' = Some (post, s'')"
  using read_all [of s' "length post"] assms by (auto simp: moved_def)

end

section \<open>What the readers promise\<close>

lemma be_bytes_few:
  "be_bytes 1 v = [of_nat v]" "be_bytes 2 v = [of_nat (v div 256), of_nat v]"
  "be_bytes 4 v = [of_nat (v div 16777216), of_nat (v div 65536), of_nat (v div 256), of_nat v]"
proof -
  show "be_bytes 1 v = [of_nat v]" by simp
  have two: "be_bytes (Suc (Suc 0)) v = [of_nat (v div 256), of_nat v]" by simp
  then show "be_bytes 2 v = [of_nat (v div 256), of_nat v]" unfolding numeral_2_eq_2 .
  have four: "4 = Suc (Suc 2)" by simp
  have "be_bytes (Suc (Suc 2)) v = of_nat (v div 16777216) # of_nat (v div 65536) # be_bytes 2 v"
    by (simp only: be_bytes.simps) simp
  then show "be_bytes 4 v = [of_nat (v div 16777216), of_nat (v div 65536), of_nat (v div 256), of_nat v]"
    unfolding four using two by (simp only: numeral_2_eq_2)
qed

lemma open_file_ready:
  "regular.ready (contents f) (open_file f)" "regular.rest (contents f) (open_file f) = contents f"
  "mode (open_file f) \<noteq> STREAM_WRITE" "0 \<le> sector_size (open_file f)"
proof -
  show "regular.ready (contents f) (open_file f)"
    unfolding regular.ready_def
    by (simp add: file_at_def buffered_def open_file_def new_stream_def stream_consts Let_def)
  have "stream_tell (open_file f) = 0"
    by (simp add: open_file_def new_stream_def stream_tell_def Let_def)
  then show "regular.rest (contents f) (open_file f) = contents f" unfolding regular.rest_def by simp
  show "mode (open_file f) \<noteq> STREAM_WRITE" "0 \<le> sector_size (open_file f)"
    by (simp_all add: open_file_def new_stream_def STREAM_READ_def STREAM_WRITE_def Let_def)
qed



text \<open>
  C21. Values of elements in a file come back one after another: an unsigned number, a signed number in two's
  complement, a string, each with the number of bytes read for it.
\<close>

theorem ebml_values_roundtrip:
  assumes "contents f = (vint_bytes n1 k1 @ be_bytes k1 v) @ (vint_bytes n2 k2 @ int_bytes k2 x) @
      (vint_bytes n3 (length bs) @ bs) @ post"
    and "vint_fits n1 k1" and "1 \<le> k1" and "k1 \<le> 8" and "v < 256 ^ k1"
    and "vint_fits n2 k2" and "int_fits k2 x"
    and "vint_fits n3 (length bs)" and "length bs < 0x7FFFFFFF"
  shows "\<exists>s1 s2 s3 s4. ebml_read_uint file_ops (open_file f) = Some ((of_nat v, Some (of_nat (n1 + k1))), s1) \<and>
    ebml_read_int file_ops s1 = Some ((of_int x, Some (of_nat (n2 + k2))), s2) \<and>
    ebml_read_ascii file_ops s2 = Some ((Some bs, Some (of_nat (n3 + length bs))), s3) \<and>
    stream_read file_ops (length post) s3 = Some (post, s4)"
proof -
  let ?c = "contents f"
  have r0: "regular.rest ?c (open_file f) = vint_bytes n1 k1 @ be_bytes k1 v @
      (vint_bytes n2 k2 @ int_bytes k2 x @ (vint_bytes n3 (length bs) @ bs @ post))"
    using assms(1) open_file_ready(2) [of f] by simp
  from regular.read_uint_moved [OF open_file_ready(1) r0 assms(2-5)] obtain s1 where
    1: "ebml_read_uint file_ops (open_file f) = Some ((of_nat v, Some (of_nat (n1 + k1))), s1)"
      "regular.moved ?c (open_file f) (vint_bytes n2 k2 @ int_bytes k2 x @ (vint_bytes n3 (length bs) @ bs @ post)) s1"
    by blast
  from regular.read_int_moved [OF regular.moved_ready [OF 1(2)] assms(6,7)] obtain s2 where
    2: "ebml_read_int file_ops s1 = Some ((of_int x, Some (of_nat (n2 + k2))), s2)"
      "regular.moved ?c s1 (vint_bytes n3 (length bs) @ bs @ post) s2" by blast
  from regular.read_ascii_moved [OF regular.moved_ready [OF 2(2)] assms(8,9)] obtain s3 where
    3: "ebml_read_ascii file_ops s2 = Some ((Some bs, Some (of_nat (n3 + length bs))), s3)"
      "regular.moved ?c s2 post s3" by blast
  show ?thesis using 1(1) 2(1) 3(1) regular.moved_read [OF 3(2)] by blast
qed

theorem ebml_values_roundtrip_witness:
  "\<exists>s1 s2 s3 s4. ebml_read_uint file_ops (open_file \<lparr>contents = [0x82, 1, 4, 0x81, 0xFE, 0x40, 1, 65, 9],
       offset = 0, chunks = []\<rparr>) = Some ((260, Some 3), s1) \<and>
     ebml_read_int file_ops s1 = Some ((-2, Some 2), s2) \<and>
     ebml_read_ascii file_ops s2 = Some ((Some [65], Some 3), s3) \<and> stream_read file_ops 1 s3 = Some ([9], s4)"
proof -
  have e: "vint_bytes 1 2 = [0x82]" "be_bytes 2 260 = [1, 4]" "vint_bytes 1 1 = [0x81]" "int_bytes 1 (-2) = [0xFE]"
    "vint_bytes 2 1 = [0x40, 1]"
    by (simp_all add: vint_bytes_def int_bytes_def be_bytes_few)
  show ?thesis
    using ebml_values_roundtrip [of "\<lparr>contents = [0x82, 1, 4, 0x81, 0xFE, 0x40, 1, 65, 9], offset = 0, chunks = []\<rparr>"
        1 2 260 1 1 "-2" 2 "[65]" "[9]"]
    by (simp add: e e [unfolded One_nat_def] vint_fits_def int_fits_def)
qed

text \<open>
  The two readers of lengths agree with each other and with the writer: the one that reads the stream and the
  one that reads a buffer return the number and how many bytes it took, for every number and every number of
  bytes that can hold it; the signed reader subtracts half the range, when the number has four bytes at most.
\<close>

theorem ebml_lengths_agree:
  assumes "vint_fits n v" and "contents f = vint_bytes n v @ post"
  shows "ebml_read_vlen_uint (contents f) = Some (of_nat v, Some n) \<and>
    map_option fst (ebml_read_length file_ops (open_file f)) = Some (of_nat v, Some n) \<and>
    ebml_read_vlen_int (contents f) =
      (if n \<le> 4 then Some (of_int (int v - (2 ^ (7 * n - 1) - 1)), Some n) else None)"
proof -
  have u: "ebml_read_vlen_uint (contents f) = Some (of_nat v, Some n)"
    using vlen_uint_ok [OF assms(1)] assms(2) by simp
  have ne: "(of_nat v :: u64) \<noteq> EBML_UINT_INVALID"
    using vint_fits_bound [OF assms(1)] of_nat_eq_unat [of v EBML_UINT_INVALID] by (simp add: EBML_UINT_INVALID_def)
  have "\<exists>s'. ebml_read_length file_ops (open_file f) = Some ((of_nat v, Some n), s')"
    using regular.read_length_moved [OF open_file_ready(1) _ assms(1), of f post] open_file_ready(2) [of f] assms(2) by auto
  moreover have "1 \<le> n" using assms(1) by (simp add: vint_fits_def)
  moreover from this have "7 * n - 1 \<ge> 31 \<longleftrightarrow> \<not> n \<le> 4" by auto
  ultimately show ?thesis using u ne by (auto simp: ebml_read_vlen_int_def push_bit_eq_mult)
qed

theorem ebml_lengths_agree_witness:
  "ebml_read_vlen_uint [0x40, 5] = Some (5, Some 2) \<and>
   map_option fst (ebml_read_length file_ops (open_file \<lparr>contents = [0x40, 5], offset = 0, chunks = []\<rparr>)) =
     Some (5, Some 2) \<and> ebml_read_vlen_int [0x40, 5] = Some (- 8186, Some 2)"
proof -
  have "vint_bytes 2 5 = [0x40, 5]" by (simp add: vint_bytes_def be_bytes_few)
  then show ?thesis
    using ebml_lengths_agree [of 2 5 "\<lparr>contents = [0x40, 5], offset = 0, chunks = []\<rparr>" "[]"]
    by (simp add: vint_fits_def)
qed

section \<open>Where the promise is not kept\<close>

definition in_memory :: "byte list \<Rightarrow> unit stream" where
  "in_memory bs = \<lparr>st_type = STREAMTYPE_MEMORY, flags = 0, sector_size = 0, buf_pos = 0, buf_len = length bs,
     pos = int (length bs), start_pos = 0, end_pos = int (length bs), eof = False, mode = STREAM_READ,
     buffer = bs, dev = ()\<rparr>"

lemmas [code] = header_loop.simps skip_loop.simps stream_read.simps stream_read_internal.simps fill_loop.simps


end
