(* ===== verification/Input_Cmd.thy ===== *)
theory Input_Cmd
  imports C_String
begin

text \<open>
  The command language of \<^verbatim>\<open>input/input.c\<close>: the table \<^verbatim>\<open>mp_cmds\<close> of the commands with
  their argument types and defaults, and \<^verbatim>\<open>mp_input_parse_cmd\<close>, which the key bindings, the
  slave mode and the menus use to turn a line into a command. A line is read at the level of the
  characters that the code leaves in its buffer: quoting and the removal of backslashes included.
\<close>

subsection \<open>Commands\<close>

text \<open>
  A floating-point argument is kept as the decimal number that was written, as a mantissa and a
  decimal exponent; the rounding to a C \<^verbatim>\<open>float\<close>, range errors, and the hexadecimal, infinity and
  not-a-number notations of \<^verbatim>\<open>strtod\<close> are outside the model. A string argument is
  \<^term>\<open>None\<close> where the pointer is NULL. The union is tagged by its constructor, and the argument
  of type \<open>-1\<close> that ends the array is the end of the list.
\<close>

type_synonym c_float = "int \<times> int"

datatype cmd_arg = Arg_int c_int | Arg_float c_float | Arg_string "string option"

record mp_cmd =
  cmd_id :: int
  cmd_name :: string
  cmd_nargs :: nat
  cmd_args :: "cmd_arg list"
  cmd_pausing :: int

definition cmd_def :: "int \<Rightarrow> string \<Rightarrow> nat \<Rightarrow> cmd_arg list \<Rightarrow> mp_cmd" where
  "cmd_def i name n args = \<lparr>cmd_id = i, cmd_name = name, cmd_nargs = n, cmd_args = args, cmd_pausing = 0\<rparr>"

fun same_type :: "cmd_arg \<Rightarrow> cmd_arg \<Rightarrow> bool" where
  "same_type (Arg_int _) (Arg_int _) = True"
| "same_type (Arg_float _) (Arg_float _) = True"
| "same_type (Arg_string _) (Arg_string _) = True"
| "same_type _ _ = False"

definition MP_CMD_MAX_ARGS :: nat where "MP_CMD_MAX_ARGS = 6"

definition MP_CMD_QUIT :: int where "MP_CMD_QUIT = 2"
definition MP_CMD_PLAY_TREE_STEP :: int where "MP_CMD_PLAY_TREE_STEP = 6"
definition MP_CMD_PLAY_TREE_UP_STEP :: int where "MP_CMD_PLAY_TREE_UP_STEP = 7"
definition MP_CMD_PLAY_ALT_SRC_STEP :: int where "MP_CMD_PLAY_ALT_SRC_STEP = 8"
definition MP_CMD_KEYDOWN_EVENTS :: int where "MP_CMD_KEYDOWN_EVENTS = 69"
definition MP_CMD_SET_MOUSE_POS :: int where "MP_CMD_SET_MOUSE_POS = 94"

text \<open>
  The table, with every optional part of the build; the numbers are the values of the enumeration
  \<^verbatim>\<open>mp_command_type\<close>. The last argument of each entry is its signature: the types, with the
  defaults of the arguments that may be left out.
\<close>

definition mp_cmds :: "mp_cmd list" where
  "mp_cmds = [
  cmd_def 91 ''radio_step_channel'' 1 [Arg_int 0],
  cmd_def 92 ''radio_set_channel'' 1 [Arg_string None],
  cmd_def 93 ''radio_set_freq'' 1 [Arg_float (0, 0)],
  cmd_def 96 ''radio_step_freq'' 1 [Arg_float (0, 0)],
  cmd_def 0 ''seek'' 1 [Arg_float (0, 0), Arg_int 0],
  cmd_def 40 ''edl_loadfile'' 1 [Arg_string None],
  cmd_def 41 ''edl_mark'' 0 [],
  cmd_def 1 ''audio_delay'' 1 [Arg_float (0, 0), Arg_int 0],
  cmd_def 60 ''speed_incr'' 1 [Arg_float (0, 0)],
  cmd_def 61 ''speed_mult'' 1 [Arg_float (0, 0)],
  cmd_def 62 ''speed_set'' 1 [Arg_float (0, 0)],
  cmd_def 2 ''quit'' 0 [Arg_int 0],
  cmd_def 111 ''stop'' 0 [],
  cmd_def 3 ''pause'' 0 [],
  cmd_def 4 ''pause_space'' 0 [],
  cmd_def 59 ''frame_step'' 0 [],
  cmd_def 6 ''pt_step'' 1 [Arg_int 0, Arg_int 0],
  cmd_def 7 ''pt_up_step'' 1 [Arg_int 0, Arg_int 0],
  cmd_def 8 ''alt_src_step'' 1 [Arg_int 0],
  cmd_def 98 ''loop'' 1 [Arg_int 0, Arg_int 0],
  cmd_def 9 ''sub_delay'' 1 [Arg_float (0, 0), Arg_int 0],
  cmd_def 38 ''sub_step'' 1 [Arg_int 0, Arg_int 0],
  cmd_def 10 ''osd'' 0 [Arg_int (-1)],
  cmd_def 44 ''osd_show_text'' 1 [Arg_string None, Arg_int (-1), Arg_int 0],
  cmd_def 73 ''osd_show_property_text'' 1 [Arg_string None, Arg_int (-1), Arg_int 0],
  cmd_def 74 ''osd_show_progression'' 0 [],
  cmd_def 11 ''volume'' 1 [Arg_float (0, 0), Arg_int 0],
  cmd_def 99 ''balance'' 1 [Arg_float (0, 0), Arg_int 0],
  cmd_def 12 ''use_master'' 0 [],
  cmd_def 27 ''mute'' 0 [Arg_int (-1)],
  cmd_def 13 ''contrast'' 1 [Arg_int 0, Arg_int 0],
  cmd_def 31 ''gamma'' 1 [Arg_int 0, Arg_int 0],
  cmd_def 14 ''brightness'' 1 [Arg_int 0, Arg_int 0],
  cmd_def 15 ''hue'' 1 [Arg_int 0, Arg_int 0],
  cmd_def 16 ''saturation'' 1 [Arg_int 0, Arg_int 0],
  cmd_def 17 ''frame_drop'' 0 [Arg_int (-1)],
  cmd_def 23 ''sub_pos'' 1 [Arg_int 0, Arg_int 0],
  cmd_def 42 ''sub_alignment'' 0 [Arg_int (-1)],
  cmd_def 32 ''sub_visibility'' 0 [Arg_int (-1)],
  cmd_def 67 ''sub_load'' 1 [Arg_string None],
  cmd_def 68 ''sub_remove'' 0 [Arg_int (-1)],
  cmd_def 55 ''vobsub_lang'' 0 [Arg_int (-2)],
  cmd_def 55 ''sub_select'' 0 [Arg_int (-2)],
  cmd_def 104 ''sub_source'' 0 [Arg_int (-2)],
  cmd_def 106 ''sub_vob'' 0 [Arg_int (-2)],
  cmd_def 107 ''sub_demux'' 0 [Arg_int (-2)],
  cmd_def 105 ''sub_file'' 0 [Arg_int (-2)],
  cmd_def 64 ''sub_log'' 0 [],
  cmd_def 100 ''sub_scale'' 1 [Arg_float (0, 0), Arg_int 0],
  cmd_def 109 ''ass_use_margins'' 0 [Arg_int (-1)],
  cmd_def 37 ''get_percent_pos'' 0 [],
  cmd_def 66 ''get_time_pos'' 0 [],
  cmd_def 36 ''get_time_length'' 0 [],
  cmd_def 77 ''get_file_name'' 0 [],
  cmd_def 78 ''get_video_codec'' 0 [],
  cmd_def 79 ''get_video_bitrate'' 0 [],
  cmd_def 80 ''get_video_resolution'' 0 [],
  cmd_def 81 ''get_audio_codec'' 0 [],
  cmd_def 82 ''get_audio_bitrate'' 0 [],
  cmd_def 83 ''get_audio_samples'' 0 [],
  cmd_def 84 ''get_meta_title'' 0 [],
  cmd_def 85 ''get_meta_artist'' 0 [],
  cmd_def 86 ''get_meta_album'' 0 [],
  cmd_def 87 ''get_meta_year'' 0 [],
  cmd_def 88 ''get_meta_comment'' 0 [],
  cmd_def 89 ''get_meta_track'' 0 [],
  cmd_def 90 ''get_meta_genre'' 0 [],
  cmd_def 65 ''switch_audio'' 0 [Arg_int (-1)],
  cmd_def 108 ''switch_angle'' 0 [Arg_int (-1)],
  cmd_def 110 ''switch_title'' 0 [Arg_int (-1)],
  cmd_def 103 ''tv_start_scan'' 0 [],
  cmd_def 18 ''tv_step_channel'' 1 [Arg_int 0],
  cmd_def 19 ''tv_step_norm'' 0 [],
  cmd_def 20 ''tv_step_chanlist'' 0 [],
  cmd_def 39 ''tv_set_channel'' 1 [Arg_string None],
  cmd_def 43 ''tv_last_channel'' 0 [],
  cmd_def 45 ''tv_set_freq'' 1 [Arg_float (0, 0)],
  cmd_def 97 ''tv_step_freq'' 1 [Arg_float (0, 0)],
  cmd_def 46 ''tv_set_norm'' 1 [Arg_string None],
  cmd_def 47 ''tv_set_brightness'' 1 [Arg_int 0, Arg_int 1],
  cmd_def 48 ''tv_set_contrast'' 1 [Arg_int 0, Arg_int 1],
  cmd_def 49 ''tv_set_hue'' 1 [Arg_int 0, Arg_int 1],
  cmd_def 50 ''tv_set_saturation'' 1 [Arg_int 0, Arg_int 1],
  cmd_def 53 ''forced_subs_only'' 0 [Arg_int (-1)],
  cmd_def 5101 ''dvb_set_channel'' 2 [Arg_int 0, Arg_int 0],
  cmd_def 58 ''switch_ratio'' 0 [Arg_float (0, 0)],
  cmd_def 22 ''vo_fullscreen'' 0 [Arg_int (-1)],
  cmd_def 54 ''vo_ontop'' 0 [Arg_int (-1)],
  cmd_def 76 ''file_filter'' 1 [Arg_int 0],
  cmd_def 56 ''vo_rootwin'' 0 [Arg_int (-1)],
  cmd_def 70 ''vo_border'' 0 [Arg_int (-1)],
  cmd_def 25 ''screenshot'' 0 [Arg_int 0],
  cmd_def 26 ''panscan'' 1 [Arg_float (0, 0), Arg_int 0],
  cmd_def 57 ''switch_vsync'' 0 [Arg_int 0],
  cmd_def 28 ''loadfile'' 1 [Arg_string None, Arg_int 0],
  cmd_def 29 ''loadlist'' 1 [Arg_string None, Arg_int 0],
  cmd_def 63 ''run'' 1 [Arg_string None],
  cmd_def 21 ''capturing'' 0 [],
  cmd_def 30 ''change_rectangle'' 2 [Arg_int 0, Arg_int 0],
  cmd_def 101 ''teletext_add_dec'' 1 [Arg_string None],
  cmd_def 102 ''teletext_go_link'' 1 [Arg_int 0],
  cmd_def 112 ''overlay_add'' 5 [Arg_string None, Arg_int 0, Arg_int 0, Arg_int 0, Arg_int 0],
  cmd_def 113 ''overlay_remove'' 1 [Arg_int 0],
  cmd_def 24 ''dvdnav'' 1 [Arg_string None],
  cmd_def 34 ''menu'' 1 [Arg_string None],
  cmd_def 35 ''set_menu'' 1 [Arg_string None, Arg_string None],
  cmd_def 7000 ''help'' 0 [],
  cmd_def 7001 ''exit'' 0 [],
  cmd_def 7002 ''hide'' 0 [Arg_int 3000],
  cmd_def 51 ''get_vo_fullscreen'' 0 [],
  cmd_def 52 ''get_sub_visibility'' 0 [],
  cmd_def 69 ''key_down_event'' 1 [Arg_int 0],
  cmd_def 71 ''set_property'' 2 [Arg_string None, Arg_string None],
  cmd_def 72 ''get_property'' 1 [Arg_string None],
  cmd_def 95 ''step_property'' 1 [Arg_string None, Arg_float (0, 0), Arg_int 0],
  cmd_def 75 ''seek_chapter'' 1 [Arg_int 0, Arg_int 0],
  cmd_def 94 ''set_mouse_pos'' 2 [Arg_int 0, Arg_int 0],
  cmd_def 7003 ''af_switch'' 1 [Arg_string None],
  cmd_def 7004 ''af_add'' 1 [Arg_string None],
  cmd_def 7005 ''af_del'' 1 [Arg_string None],
  cmd_def 7006 ''af_clr'' 0 [],
  cmd_def 7007 ''af_cmdline'' 2 [Arg_string None, Arg_string None],
  cmd_def 7008 ''gui'' 1 [Arg_string None]]"

subsection \<open>Words of a line\<close>

definition blank :: "char \<Rightarrow> bool" where
  "blank c \<longleftrightarrow> c = CHR '' '' \<or> c = CHR 0x09"

abbreviation backslash :: char where "backslash \<equiv> CHR 0x5C"
abbreviation quote :: char where "quote \<equiv> CHR 0x22"
abbreviation apostrophe :: char where "apostrophe \<equiv> CHR 0x27"

text \<open>\<^verbatim>\<open>atoi\<close> sets \<^verbatim>\<open>errno\<close> when the number does not fit a \<^verbatim>\<open>long\<close>.\<close>

definition long_value :: "string \<Rightarrow> int" where
  "long_value s = (case dropWhile c_isspace s of
       [] \<Rightarrow> 0
     | c # r \<Rightarrow> if c = CHR ''-'' then - int (read_digits r 0)
          else if c = CHR ''+'' then int (read_digits r 0)
          else int (read_digits (c # r) 0))"

definition atoi_erange :: "string \<Rightarrow> bool" where
  "atoi_erange s \<longleftrightarrow> clamp_long (long_value s) \<noteq> long_value s"

text \<open>\<^verbatim>\<open>atof\<close> on decimal notation: sign, digits, an optional fraction and an optional exponent.\<close>

definition exp_part :: "string \<Rightarrow> int" where
  "exp_part s = (case s of [] \<Rightarrow> 0
     | e # r \<Rightarrow> if e \<noteq> CHR ''e'' \<and> e \<noteq> CHR ''E'' then 0 else
       (case r of [] \<Rightarrow> 0
        | c # t \<Rightarrow> if c = CHR ''-'' then - int (read_digits t 0)
            else if c = CHR ''+'' then int (read_digits t 0)
            else int (read_digits r 0)))"

definition unsigned_float :: "string \<Rightarrow> c_float" where
  "unsigned_float s =
     (let ip = takeWhile c_isdigit s; r = dropWhile c_isdigit s in
      case r of
        c # t \<Rightarrow>
          (if c = CHR ''.'' then
             let fp = takeWhile c_isdigit t; u = dropWhile c_isdigit t in
             if ip = [] \<and> fp = [] then (0, 0)
             else (int (read_digits (ip @ fp) 0), exp_part u - int (length fp))
           else if ip = [] then (0, 0) else (int (read_digits ip 0), exp_part r))
      | [] \<Rightarrow> (int (read_digits ip 0), 0))"

definition atof :: "string \<Rightarrow> c_float" where
  "atof s = (case dropWhile c_isspace s of
       [] \<Rightarrow> (0, 0)
     | c # r \<Rightarrow> if c = CHR ''-'' then (- fst (unsigned_float r), snd (unsigned_float r))
         else if c = CHR ''+'' then unsigned_float r
         else unsigned_float (c # r))"

subsection \<open>String arguments\<close>

text \<open>
  The length of the text before the terminator \<open>t\<close>. A terminator is skipped when a backslash
  stands before it; \<open>esc\<close> says that the last character was a backslash and was not itself before
  the point where the search resumed.
\<close>

fun arg_end :: "char \<Rightarrow> string \<Rightarrow> bool \<Rightarrow> nat option" where
  "arg_end t [] esc = None"
| "arg_end t (c # s) esc =
     (if c = t \<and> \<not> esc then Some 0
      else map_option Suc (arg_end t s (c \<noteq> t \<and> c = backslash)))"

text \<open>The loop that removes the backslashes: the character after each is kept as it is.\<close>

fun unescape :: "string \<Rightarrow> string" where
  "unescape [] = []"
| "unescape (c # s) = (if c = backslash then (case s of [] \<Rightarrow> [] | d # r \<Rightarrow> d # unescape r)
     else c # unescape s)"

text \<open>
  The argument at \<open>p\<close> and the text at which the parser goes on, or \<^term>\<open>None\<close> if it gives up.
  The removal of the backslashes is done in the line itself, so an unquoted argument leaves the
  parser at the start of its own, changed text.
\<close>

definition string_arg :: "string \<Rightarrow> string option \<times> string option" where
  "string_arg p =
     (if p \<noteq> [] \<and> (hd p = apostrophe \<or> hd p = quote) then
        (case arg_end (hd p) (tl p) False of
           None \<Rightarrow> (None, None)
         | Some k \<Rightarrow> (Some (unescape (take k (tl p))), Some (drop (Suc k) (tl p))))
      else
        let k = (case arg_end (CHR '' '') p False of None \<Rightarrow> length p | Some k \<Rightarrow> k) in
        (Some (unescape (take k p)), Some (unescape (take k p) @ drop k p)))"

definition cmd_arg_value :: "cmd_arg \<Rightarrow> string \<Rightarrow> cmd_arg \<times> string option" where
  "cmd_arg_value d p = (case d of
       Arg_int _ \<Rightarrow> (Arg_int (atoi p), if atoi_erange p then None else Some p)
     | Arg_float _ \<Rightarrow> (Arg_float (atof p), Some p)
     | Arg_string _ \<Rightarrow> (case string_arg p of (v, rest) \<Rightarrow> (Arg_string v, rest)))"

subsection \<open>The parser\<close>

text \<open>
  The loop over the arguments, with the number of array elements left, the rest of the signature
  and the text at \<^verbatim>\<open>ptr\<close>: the values it stored and the number of its rounds, which is what
  \<^verbatim>\<open>nargs\<close> becomes. A round that meets the end of the signature stores no value but counts.
\<close>

fun cmd_args_loop :: "nat \<Rightarrow> cmd_arg list \<Rightarrow> string \<Rightarrow> cmd_arg list \<times> nat" where
  "cmd_args_loop 0 defs ptr = ([], 0)"
| "cmd_args_loop (Suc room) defs ptr =
     (let p = dropWhile blank (dropWhile (\<lambda>c. \<not> blank c) ptr) in
      if p = [] \<or> hd p = CHR ''#'' then ([], 0)
      else case defs of
        [] \<Rightarrow> ([], 1)
      | d # ds \<Rightarrow>
          (case cmd_arg_value d p of
             (v, None) \<Rightarrow> ([v], 1)
           | (v, Some rest) \<Rightarrow>
               (case cmd_args_loop room ds rest of (vs, n) \<Rightarrow> (v # vs, Suc n))))"

text \<open>The prefixes that say what a command does to the pause state; \<open>-1\<close> is none of them.\<close>

definition pausing_prefix :: "string \<Rightarrow> int \<times> string" where
  "pausing_prefix s =
     (if is_prefix ''pausing '' s then (1, drop 8 s)
      else if is_prefix ''pausing_keep '' s then (2, drop 13 s)
      else if is_prefix ''pausing_toggle '' s then (3, drop 15 s)
      else if is_prefix ''pausing_keep_force '' s then (4, drop 19 s)
      else (- 1, s))"

definition find_cmd :: "string \<Rightarrow> mp_cmd option" where
  "find_cmd w = find (\<lambda>d. strncaseeq (length w) (cmd_name d) w) mp_cmds"

definition default_pausing :: "int \<Rightarrow> int \<Rightarrow> int" where
  "default_pausing pd i =
     (if i = MP_CMD_KEYDOWN_EVENTS \<or> i = MP_CMD_SET_MOUSE_POS then 4 else pd)"

text \<open>\<open>pd\<close> is the global \<^verbatim>\<open>pausing_default\<close>.\<close>

definition mp_input_parse_cmd :: "int \<Rightarrow> string \<Rightarrow> mp_cmd option" where
  "mp_input_parse_cmd pd line =
     (case pausing_prefix (dropWhile blank line) of (pausing, str) \<Rightarrow>
      let w = takeWhile (\<lambda>c. \<not> blank c) str in
      if w = [] then None
      else case find_cmd w of
        None \<Rightarrow> None
      | Some d \<Rightarrow>
          (case cmd_args_loop MP_CMD_MAX_ARGS (cmd_args d) str of (vs, n) \<Rightarrow>
           if cmd_nargs d > n then None
           else Some \<lparr>cmd_id = cmd_id d, cmd_name = cmd_name d, cmd_nargs = n,
                      cmd_args = vs @ drop n (cmd_args d),
                      cmd_pausing = (if pausing = - 1 then default_pausing pd (cmd_id d)
                                     else pausing)\<rparr>))"

subsection \<open>Looking up a command\<close>

definition name_char :: "char \<Rightarrow> bool" where
  "name_char c \<longleftrightarrow> c \<in> set ''abcdefghijklmnopqrstuvwxyz_''"

lemma tolower_name: "name_char c \<Longrightarrow> c_tolower c = c"
  unfolding name_char_def by (auto simp: c_tolower_def in_range_def)

lemma name_char_not_blank: "name_char c \<Longrightarrow> \<not> blank c"
  unfolding name_char_def by (auto simp: blank_def)

lemma cmd_names: "map cmd_name mp_cmds =
[''radio_step_channel'', ''radio_set_channel'', ''radio_set_freq'', ''radio_step_freq'',
''seek'', ''edl_loadfile'', ''edl_mark'', ''audio_delay'', ''speed_incr'', ''speed_mult'',
''speed_set'', ''quit'', ''stop'', ''pause'', ''pause_space'', ''frame_step'', ''pt_step'',
''pt_up_step'', ''alt_src_step'', ''loop'', ''sub_delay'', ''sub_step'', ''osd'',
''osd_show_text'', ''osd_show_property_text'', ''osd_show_progression'', ''volume'',
''balance'', ''use_master'', ''mute'', ''contrast'', ''gamma'', ''brightness'', ''hue'',
''saturation'', ''frame_drop'', ''sub_pos'', ''sub_alignment'', ''sub_visibility'',
''sub_load'', ''sub_remove'', ''vobsub_lang'', ''sub_select'', ''sub_source'', ''sub_vob'',
''sub_demux'', ''sub_file'', ''sub_log'', ''sub_scale'', ''ass_use_margins'',
''get_percent_pos'', ''get_time_pos'', ''get_time_length'', ''get_file_name'',
''get_video_codec'', ''get_video_bitrate'', ''get_video_resolution'', ''get_audio_codec'',
''get_audio_bitrate'', ''get_audio_samples'', ''get_meta_title'', ''get_meta_artist'',
''get_meta_album'', ''get_meta_year'', ''get_meta_comment'', ''get_meta_track'',
''get_meta_genre'', ''switch_audio'', ''switch_angle'', ''switch_title'', ''tv_start_scan'',
''tv_step_channel'', ''tv_step_norm'', ''tv_step_chanlist'', ''tv_set_channel'',
''tv_last_channel'', ''tv_set_freq'', ''tv_step_freq'', ''tv_set_norm'', ''tv_set_brightness'',
''tv_set_contrast'', ''tv_set_hue'', ''tv_set_saturation'', ''forced_subs_only'',
''dvb_set_channel'', ''switch_ratio'', ''vo_fullscreen'', ''vo_ontop'', ''file_filter'',
''vo_rootwin'', ''vo_border'', ''screenshot'', ''panscan'', ''switch_vsync'', ''loadfile'',
''loadlist'', ''run'', ''capturing'', ''change_rectangle'', ''teletext_add_dec'',
''teletext_go_link'', ''overlay_add'', ''overlay_remove'', ''dvdnav'', ''menu'', ''set_menu'',
''help'', ''exit'', ''hide'', ''get_vo_fullscreen'', ''get_sub_visibility'',
''key_down_event'', ''set_property'', ''get_property'', ''step_property'', ''seek_chapter'',
''set_mouse_pos'', ''af_switch'', ''af_add'', ''af_del'', ''af_clr'', ''af_cmdline'', ''gui'']"
  by (simp add: mp_cmds_def cmd_def_def)

lemma names_plain: "list_all (list_all name_char) (map cmd_name mp_cmds)"
  unfolding cmd_names by code_simp

text \<open>No name of the table is a prefix of an earlier one, so that no command hides another.\<close>

fun names_ok :: "string list \<Rightarrow> string list \<Rightarrow> bool" where
  "names_ok seen [] = True"
| "names_ok seen (n # ns) = (list_all (\<lambda>s. \<not> is_prefix n s) seen \<and> names_ok (n # seen) ns)"

lemma names_first: "names_ok [] (map cmd_name mp_cmds)"
  unfolding cmd_names by code_simp

lemma names_ok_split:
  "names_ok seen (xs @ n # ys) \<Longrightarrow> s \<in> set xs \<union> set seen \<Longrightarrow> \<not> is_prefix n s"
proof (induction xs arbitrary: seen)
  case (Cons a xs)
  then show ?case using Cons.IH [of "a # seen"] by auto
qed (auto simp: list_all_iff)

lemma cmd_name_chars: "d \<in> set mp_cmds \<Longrightarrow> list_all name_char (cmd_name d)"
  using names_plain by (simp add: list_all_iff)

lemma lower_plain: "list_all name_char s \<Longrightarrow> map c_tolower s = s"
  by (induction s) (auto simp: tolower_name)

lemma take_is_prefix: "take (length w) s = w \<Longrightarrow> is_prefix w s"
  by (metis append_take_drop_id is_prefix_append)

lemma strncaseeq_plain:
  assumes "list_all name_char s" and "list_all name_char w" and "strncaseeq (length w) s w"
  shows "is_prefix w s"
proof -
  have "list_all name_char (take (length w) s)"
    using assms(1) by (auto simp: list_all_iff dest: in_set_takeD)
  with assms show ?thesis by (simp add: strncaseeq_def lower_plain take_is_prefix)
qed

lemma find_append: "find P (xs @ ys) = (case find P xs of None \<Rightarrow> find P ys | r \<Rightarrow> r)"
  by (induction xs) auto

lemma find_cmd_name:
  assumes "d \<in> set mp_cmds"
  shows "find_cmd (cmd_name d) = Some d"
proof -
  obtain xs ys where split: "mp_cmds = xs @ d # ys" using assms by (meson split_list)
  have "find (\<lambda>e. strncaseeq (length (cmd_name d)) (cmd_name e) (cmd_name d)) xs = None"
  proof (unfold find_None_iff, intro notI, elim exE conjE)
    fix e assume e: "e \<in> set xs" and eq: "strncaseeq (length (cmd_name d)) (cmd_name e) (cmd_name d)"
    have "e \<in> set mp_cmds" unfolding split using e by simp
    then have "is_prefix (cmd_name d) (cmd_name e)"
      using eq assms by (intro strncaseeq_plain cmd_name_chars)
    moreover have "\<not> is_prefix (cmd_name d) (cmd_name e)"
      using names_first e names_ok_split [of "[]" "map cmd_name xs" "cmd_name d" "map cmd_name ys"]
      unfolding split by simp
    ultimately show False by simp
  qed
  then show ?thesis by (simp add: find_cmd_def split find_append strncaseeq_def)
qed

lemma find_cmd_in: "find_cmd w = Some d \<Longrightarrow> d \<in> set mp_cmds \<and> strncaseeq (length w) (cmd_name d) w"
  unfolding find_cmd_def by (auto simp: find_Some_iff in_set_conv_nth)

lemma table_rows:
  assumes "d \<in> set mp_cmds"
  shows "cmd_name d \<noteq> []" and "cmd_nargs d \<le> length (cmd_args d)" and "length (cmd_args d) < MP_CMD_MAX_ARGS"
proof -
  have "list_all (\<lambda>d. cmd_name d \<noteq> [] \<and> cmd_nargs d \<le> length (cmd_args d)
      \<and> length (cmd_args d) < MP_CMD_MAX_ARGS) mp_cmds"
    by code_simp
  with assms show "cmd_name d \<noteq> []" and "cmd_nargs d \<le> length (cmd_args d)"
    and "length (cmd_args d) < MP_CMD_MAX_ARGS"
    by (simp_all add: list_all_iff)
qed

subsection \<open>The types of the arguments\<close>

lemma same_type_value: "cmd_arg_value d p = (v, r) \<Longrightarrow> same_type v d"
  by (cases d) (auto simp: cmd_arg_value_def split: prod.splits)

lemma args_loop_types:
  "cmd_args_loop room defs ptr = (vs, n) \<Longrightarrow>
   list_all2 same_type vs (take (length vs) defs) \<and> length vs \<le> length defs \<and> length vs \<le> n
   \<and> (n = length vs \<or> length vs = length defs)"
proof (induction room arbitrary: defs ptr vs n)
  case 0
  then show ?case by simp
next
  case (Suc room)
  define p where "p = dropWhile blank (dropWhile (\<lambda>c. \<not> blank c) ptr)"
  show ?case
  proof (cases defs)
    case Nil
    with Suc.prems show ?thesis by (auto simp: Let_def split: if_splits)
  next
    case (Cons d ds)
    consider "(vs, n) = ([], 0)" | v where "cmd_arg_value d p = (v, None)" "(vs, n) = ([v], 1)"
      | v rest ws m where "cmd_arg_value d p = (v, Some rest)" "cmd_args_loop room ds rest = (ws, m)"
          "(vs, n) = (v # ws, Suc m)"
      using Suc.prems Cons by (auto simp: Let_def p_def split: if_splits prod.splits option.splits)
    then show ?thesis
    proof cases
      case 3
      then show ?thesis using Suc.IH [OF 3(2)] Cons by (auto simp: same_type_value)
    qed (use Cons in \<open>auto simp: same_type_value\<close>)
  qed
qed

lemma same_type_refl [simp]: "same_type d d" by (cases d) auto

lemma args_loop_full:
  assumes "cmd_args_loop room defs ptr = (vs, n)"
  shows "list_all2 same_type (vs @ drop n defs) defs"
proof -
  have t: "list_all2 same_type vs (take (length vs) defs)" "length vs \<le> length defs" "length vs \<le> n"
    "n = length vs \<or> length vs = length defs"
    using args_loop_types [OF assms] by auto
  then have d: "drop n defs = drop (length vs) defs" by auto
  have "list_all2 same_type (vs @ drop (length vs) defs) (take (length vs) defs @ drop (length vs) defs)"
    using t by (intro list_all2_appendI) (auto simp: list_all2_refl)
  then show ?thesis by (simp add: d)
qed

subsection \<open>Writing a command\<close>

definition show_float :: "c_float \<Rightarrow> string" where
  "show_float f = show_int (fst f) @ ''e'' @ show_int (snd f)"

definition escape :: "string \<Rightarrow> string" where
  "escape s = concat (map (\<lambda>c. if c = backslash \<or> c = quote then [backslash, c] else [c]) s)"

definition show_arg :: "cmd_arg \<Rightarrow> string" where
  "show_arg a = (case a of Arg_int w \<Rightarrow> show_int (sint w) | Arg_float f \<Rightarrow> show_float f
     | Arg_string None \<Rightarrow> [] | Arg_string (Some s) \<Rightarrow> quote # escape s @ [quote])"

text \<open>A string that ends in a backslash cannot be quoted: the closing quote would be skipped.\<close>

definition quotable :: "cmd_arg \<Rightarrow> bool" where
  "quotable a = (case a of Arg_string None \<Rightarrow> False
     | Arg_string (Some s) \<Rightarrow> s = [] \<or> last s \<noteq> backslash | _ \<Rightarrow> True)"

definition show_args :: "cmd_arg list \<Rightarrow> string" where
  "show_args as = concat (map (\<lambda>a. CHR '' '' # show_arg a) as)"

definition show_cmd :: "string \<Rightarrow> cmd_arg list \<Rightarrow> string" where
  "show_cmd name as = name @ show_args as"

lemma show_args_simps [simp]:
  "show_args [] = []" "show_args (a # as) = CHR '' '' # show_arg a @ show_args as"
  by (simp_all add: show_args_def)

subsection \<open>Reading numbers back\<close>

definition number_end :: "string \<Rightarrow> bool" where
  "number_end s \<longleftrightarrow> s = [] \<or> \<not> c_isdigit (hd s)"

lemma number_end_simps [simp]: "number_end []" "number_end (c # s) \<longleftrightarrow> \<not> c_isdigit c"
  by (auto simp: number_end_def)

lemma read_show_nat_end: "number_end rest \<Longrightarrow> read_digits (show_nat n @ rest) 0 = n"
  by (simp add: read_digits_append show_nat_digits read_show_nat read_digits_stop number_end_def)

lemma show_nat_Cons: obtains c r where "show_nat n = c # r" and "c_isdigit c"
  using show_nat_nonempty [of n] show_nat_digits [of n] by (cases "show_nat n") auto

lemma takeWhile_show_nat:
  assumes "number_end rest"
  shows "takeWhile c_isdigit (show_nat n @ rest) = show_nat n"
    and "dropWhile c_isdigit (show_nat n @ rest) = rest"
  using assms show_nat_digits [of n]
  by (auto simp: takeWhile_append dropWhile_append number_end_def takeWhile_eq_Nil_iff dropWhile_eq_self_iff)

lemma digits_minus: "c_isspace CHR ''-'' = False"
  by (simp add: c_isspace_def in_range_def)

lemma long_value_show_int:
  assumes "number_end rest"
  shows "long_value (show_int i @ rest) = i"
proof (cases "i < 0")
  case True
  with assms show ?thesis by (simp add: long_value_def show_int_def digits_minus read_show_nat_end)
next
  case False
  obtain c r where cr: "show_nat (nat i) = c # r" and c: "c_isdigit c" using show_nat_Cons .
  have "read_digits (c # r @ rest) 0 = nat i"
    using read_show_nat_end [OF assms, of "nat i"] cr by simp
  with False cr digit_not_space [OF c] show ?thesis
    by (simp add: long_value_def show_int_def)
qed

lemma atoi_long_value: "atoi s = word_of_int (clamp_long (long_value s))"
proof -
  have "clamp_long 0 = 0" by (simp add: clamp_long_def)
  then show ?thesis
    by (simp add: atoi_def long_value_def del: dropWhile_eq_Nil_conv split: list.split)
qed

lemma atoi_show_sint:
  assumes "number_end rest"
  shows "atoi (show_int (sint (w :: c_int)) @ rest) = w"
    and "\<not> atoi_erange (show_int (sint w) @ rest)"
proof -
  have "- (2 ^ 31) \<le> sint w" "sint w < 2 ^ 31"
    using sint_ge [of w] sint_lt [of w] by simp_all
  then have "clamp_long (sint w) = sint w" by (simp add: clamp_long_def)
  then show "atoi (show_int (sint w) @ rest) = w" and "\<not> atoi_erange (show_int (sint w) @ rest)"
    by (simp_all add: atoi_long_value atoi_erange_def long_value_show_int assms)
qed

lemma exp_part_show_int:
  assumes "number_end rest"
  shows "exp_part (CHR ''e'' # show_int i @ rest) = i"
proof (cases "i < 0")
  case True
  with assms show ?thesis by (simp add: exp_part_def show_int_def read_show_nat_end)
next
  case False
  obtain c r where cr: "show_nat (nat i) = c # r" and c: "c_isdigit c" using show_nat_Cons .
  have "read_digits (c # r @ rest) 0 = nat i"
    using read_show_nat_end [OF assms, of "nat i"] cr by simp
  with False cr digit_not_space [OF c] show ?thesis by (simp add: exp_part_def show_int_def)
qed

lemma unsigned_float_show:
  assumes "number_end rest"
  shows "unsigned_float (show_nat n @ CHR ''e'' # show_int e @ rest) = (int n, e)"
proof -
  have ne: "number_end (CHR ''e'' # show_int e @ rest)" by (simp add: c_isdigit_def in_range_def)
  show ?thesis
    using assms by (simp add: unsigned_float_def takeWhile_show_nat [OF ne] Let_def show_nat_nonempty
      read_show_nat exp_part_show_int)
qed

lemma atof_show_float:
  assumes "number_end rest"
  shows "atof (show_float f @ rest) = f"
proof (cases "fst f < 0")
  case True
  with assms show ?thesis
    by (simp add: atof_def show_float_def show_int_def [of "fst f"] digits_minus unsigned_float_show
      prod_eq_iff)
next
  case False
  obtain c r where cr: "show_nat (nat (fst f)) = c # r" and c: "c_isdigit c" using show_nat_Cons .
  have "unsigned_float (c # r @ CHR ''e'' # show_int (snd f) @ rest) = f"
    using unsigned_float_show [OF assms, of "nat (fst f)" "snd f"] cr False by (cases f) simp
  with False cr digit_not_space [OF c] show ?thesis
    by (simp add: atof_def show_float_def show_int_def [of "fst f"])
qed

subsection \<open>Reading strings back\<close>

lemma escape_simps [simp]:
  "escape [] = []"
  "escape (c # s) = (if c = backslash \<or> c = quote then [backslash, c] else [c]) @ escape s"
  by (simp_all add: escape_def)

lemma arg_end_escape:
  assumes "s = [] \<longrightarrow> \<not> esc" and "s \<noteq> [] \<longrightarrow> last s \<noteq> backslash"
  shows "arg_end quote (escape s @ quote # rest) esc = Some (length (escape s))"
  using assms
proof (induction s arbitrary: esc)
  case Nil
  then show ?case by simp
next
  case (Cons c s)
  show ?case
  proof (cases "c = quote")
    case True
    have "arg_end quote (escape s @ quote # rest) False = Some (length (escape s))"
      using Cons.prems True by (intro Cons.IH) auto
    with True show ?thesis by simp
  next
    case False
    have "arg_end quote (escape s @ quote # rest) (c = backslash) = Some (length (escape s))"
      using Cons.prems by (intro Cons.IH) auto
    with False show ?thesis by (cases "c = backslash") simp_all
  qed
qed

lemma unescape_escape [simp]: "unescape (escape s) = s"
  by (induction s) auto

lemma string_arg_quoted:
  assumes "s = [] \<or> last s \<noteq> backslash"
  shows "string_arg (quote # escape s @ quote # rest) = (Some s, Some rest)"
proof -
  have "arg_end quote (escape s @ quote # rest) False = Some (length (escape s))"
    using assms by (intro arg_end_escape) auto
  then show ?thesis by (simp add: string_arg_def)
qed

subsection \<open>The round trip\<close>

lemma blank_simps: "blank CHR '' ''" "\<not> blank CHR ''-''" "\<not> blank CHR ''e''" "\<not> blank quote"
  by (simp_all add: blank_def)

lemma digit_not_blank: "c_isdigit c \<Longrightarrow> \<not> blank c \<and> c \<noteq> CHR ''#''"
  by (auto simp: c_isdigit_def blank_def in_range_def)

lemma show_nat_word: "c \<in> set (show_nat n) \<Longrightarrow> \<not> blank c \<and> c \<noteq> CHR ''#''"
  using show_nat_digits digit_not_blank by blast

lemma show_int_word: "c \<in> set (show_int i) \<Longrightarrow> \<not> blank c \<and> c \<noteq> CHR ''#''"
  by (auto simp: show_int_def blank_simps dest: show_nat_word split: if_splits)

lemma show_float_word: "c \<in> set (show_float f) \<Longrightarrow> \<not> blank c \<and> c \<noteq> CHR ''#''"
  by (auto simp: show_float_def blank_simps dest: show_int_word)

lemma show_int_nonempty: "show_int i \<noteq> []"
  by (simp add: show_int_def show_nat_nonempty)

text \<open>What the parser needs to know of a written argument: it starts a word, it reads back, and it leaves the
  parser in the word or just behind it.\<close>

lemma arg_reads_back:
  assumes "same_type a d" and "quotable a" and "rest = [] \<or> hd rest = CHR '' ''"
  obtains w where "cmd_arg_value d (show_arg a @ rest) = (a, Some (w @ rest))"
    and "\<forall>c \<in> set w. \<not> blank c" and "show_arg a \<noteq> []"
    and "\<not> blank (hd (show_arg a))" and "hd (show_arg a) \<noteq> CHR ''#''"
proof -
  have ne: "number_end rest" using assms(3) by (cases rest) (auto simp: c_isdigit_def in_range_def)
  show thesis
  proof (cases a)
    case (Arg_int w)
    with assms(1) obtain x where d: "d = Arg_int x" by (cases d) auto
    have "\<forall>c \<in> set (show_int (sint w)). \<not> blank c \<and> c \<noteq> CHR ''#''" using show_int_word by blast
    then show thesis
      using Arg_int d that [of "show_int (sint w)"] show_int_nonempty [of "sint w"]
      by (simp add: show_arg_def cmd_arg_value_def atoi_show_sint [OF ne])
  next
    case (Arg_float f)
    with assms(1) obtain x where d: "d = Arg_float x" by (cases d) auto
    have "\<forall>c \<in> set (show_float f). \<not> blank c \<and> c \<noteq> CHR ''#''" using show_float_word by blast
    moreover have "show_float f \<noteq> []" by (simp add: show_float_def show_int_nonempty)
    ultimately show thesis
      using Arg_float d that [of "show_float f"]
      by (simp add: show_arg_def cmd_arg_value_def atof_show_float [OF ne])
  next
    case (Arg_string v)
    with assms(1) obtain x where d: "d = Arg_string x" by (cases d) auto
    from Arg_string assms(2) obtain s where s: "v = Some s" "s = [] \<or> last s \<noteq> backslash"
      by (auto simp: quotable_def split: option.splits)
    show thesis
      using Arg_string d s that [of "[]"]
      by (simp add: show_arg_def cmd_arg_value_def string_arg_quoted blank_simps)
  qed
qed

lemma show_args_start: "show_args as = [] \<or> hd (show_args as) = CHR '' ''"
  by (cases as) simp_all

lemma dropWhile_word: "\<forall>c \<in> set w. \<not> P c \<Longrightarrow> rest = [] \<or> P (hd rest) \<Longrightarrow> dropWhile (\<lambda>c. \<not> P c) (w @ rest) = rest"
  by (induction w) (auto simp: dropWhile_eq_self_iff)

lemma takeWhile_word: "\<forall>c \<in> set w. \<not> P c \<Longrightarrow> rest = [] \<or> P (hd rest) \<Longrightarrow> takeWhile (\<lambda>c. \<not> P c) (w @ rest) = w"
  by (induction w) (auto simp: takeWhile_eq_Nil_iff)

lemma args_loop_round_trip:
  assumes "list_all2 same_type as ds" and "list_all quotable as"
    and "\<forall>c \<in> set w. \<not> blank c" and "length as \<le> room"
  shows "cmd_args_loop room (ds @ es) (w @ show_args as) = (as, length as)"
  using assms
proof (induction as ds arbitrary: w room rule: list_all2_induct)
  case Nil
  then have "dropWhile (\<lambda>c. \<not> blank c) w = []" by simp
  then show ?case by (cases room) (simp_all add: Let_def del: dropWhile_eq_Nil_conv)
next
  case (Cons a as d ds)
  obtain m where room: "room = Suc m" using Cons.prems by (cases room) auto
  from Cons.hyps Cons.prems obtain v
    where v: "cmd_arg_value d (show_arg a @ show_args as) = (a, Some (v @ show_args as))"
      "\<forall>c \<in> set v. \<not> blank c" "show_arg a \<noteq> []" "\<not> blank (hd (show_arg a))" "hd (show_arg a) \<noteq> CHR ''#''"
    using arg_reads_back [OF _ _ show_args_start [of as], of a d] by auto
  obtain h t where ht: "show_arg a = h # t" using v(3) by (cases "show_arg a") auto
  have "dropWhile (\<lambda>c. \<not> blank c) (w @ show_args (a # as)) = show_args (a # as)"
    using Cons.prems by (intro dropWhile_word) (simp_all add: blank_simps)
  moreover have "cmd_args_loop m (ds @ es) (v @ show_args as) = (as, length as)"
    using Cons v(2) room by simp
  ultimately show ?case
    using v ht room by (simp add: blank_simps)
qed

lemma prefix_in_word:
  assumes "is_prefix (p @ q) (w @ rest)" and "CHR '' '' \<notin> set p" and "rest = [] \<or> hd rest = CHR '' ''"
  shows "is_prefix p w"
  using assms
proof (induction p w rule: is_prefix.induct)
  case (3 p ps)
  then show ?case by (cases rest) auto
qed auto

lemma pausing_prefix_name:
  assumes "\<not> is_prefix ''pausing'' w" and "rest = [] \<or> hd rest = CHR '' ''"
  shows "pausing_prefix (w @ rest) = (- 1, w @ rest)"
proof -
  have "\<not> is_prefix (''pausing'' @ p) (w @ rest)" for p
    using assms prefix_in_word [of "''pausing''" p w rest] by auto
  from this [of "'' ''"] this [of "''_keep ''"] this [of "''_toggle ''"] this [of "''_keep_force ''"]
  show ?thesis by (simp add: pausing_prefix_def)
qed

lemma names_not_pausing: "list_all (\<lambda>n. \<not> is_prefix ''pausing'' n) (map cmd_name mp_cmds)"
  unfolding cmd_names by code_simp

lemma parse_name:
  assumes d: "d \<in> set mp_cmds" and rest: "rest = [] \<or> hd rest = CHR '' ''"
  shows "mp_input_parse_cmd pd (cmd_name d @ rest) =
    (case cmd_args_loop MP_CMD_MAX_ARGS (cmd_args d) (cmd_name d @ rest) of (vs, n) \<Rightarrow>
       if cmd_nargs d > n then None
       else Some \<lparr>cmd_id = cmd_id d, cmd_name = cmd_name d, cmd_nargs = n,
                  cmd_args = vs @ drop n (cmd_args d),
                  cmd_pausing = default_pausing pd (cmd_id d)\<rparr>)"
proof -
  have word: "\<forall>c \<in> set (cmd_name d). \<not> blank c"
    using cmd_name_chars [OF d] by (auto simp: list_all_iff name_char_not_blank)
  have ne: "cmd_name d \<noteq> []" using d by (rule table_rows)
  have "dropWhile blank (cmd_name d @ rest) = cmd_name d @ rest"
    using ne word by (cases "cmd_name d") auto
  moreover have "\<not> is_prefix ''pausing'' (cmd_name d)"
    using names_not_pausing d by (auto simp: list_all_iff)
  moreover have "takeWhile (\<lambda>c. \<not> blank c) (cmd_name d @ rest) = cmd_name d"
    using word rest by (intro takeWhile_word) (auto simp: blank_simps)
  ultimately show ?thesis
    using rest ne by (simp add: mp_input_parse_cmd_def Let_def pausing_prefix_name find_cmd_name d)
qed

lemma parse_show_cmd:
  assumes d: "d \<in> set mp_cmds" and min: "cmd_nargs d \<le> length as"
    and types: "list_all2 same_type as (take (length as) (cmd_args d))" and q: "list_all quotable as"
  shows "mp_input_parse_cmd pd (show_cmd (cmd_name d) as) =
    Some \<lparr>cmd_id = cmd_id d, cmd_name = cmd_name d, cmd_nargs = length as,
          cmd_args = as @ drop (length as) (cmd_args d), cmd_pausing = default_pausing pd (cmd_id d)\<rparr>"
proof -
  have word: "\<forall>c \<in> set (cmd_name d). \<not> blank c"
    using cmd_name_chars [OF d] by (auto simp: list_all_iff name_char_not_blank)
  have "length as \<le> length (cmd_args d)" using list_all2_lengthD [OF types] by simp
  then have "length as \<le> MP_CMD_MAX_ARGS" using table_rows(3) [OF d] by simp
  then have "cmd_args_loop MP_CMD_MAX_ARGS (take (length as) (cmd_args d) @ drop (length as) (cmd_args d))
      (cmd_name d @ show_args as) = (as, length as)"
    using types q word by (intro args_loop_round_trip)
  with min show ?thesis
    by (simp add: show_cmd_def parse_name [OF d show_args_start])
qed

end
