(* ===== verification/Input_Keys.thy ===== *)
theory Input_Keys
  imports Input_Cmd Key_Fifo
begin

text \<open>
  Keys and their bindings (\<^verbatim>\<open>input/input.c\<close>): the default bindings, the state machine
  \<^verbatim>\<open>interpret_key\<close> that follows which keys are down and turns the release of a key into the command
  bound to the combination, and the automatic repetition of a key that stays down.
\<close>

subsection \<open>Bindings\<close>

text \<open>
  The array \<^verbatim>\<open>input\<close> of a binding is the list of its key codes before the terminating 0. Key codes
  are written as numbers, the values of the enumeration in \<^verbatim>\<open>osdep/keycodes.h\<close> and of the
  \<^verbatim>\<open>MOUSE\<close>, \<^verbatim>\<open>JOY\<close> and \<^verbatim>\<open>AR\<close> macros.
\<close>

record mp_cmd_bind =
  bind_input :: "c_int list"
  bind_cmd :: string

definition bind :: "c_int \<Rightarrow> string \<Rightarrow> mp_cmd_bind" where
  "bind key cmd = \<lparr>bind_input = [key], bind_cmd = cmd\<rparr>"

definition def_cmd_binds :: "mp_cmd_bind list" where
  "def_cmd_binds = [
  bind 16777264 ''ignore'',
  bind 268435971 ''seek 10'',
  bind 268435972 ''seek -10'',
  bind 268435973 ''volume 1'',
  bind 268435974 ''volume -1'',
  bind 16777256 ''dvdnav up'',
  bind 16777250 ''dvdnav down'',
  bind 16777252 ''dvdnav left'',
  bind 16777254 ''dvdnav right'',
  bind 16777253 ''dvdnav menu'',
  bind 16777261 ''dvdnav select'',
  bind 268435968 ''dvdnav mouse'',
  bind 16777255 ''dvdnav prev'',
  bind 16777232 ''seek 10'',
  bind 16777233 ''seek -10'',
  bind 16777235 ''seek 60'',
  bind 16777234 ''seek -60'',
  bind 16777219 ''seek 600'',
  bind 16777220 ''seek -600'',
  bind 43 ''audio_delay 0.100'',
  bind 45 ''audio_delay -0.100'',
  bind 91 ''speed_mult 0.9091'',
  bind 93 ''speed_mult 1.1'',
  bind 123 ''speed_mult 0.5'',
  bind 125 ''speed_mult 2.0'',
  bind 8 ''speed_set 1.0'',
  bind 113 ''quit'',
  bind 27 ''quit'',
  bind 112 ''pause'',
  bind 32 ''pause_space'',
  bind 46 ''frame_step'',
  bind 16777217 ''pt_up_step 1'',
  bind 16777218 ''pt_up_step -1'',
  bind 62 ''pt_step 1'',
  bind 13 ''vo_fullscreen'',
  bind 60 ''pt_step -1'',
  bind 16777216 ''alt_src_step 1'',
  bind 127 ''alt_src_step -1'',
  bind 111 ''osd'',
  bind 73 (''osd_show_property_text '' @ [quote] @ ''${filename}'' @ [quote]),
  bind 80 ''osd_show_progression'',
  bind 122 ''sub_delay -0.1'',
  bind 120 ''sub_delay +0.1'',
  bind 103 ''sub_step -1'',
  bind 121 ''sub_step +1'',
  bind 57 ''volume -1'',
  bind 47 ''volume -1'',
  bind 48 ''volume 1'',
  bind 42 ''volume 1'',
  bind 40 ''balance -0.1'',
  bind 41 ''balance 0.1'',
  bind 109 ''mute'',
  bind 49 ''contrast -1'',
  bind 50 ''contrast 1'',
  bind 51 ''brightness -1'',
  bind 52 ''brightness 1'',
  bind 53 ''hue -1'',
  bind 54 ''hue 1'',
  bind 55 ''saturation -1'',
  bind 56 ''saturation 1'',
  bind 100 ''frame_drop'',
  bind 68 ''step_property deinterlace'',
  bind 114 ''sub_pos -1'',
  bind 116 ''sub_pos +1'',
  bind 97 ''sub_alignment'',
  bind 118 ''sub_visibility'',
  bind 106 ''sub_select'',
  bind 74 ''sub_select -3'',
  bind 70 ''forced_subs_only'',
  bind 35 ''switch_audio'',
  bind 95 ''step_property switch_video'',
  bind 9 ''step_property switch_program'',
  bind 105 ''edl_mark'',
  bind 104 ''tv_step_channel 1'',
  bind 107 ''tv_step_channel -1'',
  bind 110 ''tv_step_norm'',
  bind 117 ''tv_step_chanlist'',
  bind 88 ''step_property teletext_mode 1'',
  bind 87 ''step_property teletext_page 1'',
  bind 81 ''step_property teletext_page -1'',
  bind 384 ''seek 10'',
  bind 385 ''seek -10'',
  bind 387 ''seek 60'',
  bind 386 ''seek -60'',
  bind 268435860 ''pause'',
  bind 268435861 ''osd'',
  bind 268435862 ''volume 1'',
  bind 268435863 ''volume -1'',
  bind 1280 ''pause'',
  bind 1281 ''quit'',
  bind 1282 ''seek 30'',
  bind 1283 ''seek 120'',
  bind 1284 ''seek -10'',
  bind 1285 ''seek -120'',
  bind 1286 ''osd'',
  bind 1287 ''mute'',
  bind 1288 ''volume 1'',
  bind 1289 ''volume -1'',
  bind 84 ''vo_ontop'',
  bind 102 ''vo_fullscreen'',
  bind 99 ''capturing'',
  bind 115 ''screenshot 0'',
  bind 83 ''screenshot 1'',
  bind 119 ''panscan -0.1'',
  bind 101 ''panscan +0.1'',
  bind 16777600 ''quit'',
  bind 16777601 ''osd'',
  bind 16777602 ''pause'',
  bind 16777603 ''pause'',
  bind 16777604 ''pause'',
  bind 16777605 ''quit'',
  bind 16777606 ''seek 60'',
  bind 16777607 ''seek -60'',
  bind 16777608 ''pt_step 1'',
  bind 16777609 ''pt_step -1'',
  bind 16777610 ''volume 1'',
  bind 16777611 ''volume -1'',
  bind 16777612 ''mute'',
  bind 16781312 ''quit'',
  bind 33 ''seek_chapter -1'',
  bind 64 ''seek_chapter 1'',
  bind 65 ''switch_angle 1'',
  bind 85 ''stop'']"

definition mp_input_find_bind_for_key :: "mp_cmd_bind list \<Rightarrow> c_int list \<Rightarrow> string option" where
  "mp_input_find_bind_for_key binds keys =
     (if keys = [] then None else map_option bind_cmd (find (\<lambda>b. bind_input b = keys) binds))"

subsection \<open>State\<close>

definition MP_MAX_KEY_DOWN :: nat where "MP_MAX_KEY_DOWN = 8"

text \<open>
  The static variables of the key machine. \<open>key_down\<close> holds the first \<^verbatim>\<open>num_key_down\<close> elements
  of the array of that name; no other element is read. \<open>mp_input_key_cb\<close> is the hook of the
  on-screen menu, a parameter: it says whether it took the key.
\<close>

record key_state =
  key_down :: "c_int list"
  last_key_down :: u32
  ar_state :: int
  ar_cmd :: "mp_cmd option"
  ar_delay :: u32
  ar_rate :: u32
  last_ar :: u32
  cmd_binds :: "mp_cmd_bind list option"
  cmd_binds_default :: "mp_cmd_bind list option"
  default_bindings :: bool
  pausing_default :: int
  mp_input_key_cb :: "(c_int \<Rightarrow> bool) option"

definition first_some :: "'a option \<Rightarrow> 'a option \<Rightarrow> 'a option" where
  "first_some a b = (case a of None \<Rightarrow> b | Some x \<Rightarrow> Some x)"

definition bound_cmd :: "key_state \<Rightarrow> c_int list \<Rightarrow> string option" where
  "bound_cmd s keys =
     (let look = (\<lambda>b. case b of None \<Rightarrow> None | Some l \<Rightarrow> mp_input_find_bind_for_key l keys)
      in first_some (look (cmd_binds s)) (first_some (look (cmd_binds_default s))
           (if default_bindings s then mp_input_find_bind_for_key def_cmd_binds keys else None)))"

definition mp_input_get_cmd_from_keys :: "key_state \<Rightarrow> c_int list \<Rightarrow> mp_cmd option" where
  "mp_input_get_cmd_from_keys s keys = (case bound_cmd s keys of
       None \<Rightarrow> None
     | Some cmd \<Rightarrow> if cmd = ''ignore'' then None else mp_input_parse_cmd (pausing_default s) cmd)"

subsection \<open>The key machine\<close>

text \<open>
  The answer of \<^verbatim>\<open>interpret_key\<close> is the command, if any, with the new state; it is
  \<^term>\<open>None\<close> where the code writes behind the end of the array \<^verbatim>\<open>key_down\<close>. \<open>now\<close> is the value of
  \<^verbatim>\<open>GetTimer()\<close>.
\<close>

definition key_press :: "u32 \<Rightarrow> c_int \<Rightarrow> key_state \<Rightarrow> (mp_cmd option \<times> key_state) option" where
  "key_press now code s =
     (if length (key_down s) > MP_MAX_KEY_DOWN then Some (None, s)
      else if code \<in> set (key_down s) then Some (None, s)
      else if length (key_down s) = MP_MAX_KEY_DOWN then None
      else Some (None, s\<lparr>key_down := key_down s @ [code], last_key_down := now, ar_state := 0\<rparr>))"

definition key_release :: "c_int \<Rightarrow> key_state \<Rightarrow> mp_cmd option \<times> key_state" where
  "key_release code s =
     (if code \<notin> set (key_down s) \<and> length (key_down s) \<ge> MP_MAX_KEY_DOWN then (None, s)
      else
        let t = (if code \<in> set (key_down s) then s
                 else s\<lparr>key_down := key_down s @ [code], last_key_down := 1\<rparr>);
            ret = (if last_key_down t \<noteq> 0 then mp_input_get_cmd_from_keys t (key_down t) else None)
        in (ret, t\<lparr>key_down := remove1 code (key_down t), last_key_down := 0,
                   ar_state := - 1, ar_cmd := None\<rparr>))"

definition key_event :: "u32 \<Rightarrow> c_int \<Rightarrow> key_state \<Rightarrow> (mp_cmd option \<times> key_state) option" where
  "key_event now code s =
     (if code AND MP_KEY_DOWN \<noteq> 0 then key_press now (code AND NOT MP_KEY_DOWN) s
      else Some (key_release code s))"

definition interpret_key :: "u32 \<Rightarrow> c_int \<Rightarrow> key_state \<Rightarrow> (mp_cmd option \<times> key_state) option" where
  "interpret_key now code0 s0 =
     (let all = (code0 AND MP_KEY_RELEASE_ALL \<noteq> 0);
          code = (if all then code0 AND NOT MP_KEY_RELEASE_ALL else code0);
          s = (if all then s0\<lparr>key_down := [], last_key_down := 0\<rparr> else s0)
      in if all \<and> code = 0 then Some (None, s)
         else case mp_input_key_cb s of
           None \<Rightarrow> key_event now code s
         | Some cb \<Rightarrow>
             if code AND MP_KEY_DOWN \<noteq> 0 then Some (None, s)
             else let key = code AND NOT (MP_KEY_DOWN OR MP_NO_REPEAT_KEY)
                  in if cb key then Some (None, s) else key_event now key s)"

text \<open>
  The unsigned arithmetic of the repetition wraps as in the code. A copy made by
  \<^verbatim>\<open>mp_cmd_clone\<close> has the same value as the command.
\<close>

definition mp_cmd_clone :: "mp_cmd \<Rightarrow> mp_cmd" where
  "mp_cmd_clone c = c"

definition check_autorepeat :: "u32 \<Rightarrow> key_state \<Rightarrow> mp_cmd option \<times> key_state" where
  "check_autorepeat t s =
     (if ar_rate s \<noteq> 0 \<and> ar_state s \<ge> 0 \<and> key_down s \<noteq> []
         \<and> last (key_down s) AND MP_NO_REPEAT_KEY = 0
      then if ar_state s = 0 \<and> t - last_key_down s \<ge> ar_delay s * 1000 then
             (case mp_input_get_cmd_from_keys s (key_down s) of
                None \<Rightarrow> (None, s\<lparr>ar_cmd := None, ar_state := - 1\<rparr>)
              | Some c \<Rightarrow> (Some (mp_cmd_clone c), s\<lparr>ar_cmd := Some c, ar_state := 1, last_ar := t\<rparr>))
           else if ar_state s = 1 \<and> t - last_ar s \<ge> 1000000 div ar_rate s then
             (map_option mp_cmd_clone (ar_cmd s), s\<lparr>last_ar := t\<rparr>)
           else (None, s)
      else (None, s))"

subsection \<open>Runs of key events\<close>

text \<open>A run hands the codes to \<^verbatim>\<open>interpret_key\<close>, each with the time of the call, and collects the commands.\<close>

fun run_keys :: "(u32 \<times> c_int) list \<Rightarrow> key_state \<Rightarrow> (mp_cmd list \<times> key_state) option" where
  "run_keys [] s = Some ([], s)"
| "run_keys ((now, code) # es) s = (case interpret_key now code s of
     None \<Rightarrow> None
   | Some (c, t) \<Rightarrow> map_option (\<lambda>(cs, u). (case c of None \<Rightarrow> cs | Some x \<Rightarrow> x # cs, u)) (run_keys es t))"

lemma run_keys_append:
  "run_keys (es @ fs) s = (case run_keys es s of None \<Rightarrow> None
     | Some (cs, t) \<Rightarrow> map_option (\<lambda>(ds, u). (cs @ ds, u)) (run_keys fs t))"
  by (induction es arbitrary: s)
    (auto simp: option.map_comp o_def case_prod_beta map_option_case split: option.splits prod.splits)

text \<open>Codes of plain keys carry none of the flags of a press or of the release of all keys.\<close>

definition plain_key :: "c_int \<Rightarrow> bool" where
  "plain_key k \<longleftrightarrow> k AND MP_KEY_DOWN = 0 \<and> k AND MP_KEY_RELEASE_ALL = 0"

definition press :: "c_int \<Rightarrow> c_int" where
  "press k = k OR MP_KEY_DOWN"

lemma press_flags:
  assumes "plain_key k"
  shows "press k AND MP_KEY_RELEASE_ALL = 0" and "press k AND MP_KEY_DOWN \<noteq> 0"
    and "press k AND NOT MP_KEY_DOWN = k"
proof -
  have flags: "MP_KEY_DOWN AND MP_KEY_RELEASE_ALL = 0" "MP_KEY_DOWN \<noteq> 0"
    by (simp_all add: key_consts)
  show "press k AND MP_KEY_RELEASE_ALL = 0" and "press k AND MP_KEY_DOWN \<noteq> 0"
    using assms flags by (simp_all add: press_def plain_key_def bit.conj_disj_distrib2)
  have "k = k AND (MP_KEY_DOWN OR NOT MP_KEY_DOWN)" by simp
  also have "\<dots> = (k AND MP_KEY_DOWN) OR (k AND NOT MP_KEY_DOWN)" by (rule bit.conj_disj_distrib)
  also have "\<dots> = k AND NOT MP_KEY_DOWN" using assms by (simp add: plain_key_def)
  finally have "k AND NOT MP_KEY_DOWN = k" by simp
  then show "press k AND NOT MP_KEY_DOWN = k"
    by (simp add: press_def bit.conj_disj_distrib2)
qed

lemma interpret_press:
  assumes "plain_key k" and "mp_input_key_cb s = None"
  shows "interpret_key now (press k) s = key_press now k s"
  using assms press_flags [OF assms(1)] by (simp add: interpret_key_def key_event_def Let_def)

lemma interpret_release:
  assumes "plain_key k" and "mp_input_key_cb s = None"
  shows "interpret_key now k s = Some (key_release k s)"
  using assms by (simp add: interpret_key_def key_event_def plain_key_def Let_def)

subsection \<open>Pressing a combination\<close>

lemma run_presses:
  "list_all plain_key ks \<Longrightarrow> mp_input_key_cb s = None \<Longrightarrow> distinct (key_down s @ ks) \<Longrightarrow>
   length (key_down s @ ks) \<le> MP_MAX_KEY_DOWN \<Longrightarrow> length ts = length ks \<Longrightarrow>
   run_keys (zip ts (map press ks)) s =
     Some ([], if ks = [] then s
               else s\<lparr>key_down := key_down s @ ks, last_key_down := last ts, ar_state := 0\<rparr>)"
proof (induction ks arbitrary: s ts)
  case Nil
  then show ?case by simp
next
  case (Cons k ks)
  then obtain t us where ts: "ts = t # us" "length us = length ks" by (cases ts) auto
  let ?s = "s\<lparr>key_down := key_down s @ [k], last_key_down := t, ar_state := 0\<rparr>"
  have "interpret_key t (press k) s = Some (None, ?s)"
    using Cons.prems by (simp add: interpret_press key_press_def)
  moreover have "run_keys (zip us (map press ks)) ?s =
     Some ([], if ks = [] then ?s else ?s\<lparr>key_down := key_down ?s @ ks, last_key_down := last us, ar_state := 0\<rparr>)"
    using Cons.prems ts by (intro Cons.IH) auto
  ultimately show ?case using ts by (auto simp: last_ConsR)
qed

text \<open>The releases that follow the first one give nothing.\<close>

lemma run_releases:
  "list_all plain_key rs \<Longrightarrow> mp_input_key_cb s = None \<Longrightarrow> last_key_down s = 0 \<Longrightarrow> distinct rs \<Longrightarrow>
   set rs \<subseteq> set (key_down s) \<Longrightarrow> length ts = length rs \<Longrightarrow>
   \<exists>t. run_keys (zip ts rs) s = Some ([], t) \<and> key_down t = filter (\<lambda>k. k \<notin> set rs) (key_down s)
     \<and> mp_input_key_cb t = None \<and> last_key_down t = 0"
  if "distinct (key_down s)" for s
  using that
proof (induction rs arbitrary: s ts)
  case Nil
  then show ?case by simp
next
  case (Cons r rs)
  then obtain t us where ts: "ts = t # us" "length us = length rs" by (cases ts) auto
  let ?s = "s\<lparr>key_down := remove1 r (key_down s), last_key_down := 0, ar_state := - 1, ar_cmd := None\<rparr>"
  have step: "interpret_key t r s = Some (None, ?s)"
    using Cons.prems by (simp add: interpret_release key_release_def Let_def)
  have sub: "set rs \<subseteq> set (key_down ?s)" using Cons.prems by auto
  have "\<exists>u. run_keys (zip us rs) ?s = Some ([], u) \<and> key_down u = filter (\<lambda>k. k \<notin> set rs) (key_down ?s)
     \<and> mp_input_key_cb u = None \<and> last_key_down u = 0"
    using Cons.prems sub ts by (intro Cons.IH) simp_all
  then obtain u where u: "run_keys (zip us rs) ?s = Some ([], u)"
    "key_down u = filter (\<lambda>k. k \<notin> set rs) (key_down ?s)" "mp_input_key_cb u = None" "last_key_down u = 0"
    by blast
  have "filter (\<lambda>k. k \<notin> set rs) (key_down ?s) = filter (\<lambda>k. k \<notin> set (r # rs)) (key_down s)"
    using Cons.prems by (simp add: distinct_remove1_removeAll removeAll_filter_not_eq) (auto intro: filter_cong)
  with u step ts show ?case by simp
qed

lemma same_cmd:
  assumes "cmd_binds t = cmd_binds s" and "cmd_binds_default t = cmd_binds_default s"
    and "default_bindings t = default_bindings s" and "pausing_default t = pausing_default s"
  shows "mp_input_get_cmd_from_keys t ks = mp_input_get_cmd_from_keys s ks"
proof -
  have "bound_cmd t ks = bound_cmd s ks" using assms by (simp add: bound_cmd_def)
  with assms(4) show ?thesis by (simp add: mp_input_get_cmd_from_keys_def split: option.split)
qed

text \<open>
  The commands of a whole combination: its keys pressed one after the other, then released in any
  order.
\<close>

lemma run_combination:
  assumes keys: "list_all plain_key ks" "ks \<noteq> []" "distinct ks" "length ks \<le> MP_MAX_KEY_DOWN"
    and rs: "distinct rs" "set rs = set ks"
    and s: "key_down s = []" "mp_input_key_cb s = None"
    and ts: "length ts = length ks" "length us = length rs" "last ts \<noteq> 0"
  shows "\<exists>t. run_keys (zip ts (map press ks) @ zip us rs) s =
    Some (case mp_input_get_cmd_from_keys s ks of None \<Rightarrow> [] | Some c \<Rightarrow> [c], t) \<and> key_down t = []"
proof -
  let ?s = "s\<lparr>key_down := ks, last_key_down := last ts, ar_state := 0\<rparr>"
  have pressed: "run_keys (zip ts (map press ks)) s = Some ([], ?s)"
    using run_presses [of ks s ts] keys s ts by simp
  obtain r rs' where r: "rs = r # rs'" using rs(2) keys(2) by (cases rs) auto
  obtain u us' where u: "us = u # us'" "length us' = length rs'" using ts(2) r by (cases us) auto
  have rk: "r \<in> set ks" "plain_key r" "list_all plain_key rs'"
    using rs r keys(1) by (auto simp: list_all_iff)
  let ?t = "?s\<lparr>key_down := remove1 r ks, last_key_down := 0, ar_state := - 1, ar_cmd := None\<rparr>"
  have look: "mp_input_get_cmd_from_keys ?s ks = mp_input_get_cmd_from_keys s ks"
    by (rule same_cmd) simp_all
  have first: "interpret_key u r ?s = Some (mp_input_get_cmd_from_keys s ks, ?t)"
    using rk s ts(3) look by (simp add: interpret_release key_release_def Let_def)
  have "set rs' \<subseteq> set (key_down ?t)" using rs r keys(3) by auto
  then obtain w where w: "run_keys (zip us' rs') ?t = Some ([], w)"
    "key_down w = filter (\<lambda>k. k \<notin> set rs') (key_down ?t)"
    using run_releases [of ?t rs' us'] rk s rs r u keys(3) by auto
  have "key_down w = []" using w(2) rs r keys(3) by (auto simp: filter_empty_conv)
  then show ?thesis
    using pressed first w u r by (simp add: run_keys_append split: option.splits)
qed

subsection \<open>The bound of the array\<close>

definition key_inv :: "key_state \<Rightarrow> bool" where
  "key_inv s \<longleftrightarrow> distinct (key_down s) \<and> length (key_down s) \<le> MP_MAX_KEY_DOWN
     \<and> (ar_state s = 1 \<longrightarrow> ar_cmd s \<noteq> None)"

lemma key_release_inv: "key_inv s \<Longrightarrow> key_inv (snd (key_release code s))"
  by (auto simp: key_inv_def key_release_def Let_def length_remove1)

lemma key_press_inv: "key_inv s \<Longrightarrow> key_press now code s = Some (c, t) \<Longrightarrow> key_inv t"
  by (auto simp: key_inv_def key_press_def split: if_splits)

lemma interpret_key_inv:
  assumes "key_inv s" and "interpret_key now code s = Some (c, t)"
  shows "key_inv t"
proof -
  have "key_inv (s\<lparr>key_down := [], last_key_down := 0\<rparr>)" using assms(1) by (simp add: key_inv_def)
  moreover have "key_inv t" if "key_event now k u = Some (c, t)" "key_inv u" for k u
    using that key_release_inv [of u k] key_press_inv by (auto simp: key_event_def split: if_splits)
  ultimately show ?thesis
    using assms by (auto simp: interpret_key_def Let_def split: if_splits option.splits)
qed

lemma unflagged: "(x AND NOT MP_KEY_DOWN AND y) AND MP_KEY_DOWN = 0" for x y :: c_int
  by (rule bit_word_eqI) (simp add: bit_simps)

lemma interpret_key_overflow:
  assumes "key_inv s"
  shows "interpret_key now code s = None \<longleftrightarrow>
    code AND MP_KEY_DOWN \<noteq> 0 \<and> code AND MP_KEY_RELEASE_ALL = 0 \<and> mp_input_key_cb s = None
    \<and> length (key_down s) = MP_MAX_KEY_DOWN \<and> code AND NOT MP_KEY_DOWN \<notin> set (key_down s)"
  using assms by (auto simp: key_inv_def interpret_key_def key_event_def key_press_def Let_def MP_MAX_KEY_DOWN_def unflagged
      split: option.splits)

lemma check_autorepeat_inv: "key_inv s \<Longrightarrow> key_inv (snd (check_autorepeat t s))"
  by (auto simp: key_inv_def check_autorepeat_def split: option.splits)

end
