(* ===== verification/Input_Config.thy ===== *)
theory Input_Config
  imports Input_Keys
begin

text \<open>
  The names of the keys and the file \<^verbatim>\<open>input.conf\<close> (\<^verbatim>\<open>input/input.c\<close>): from a key to its name and
  back, combinations of keys, the sections of bindings, and \<^verbatim>\<open>mp_input_parse_config\<close>, which reads
  the file through a buffer of 256 bytes.
\<close>

subsection \<open>Key names\<close>

text \<open>The table \<^verbatim>\<open>key_names\<close>, with the key codes as numbers.\<close>

definition key_names :: "(c_int \<times> string) list" where
  "key_names = [
  (32, ''SPACE''),
  (35, ''SHARP''),
  (13, ''ENTER''),
  (9, ''TAB''),
  (16777264, ''CTRL''),
  (8, ''BS''),
  (127, ''DEL''),
  (16777216, ''INS''),
  (16777217, ''HOME''),
  (16777218, ''END''),
  (16777219, ''PGUP''),
  (16777220, ''PGDWN''),
  (27, ''ESC''),
  (16777232, ''RIGHT''),
  (16777233, ''LEFT''),
  (16777234, ''DOWN''),
  (16777235, ''UP''),
  (16777281, ''F1''),
  (16777282, ''F2''),
  (16777283, ''F3''),
  (16777284, ''F4''),
  (16777285, ''F5''),
  (16777286, ''F6''),
  (16777287, ''F7''),
  (16777288, ''F8''),
  (16777289, ''F9''),
  (16777290, ''F10''),
  (16777291, ''F11''),
  (16777292, ''F12''),
  (16777248, ''KP0''),
  (16777249, ''KP1''),
  (16777250, ''KP2''),
  (16777251, ''KP3''),
  (16777252, ''KP4''),
  (16777253, ''KP5''),
  (16777254, ''KP6''),
  (16777255, ''KP7''),
  (16777256, ''KP8''),
  (16777257, ''KP9''),
  (16777260, ''KP_DEL''),
  (16777258, ''KP_DEC''),
  (16777259, ''KP_INS''),
  (16777261, ''KP_ENTER''),
  (268435968, ''MOUSE_BTN0''),
  (268435969, ''MOUSE_BTN1''),
  (268435970, ''MOUSE_BTN2''),
  (268435971, ''MOUSE_BTN3''),
  (268435972, ''MOUSE_BTN4''),
  (268435973, ''MOUSE_BTN5''),
  (268435974, ''MOUSE_BTN6''),
  (268435975, ''MOUSE_BTN7''),
  (268435976, ''MOUSE_BTN8''),
  (268435977, ''MOUSE_BTN9''),
  (268435978, ''MOUSE_BTN10''),
  (268435979, ''MOUSE_BTN11''),
  (268435980, ''MOUSE_BTN12''),
  (268435981, ''MOUSE_BTN13''),
  (268435982, ''MOUSE_BTN14''),
  (268435983, ''MOUSE_BTN15''),
  (268435984, ''MOUSE_BTN16''),
  (268435985, ''MOUSE_BTN17''),
  (268435986, ''MOUSE_BTN18''),
  (268435987, ''MOUSE_BTN19''),
  (268436224, ''MOUSE_BTN0_DBL''),
  (268436225, ''MOUSE_BTN1_DBL''),
  (268436226, ''MOUSE_BTN2_DBL''),
  (268436227, ''MOUSE_BTN3_DBL''),
  (268436228, ''MOUSE_BTN4_DBL''),
  (268436229, ''MOUSE_BTN5_DBL''),
  (268436230, ''MOUSE_BTN6_DBL''),
  (268436231, ''MOUSE_BTN7_DBL''),
  (268436232, ''MOUSE_BTN8_DBL''),
  (268436233, ''MOUSE_BTN9_DBL''),
  (268436234, ''MOUSE_BTN10_DBL''),
  (268436235, ''MOUSE_BTN11_DBL''),
  (268436236, ''MOUSE_BTN12_DBL''),
  (268436237, ''MOUSE_BTN13_DBL''),
  (268436238, ''MOUSE_BTN14_DBL''),
  (268436239, ''MOUSE_BTN15_DBL''),
  (268436240, ''MOUSE_BTN16_DBL''),
  (268436241, ''MOUSE_BTN17_DBL''),
  (268436242, ''MOUSE_BTN18_DBL''),
  (268436243, ''MOUSE_BTN19_DBL''),
  (387, ''JOY_UP''),
  (386, ''JOY_DOWN''),
  (385, ''JOY_LEFT''),
  (384, ''JOY_RIGHT''),
  (384, ''JOY_AXIS0_PLUS''),
  (385, ''JOY_AXIS0_MINUS''),
  (386, ''JOY_AXIS1_PLUS''),
  (387, ''JOY_AXIS1_MINUS''),
  (388, ''JOY_AXIS2_PLUS''),
  (389, ''JOY_AXIS2_MINUS''),
  (390, ''JOY_AXIS3_PLUS''),
  (391, ''JOY_AXIS3_MINUS''),
  (392, ''JOY_AXIS4_PLUS''),
  (393, ''JOY_AXIS4_MINUS''),
  (394, ''JOY_AXIS5_PLUS''),
  (395, ''JOY_AXIS5_MINUS''),
  (396, ''JOY_AXIS6_PLUS''),
  (397, ''JOY_AXIS6_MINUS''),
  (398, ''JOY_AXIS7_PLUS''),
  (399, ''JOY_AXIS7_MINUS''),
  (400, ''JOY_AXIS8_PLUS''),
  (401, ''JOY_AXIS8_MINUS''),
  (402, ''JOY_AXIS9_PLUS''),
  (403, ''JOY_AXIS9_MINUS''),
  (268435860, ''JOY_BTN0''),
  (268435861, ''JOY_BTN1''),
  (268435862, ''JOY_BTN2''),
  (268435863, ''JOY_BTN3''),
  (268435864, ''JOY_BTN4''),
  (268435865, ''JOY_BTN5''),
  (268435866, ''JOY_BTN6''),
  (268435867, ''JOY_BTN7''),
  (268435868, ''JOY_BTN8''),
  (268435869, ''JOY_BTN9''),
  (1280, ''AR_PLAY''),
  (1281, ''AR_PLAY_HOLD''),
  (1282, ''AR_NEXT''),
  (1283, ''AR_NEXT_HOLD''),
  (1284, ''AR_PREV''),
  (1285, ''AR_PREV_HOLD''),
  (1286, ''AR_MENU''),
  (1287, ''AR_MENU_HOLD''),
  (1288, ''AR_VUP''),
  (1289, ''AR_VDOWN''),
  (16777600, ''POWER''),
  (16777601, ''MENU''),
  (16777602, ''PLAY''),
  (16777603, ''PAUSE''),
  (16777604, ''PLAYPAUSE''),
  (16777605, ''STOP''),
  (16777606, ''FORWARD''),
  (16777607, ''REWIND''),
  (16777608, ''NEXT''),
  (16777609, ''PREV''),
  (16777610, ''VOLUME_UP''),
  (16777611, ''VOLUME_DOWN''),
  (16777612, ''MUTE''),
  (16777603, ''XF86_PAUSE''),
  (16777605, ''XF86_STOP''),
  (16777609, ''XF86_PREV''),
  (16777608, ''XF86_NEXT''),
  (16781312, ''CLOSE_WIN'')]"

definition KEY_BASE :: u32 where "KEY_BASE = 0x1000000"

definition hex_digit :: "nat \<Rightarrow> char" where
  "hex_digit d = (if d < 10 then digit_char d else char_of (87 + d))"

fun show_hex :: "nat \<Rightarrow> string" where
  "show_hex n = (if n < 16 then [hex_digit n] else show_hex (n div 16) @ [hex_digit (n mod 16)])"

declare show_hex.simps [simp del]

text \<open>The format \<^verbatim>\<open>%#-8x\<close>: the prefix \<^verbatim>\<open>0x\<close> unless the value is 0, padded with blanks on the right.\<close>

definition show_key_hex :: "c_int \<Rightarrow> string" where
  "show_key_hex key =
     (let s = (if key = 0 then ''0'' else ''0x'' @ show_hex (unat key))
      in s @ replicate (8 - length s) (CHR '' ''))"

definition mp_input_get_key_name :: "c_int \<Rightarrow> string" where
  "mp_input_get_key_name key =
     (case map_of key_names key of
        Some n \<Rightarrow> n
      | None \<Rightarrow> if 32 \<le> sint key \<and> sint key < 127 then [char_of (unat key)] else show_key_hex key)"

definition hex_val :: "char \<Rightarrow> nat option" where
  "hex_val c = (if c_isdigit c then Some (digit_val c)
     else if in_range CHR ''a'' CHR ''f'' (c_tolower c) then Some (of_char (c_tolower c) - 87) else None)"

fun read_hex :: "string \<Rightarrow> nat \<Rightarrow> nat" where
  "read_hex [] acc = acc"
| "read_hex (c # s) acc = (case hex_val c of None \<Rightarrow> acc | Some d \<Rightarrow> read_hex s (16 * acc + d))"

text \<open>\<^verbatim>\<open>strtol(name, NULL, 16)\<close> on a text that begins with \<^verbatim>\<open>0x\<close>, cut down to an \<^verbatim>\<open>int\<close>.\<close>

definition strtol16 :: "string \<Rightarrow> c_int" where
  "strtol16 name = word_of_int (clamp_long (int (read_hex (drop 2 name) 0)))"

text \<open>
  \<^verbatim>\<open>GET_UTF8\<close> on the bytes of a string, whose terminating NUL is an invalid continuation.
\<close>

fun utf8_loop :: "u32 \<Rightarrow> u32 \<Rightarrow> string \<Rightarrow> (u32 \<times> string) option" where
  "utf8_loop v tp [] = (if v AND tp \<noteq> 0 then None else Some (v AND (push_bit 1 tp - 1), []))"
| "utf8_loop v tp (c # s) =
     (if v AND tp \<noteq> 0 then
        let tmp = of_char c - 128 in
        if drop_bit 6 tmp \<noteq> 0 then None else utf8_loop (push_bit 6 v + tmp) (push_bit 5 tp) s
      else Some (v AND (push_bit 1 tp - 1), c # s))"

definition get_utf8 :: "string \<Rightarrow> (u32 \<times> string) option" where
  "get_utf8 s = (case s of [] \<Rightarrow> None
     | c # r \<Rightarrow> let v = of_char c; tp = drop_bit 1 (v AND 128) in
         if v AND 0xC0 = 0x80 \<or> v \<ge> 0xFE then None else utf8_loop v tp r)"

text \<open>
  The empty name stands for a text that goes on behind its NUL, which is how the one caller in this
  file passes it: the code then looks at that next byte and fails.
\<close>

definition mp_input_get_key_from_name :: "string \<Rightarrow> c_int" where
  "mp_input_get_key_from_name name =
     (if length name = 1 then of_char (hd name)
      else if length name > 2 \<and> strncaseeq 2 ''0x'' name then strtol16 name
      else case find (\<lambda>(k, n). strcaseeq n name) key_names of
        Some (k, n) \<Rightarrow> k
      | None \<Rightarrow> (case get_utf8 name of
            Some (v, rest) \<Rightarrow> if rest = [] \<and> v < KEY_BASE then v else - 1
          | None \<Rightarrow> - 1))"

text \<open>One name of a combination and the text behind it: the hyphen separates, but two in a row are
  the key \<^verbatim>\<open>-\<close> and a separator, and one at the end is part of the name.\<close>

definition cut_name :: "string \<Rightarrow> string \<times> string" where
  "cut_name ptr = (case strstr ptr ''-'' of
       None \<Rightarrow> (ptr, [])
     | Some e \<Rightarrow>
         if Suc e = length ptr then (ptr, [])
         else if ptr ! Suc e = CHR ''-'' then (take (Suc e) ptr, drop (Suc (Suc e)) ptr)
         else (take e ptr, drop (Suc e) ptr))"

fun keys_from_name :: "nat \<Rightarrow> string \<Rightarrow> c_int list option" where
  "keys_from_name 0 ptr = Some []"
| "keys_from_name (Suc n) ptr =
     (if ptr = [] then Some []
      else let key = mp_input_get_key_from_name (fst (cut_name ptr)) in
        if key <s 0 then None
        else map_option (\<lambda>ks. key # ks) (keys_from_name n (snd (cut_name ptr))))"

definition mp_input_get_input_from_name :: "string \<Rightarrow> c_int list option" where
  "mp_input_get_input_from_name name = keys_from_name MP_MAX_KEY_DOWN name"

subsection \<open>Sections of bindings\<close>

text \<open>
  The linked list of sections. The bindings of a section are \<^term>\<open>None\<close> until the first is made.
  A key array that reaches these functions ends at its first 0.
\<close>

type_synonym bind_sections = "(string \<times> mp_cmd_bind list option) list"

definition section_binds :: "string \<Rightarrow> bind_sections \<Rightarrow> mp_cmd_bind list option" where
  "section_binds name ss = (case map_of ss name of None \<Rightarrow> None | Some b \<Rightarrow> b)"

text \<open>The side effect of \<^verbatim>\<open>mp_input_get_bind_section\<close>: a missing section is added at the end.\<close>

definition mp_input_get_bind_section :: "string option \<Rightarrow> bind_sections \<Rightarrow> string \<times> bind_sections" where
  "mp_input_get_bind_section section ss =
     (let name = (case section of None \<Rightarrow> ''default'' | Some n \<Rightarrow> n)
      in (name, if map_of ss name = None then ss @ [(name, None)] else ss))"

fun set_section_binds :: "string \<Rightarrow> mp_cmd_bind list \<Rightarrow> bind_sections \<Rightarrow> bind_sections" where
  "set_section_binds name b [] = []"
| "set_section_binds name b ((n, c) # ss) =
     (if n = name then (n, Some b) # ss else (n, c) # set_section_binds name b ss)"

fun replace_bind :: "c_int list \<Rightarrow> string \<Rightarrow> mp_cmd_bind list \<Rightarrow> mp_cmd_bind list" where
  "replace_bind keys cmd [] = [\<lparr>bind_input = keys, bind_cmd = cmd\<rparr>]"
| "replace_bind keys cmd (b # bs) =
     (if bind_input b = keys then \<lparr>bind_input = keys, bind_cmd = cmd\<rparr> # bs
      else b # replace_bind keys cmd bs)"

definition space_char :: "char \<Rightarrow> bool" where
  "space_char c \<longleftrightarrow> c = CHR '' '' \<or> c = CHR 0x0A \<or> c = CHR 0x0D \<or> c = CHR 0x09"

text \<open>A command that begins with a name in braces goes to the section of that name.\<close>

definition split_section :: "string \<Rightarrow> string option \<times> string" where
  "split_section cmd =
     (if cmd \<noteq> [] \<and> hd cmd = CHR ''{'' then
        (case strstr cmd ''}'' of
           None \<Rightarrow> (None, cmd)
         | Some p \<Rightarrow> (Some (take (p - 1) (tl cmd)), dropWhile space_char (drop (Suc p) cmd)))
      else (None, cmd))"

definition mp_input_bind_keys :: "c_int list \<Rightarrow> string \<Rightarrow> bind_sections \<Rightarrow> bind_sections" where
  "mp_input_bind_keys keys cmd0 ss0 =
     (case split_section cmd0 of (section, cmd) \<Rightarrow>
      case mp_input_get_bind_section section ss0 of (name, ss) \<Rightarrow>
      set_section_binds name
        (replace_bind keys cmd (case section_binds name ss of None \<Rightarrow> [] | Some b \<Rightarrow> b)) ss)"

text \<open>\<^verbatim>\<open>mp_input_set_section\<close> chooses the two lists that the key machine looks into.\<close>

definition mp_input_set_section :: "string option \<Rightarrow> bind_sections \<Rightarrow> key_state \<Rightarrow> bind_sections \<times> key_state" where
  "mp_input_set_section section ss0 s0 =
     (let s = s0\<lparr>cmd_binds := None, cmd_binds_default := None\<rparr>;
          (name, ss) = mp_input_get_bind_section section ss0;
          s = s\<lparr>cmd_binds := section_binds name ss\<rparr>
      in if name = ''default'' then (ss, s)
         else let (dname, ss) = mp_input_get_bind_section None ss
              in (ss, s\<lparr>cmd_binds_default := section_binds dname ss\<rparr>))"

subsection \<open>The file\<close>

definition BS_MAX :: nat where "BS_MAX = 256"

text \<open>
  The variables of the loop: the C string in the buffer, what is left of the file, and the keys
  whose command is wanted (\<^verbatim>\<open>keys[0]\<close> is 0 when there are none). \<^verbatim>\<open>read\<close> on a regular file gives
  as much as fits.
\<close>

record config_reader =
  cr_buffer :: string
  cr_rest :: string
  cr_eof :: bool
  cr_comments :: bool
  cr_keys :: "c_int list"
  cr_sections :: bind_sections
  cr_binds :: nat

definition config_fill :: "config_reader \<Rightarrow> config_reader" where
  "config_fill r =
     (let room = BS_MAX - 1 - length (cr_buffer r) in
      if \<not> cr_eof r \<and> 0 < room
      then r\<lparr>cr_buffer := c_str (cr_buffer r @ take room (cr_rest r)),
             cr_rest := drop room (cr_rest r), cr_eof := (cr_rest r = [])\<rparr>
      else r)"

definition wants_key :: "config_reader \<Rightarrow> bool" where
  "wants_key r \<longleftrightarrow> cr_keys r = [] \<or> hd (cr_keys r) = 0"

definition not_newline :: "char \<Rightarrow> bool" where
  "not_newline c \<longleftrightarrow> c \<noteq> CHR 0x0A \<and> c \<noteq> CHR 0x0D"

text \<open>One round: the next state, or the result and the last state.\<close>

definition comment_step :: "config_reader \<Rightarrow> config_reader" where
  "comment_step r =
     (case dropWhile (\<lambda>c. c \<noteq> CHR 0x0A) (cr_buffer r) of
        [] \<Rightarrow> r\<lparr>cr_buffer := []\<rparr>
      | c # s \<Rightarrow> r\<lparr>cr_comments := False, cr_buffer := s\<rparr>)"

definition key_step :: "config_reader \<Rightarrow> config_reader + (bool \<times> config_reader)" where
  "key_step r =
     (let iter = dropWhile space_char (cr_buffer r) in
      if iter = [] then Inl (r\<lparr>cr_buffer := []\<rparr>)
      else if hd iter = CHR ''#'' then Inl (r\<lparr>cr_comments := True\<rparr>)
      else case dropWhile (\<lambda>c. \<not> space_char c) iter of
        [] \<Rightarrow> if cr_buffer r = iter then Inr (False, r) else Inl (r\<lparr>cr_buffer := iter\<rparr>)
      | c # s \<Rightarrow>
          (case mp_input_get_input_from_name (takeWhile (\<lambda>c. \<not> space_char c) iter) of
             None \<Rightarrow> Inr (False, r)
           | Some ks \<Rightarrow> Inl (r\<lparr>cr_keys := ks, cr_buffer := s\<rparr>)))"

definition command_step :: "config_reader \<Rightarrow> config_reader + (bool \<times> config_reader)" where
  "command_step r =
     (let iter = dropWhile blank (cr_buffer r) in
      if iter \<noteq> [] \<and> \<not> not_newline (hd iter) then Inl (r\<lparr>cr_keys := [], cr_buffer := tl iter\<rparr>)
      else case dropWhile not_newline iter of
        [] \<Rightarrow> if cr_buffer r = iter then Inr (False, r) else Inl (r\<lparr>cr_buffer := iter\<rparr>)
      | c # s \<Rightarrow>
          Inl (r\<lparr>cr_sections := mp_input_bind_keys (takeWhile (\<lambda>k. k \<noteq> 0) (cr_keys r))
                   (takeWhile not_newline iter) (cr_sections r),
                 cr_binds := Suc (cr_binds r), cr_keys := [], cr_buffer := s\<rparr>))"

definition config_step :: "config_reader \<Rightarrow> config_reader + (bool \<times> config_reader)" where
  "config_step r0 =
     (let r = config_fill r0 in
      if cr_buffer r = [] then Inr (True, r)
      else if cr_comments r then Inl (comment_step r)
      else if wants_key r then key_step r
      else command_step r)"

text \<open>Every round takes something off the text or starts a comment, so the loop ends.\<close>

definition config_measure :: "config_reader \<Rightarrow> nat" where
  "config_measure r = 2 * (length (cr_buffer r) + length (cr_rest r)) + (if cr_comments r then 0 else 1)"

subsection \<open>Key names read back\<close>

text \<open>Distinctness of a list of words, by their first letters.\<close>

fun distinct_words :: "nat \<Rightarrow> string list \<Rightarrow> bool" where
  "distinct_words 0 ws = (length ws < 2)"
| "distinct_words (Suc n) [] = True"
| "distinct_words (Suc n) (w # ws) =
     (if w = [] then list_all (\<lambda>v. v \<noteq> []) ws \<and> distinct_words n ws
      else let same = filter (\<lambda>v. v \<noteq> [] \<and> hd v = hd w) ws;
               other = filter (\<lambda>v. \<not> (v \<noteq> [] \<and> hd v = hd w)) ws
           in distinct_words n (tl w # map tl same) \<and> distinct_words n other)"

lemma distinct_filter_split: "distinct (filter P xs) \<Longrightarrow> distinct (filter (\<lambda>x. \<not> P x) xs) \<Longrightarrow> distinct xs"
  by (induction xs) (auto split: if_splits)

lemma distinct_words_sound: "distinct_words n ws \<Longrightarrow> distinct ws"
proof (induction n ws rule: distinct_words.induct)
  case (1 ws)
  then show ?case by (cases ws rule: list.exhaust [case_product list.exhaust]; auto simp: Suc_le_eq)
next
  case (2 n)
  then show ?case by simp
next
  case (3 n w ws)
  show ?case
  proof (cases "w = []")
    case True
    with 3 show ?thesis by (auto simp: list_all_iff)
  next
    case False
    let ?P = "\<lambda>v. v \<noteq> [] \<and> hd v = hd w"
    have d: "distinct (tl w # map tl (filter ?P ws))" "distinct (filter (\<lambda>v. \<not> ?P v) ws)"
      using 3 False by (auto simp: Let_def)
    have "distinct (filter ?P ws)" using d(1) by (auto simp: distinct_map)
    then have "distinct ws" using d(2) by (rule distinct_filter_split)
    moreover have "w \<notin> set ws" using d(1) False by auto
    ultimately show ?thesis by simp
  qed
qed

definition key_char :: "char \<Rightarrow> bool" where
  "key_char c \<longleftrightarrow> c \<in> set ''ABCDEFGHIJKLMNOPQRSTUVWXYZ_0123456789''"

lemma key_char_upper: "key_char c \<Longrightarrow> c_toupper (c_tolower c) = c"
  unfolding key_char_def by (auto simp: c_tolower_def c_toupper_def in_range_def)

lemma key_names_words:
  "list_all (\<lambda>n. list_all key_char n \<and> 1 < length n \<and> hd n \<noteq> CHR ''0'') (map snd key_names)"
  by code_simp

lemma key_names_distinct: "distinct (map snd key_names)"
  by (rule distinct_words_sound [of 60]) code_simp

lemma key_name_word:
  assumes "(k, n) \<in> set key_names"
  shows "list_all key_char n" and "1 < length n" and "hd n \<noteq> CHR ''0''"
proof -
  have "n \<in> set (map snd key_names)" using assms by (simp add: rev_image_eqI)
  with key_names_words have "list_all key_char n \<and> 1 < length n \<and> hd n \<noteq> CHR ''0''"
    unfolding list_all_iff [of _ "map snd key_names"] by (rule bspec)
  then show "list_all key_char n" and "1 < length n" and "hd n \<noteq> CHR ''0''" by simp_all
qed

lemma strcaseeq_upper:
  assumes "list_all key_char s" and "list_all key_char t" and "strcaseeq s t"
  shows "s = t"
proof -
  have "map c_toupper (map c_tolower u) = u" if "list_all key_char u" for u
    using that by (induction u) (auto simp: key_char_upper)
  with assms show ?thesis unfolding strcaseeq_def by metis
qed

lemma find_unique:
  assumes "x \<in> set xs" and "P x" and "\<And>y. y \<in> set xs \<Longrightarrow> P y \<Longrightarrow> y = x"
  shows "find P xs = Some x"
proof (cases "find P xs")
  case None
  then have "\<not> P x" using assms(1) by (simp add: find_None_iff)
  with assms(2) show ?thesis by blast
next
  case (Some y)
  then have "y \<in> set xs" "P y" by (auto simp: find_Some_iff)
  with Some assms(3) show ?thesis by blast
qed

lemma key_names_inj: "inj_on snd (set key_names)"
  by (rule distinct_map [THEN iffD1, OF key_names_distinct, THEN conjunct2])

lemma find_key_name:
  assumes "(k, n) \<in> set key_names"
  shows "find (\<lambda>(k, m). strcaseeq m n) key_names = Some (k, n)"
proof (rule find_unique [OF assms])
  fix y assume y: "y \<in> set key_names" "(case y of (k, m) \<Rightarrow> strcaseeq m n)"
  obtain j m where jm: "y = (j, m)" by (rule prod.exhaust)
  have m: "(j, m) \<in> set key_names" "strcaseeq m n" using y unfolding jm by simp_all
  have "m = n"
    by (rule strcaseeq_upper [OF key_name_word(1) [OF m(1)] key_name_word(1) [OF assms] m(2)])
  then show "y = (k, n)"
    using inj_onD [OF key_names_inj _ m(1) assms] unfolding jm by simp
qed simp

lemma named_key_round_trip:
  assumes "(k, n) \<in> set key_names"
  shows "mp_input_get_key_from_name n = k"
proof -
  note w = key_name_word [OF assms]
  have "\<not> strncaseeq 2 ''0x'' n"
  proof
    assume "strncaseeq 2 ''0x'' n"
    then have "c_tolower (hd n) = CHR ''0''" using w(2)
      by (cases n) (auto simp: strncaseeq_def c_tolower_def in_range_def numeral_2_eq_2)
    moreover have "key_char (hd n)" using w(1,2) by (cases n) auto
    then have "c_toupper (c_tolower (hd n)) = hd n" by (rule key_char_upper)
    ultimately show False using w(3) by (simp add: c_toupper_def in_range_def)
  qed
  with w(2) show ?thesis by (simp add: mp_input_get_key_from_name_def find_key_name [OF assms])
qed

lemma char_key_round_trip:
  assumes "0 \<le> sint (k :: c_int)" and "sint k < 256"
  shows "mp_input_get_key_from_name [char_of (unat k)] = k"
proof -
  have "uint k = uint (word_of_int (sint k) :: c_int)" by simp
  also have "\<dots> = sint k" unfolding uint_word_of_int using assms by simp
  finally have "int (unat k) < 256" using assms by simp
  then have "unat k < 256" by linarith
  then have "of_char (char_of (unat k)) = (of_nat (unat k) :: c_int)"
    by (metis char_of_nat of_char_of of_nat_of_char mod_less)
  then show ?thesis by (simp add: mp_input_get_key_from_name_def)
qed

lemma show_hex_digit_props:
  assumes "d < 16"
  shows "hex_val (hex_digit d) = Some d"
proof -
  have "d = 0 \<or> d = 1 \<or> d = 2 \<or> d = 3 \<or> d = 4 \<or> d = 5 \<or> d = 6 \<or> d = 7 \<or> d = 8 \<or> d = 9
    \<or> d = 10 \<or> d = 11 \<or> d = 12 \<or> d = 13 \<or> d = 14 \<or> d = 15" using assms by arith
  then show ?thesis
    by (elim disjE) (simp_all add: hex_val_def hex_digit_def digit_char_def c_isdigit_def in_range_def
      digit_val_def c_tolower_def)
qed

lemma read_hex_append:
  "list_all (\<lambda>c. hex_val c \<noteq> None) ds \<Longrightarrow> read_hex (ds @ rest) acc = read_hex rest (read_hex ds acc)"
  by (induction ds arbitrary: acc) auto

lemma show_hex_digits: "list_all (\<lambda>c. hex_val c \<noteq> None) (show_hex n)"
  by (induction n rule: show_hex.induct) (subst show_hex.simps, auto simp: show_hex_digit_props)

lemma read_show_hex: "read_hex (show_hex n) 0 = n"
proof (induction n rule: show_hex.induct)
  case (1 n)
  show ?case
  proof (cases "n < 16")
    case True
    then show ?thesis by (subst show_hex.simps) (simp add: show_hex_digit_props)
  next
    case False
    with 1 show ?thesis
      by (subst show_hex.simps) (simp add: read_hex_append [OF show_hex_digits] show_hex_digit_props)
  qed
qed

lemma read_hex_blanks: "read_hex (replicate n (CHR '' '')) acc = acc"
  by (cases n) (simp_all add: hex_val_def c_isdigit_def c_tolower_def in_range_def)

lemma show_hex_nonempty: "show_hex n \<noteq> []"
  by (subst show_hex.simps) simp

lemma hex_key_round_trip:
  assumes "k \<noteq> 0"
  shows "mp_input_get_key_from_name (show_key_hex k) = k"
proof -
  let ?b = "replicate (8 - length (''0x'' @ show_hex (unat k))) (CHR '' '')"
  have name: "show_key_hex k = ''0x'' @ show_hex (unat k) @ ?b" using assms by (simp add: show_key_hex_def Let_def)
  have len: "2 < length (show_key_hex k)" using show_hex_nonempty [of "unat k"] by (simp add: name)
  have "read_hex (show_hex (unat k) @ ?b) 0 = unat k"
    by (simp only: read_hex_append [OF show_hex_digits] read_show_hex read_hex_blanks)
  moreover have "uint k < 2 ^ 32" using unsigned_less [of k, where 'a = int] by simp
  moreover have "- (2 ^ 63) \<le> uint k" by (rule order_trans [of _ 0]) simp_all
  ultimately have "strtol16 (show_key_hex k) = k" by (simp add: strtol16_def name clamp_long_def)
  moreover have "strncaseeq 2 ''0x'' (show_key_hex k)" by (simp add: name strncaseeq_def)
  ultimately show ?thesis using len by (simp add: mp_input_get_key_from_name_def)
qed

lemma key_round_trip:
  assumes "k \<noteq> 0"
  shows "mp_input_get_key_from_name (mp_input_get_key_name k) = k"
proof (cases "map_of key_names k")
  case (Some n)
  then show ?thesis by (simp add: mp_input_get_key_name_def named_key_round_trip map_of_SomeD)
next
  case None
  then show ?thesis
    using assms by (simp add: mp_input_get_key_name_def char_key_round_trip hex_key_round_trip)
qed

subsection \<open>Combinations of keys\<close>

fun show_keys :: "c_int list \<Rightarrow> string" where
  "show_keys [] = []"
| "show_keys [k] = mp_input_get_key_name k"
| "show_keys (k # l # ks) = mp_input_get_key_name k @ CHR ''-'' # show_keys (l # ks)"

abbreviation hyphen :: c_int where "hyphen \<equiv> 45"

lemma hex_digit_not_hyphen: "hex_val c \<noteq> None \<Longrightarrow> c \<noteq> CHR ''-''"
  by (auto simp: hex_val_def c_isdigit_def c_tolower_def in_range_def)

lemma hyphen_not_in_name:
  assumes "k \<noteq> hyphen"
  shows "CHR ''-'' \<notin> set (mp_input_get_key_name k)" and "mp_input_get_key_name k \<noteq> []"
proof -
  consider n where "map_of key_names k = Some n" "mp_input_get_key_name k = n"
    | "mp_input_get_key_name k = [char_of (unat k)]" "0 \<le> sint k" "sint k < 256"
    | "mp_input_get_key_name k = show_key_hex k"
    by (cases "map_of key_names k"; cases "32 \<le> sint k \<and> sint k < 127")
      (simp_all add: mp_input_get_key_name_def)
  then have "CHR ''-'' \<notin> set (mp_input_get_key_name k) \<and> mp_input_get_key_name k \<noteq> []"
  proof cases
    case 1
    then have w: "list_all key_char n" "1 < length n" using key_name_word map_of_SomeD by metis+
    have "\<not> key_char CHR ''-''" by (simp add: key_char_def)
    with 1 w show ?thesis by (auto simp: list_all_iff)
  next
    case 2
    have "char_of (unat k) \<noteq> CHR ''-''"
    proof
      assume eq: "char_of (unat k) = CHR ''-''"
      have "k = mp_input_get_key_from_name [char_of (unat k)]" using char_key_round_trip 2(2,3) by simp
      also have "\<dots> = hyphen" unfolding eq by (simp add: mp_input_get_key_from_name_def)
      finally show False using assms by simp
    qed
    with 2 show ?thesis by auto
  next
    case 3
    have "CHR ''-'' \<notin> set (show_hex (unat k))"
      using show_hex_digits [of "unat k"] hex_digit_not_hyphen by (auto simp: list_all_iff)
    with 3 show ?thesis by (auto simp: show_key_hex_def Let_def)
  qed
  then show "CHR ''-'' \<notin> set (mp_input_get_key_name k)" and "mp_input_get_key_name k \<noteq> []" by simp_all
qed

lemma hyphen_name: "mp_input_get_key_name hyphen = ''-''"
proof -
  have "map_of key_names hyphen = None" by code_simp
  moreover have "char_of (45 :: nat) = CHR ''-''" by code_simp
  ultimately show ?thesis by (simp add: mp_input_get_key_name_def)
qed

lemma show_keys_start:
  assumes "k \<noteq> hyphen"
  obtains c s where "show_keys (k # ks) = c # s" and "c \<noteq> CHR ''-''"
  using hyphen_not_in_name [OF assms] that
  by (cases ks; cases "mp_input_get_key_name k") auto

lemma cut_single: "CHR ''-'' \<notin> set n \<or> n = ''-'' \<Longrightarrow> cut_name n = (n, [])"
  by (auto simp: cut_name_def dest: strstr_single_None [THEN iffD2] split: option.splits)

lemma cut_first:
  assumes "CHR ''-'' \<notin> set n \<or> n = ''-''" and "n \<noteq> []" and "c \<noteq> CHR ''-''"
  shows "cut_name (n @ CHR ''-'' # c # s) = (n, c # s)"
  using assms by (auto simp: cut_name_def strstr_single_append nth_append)

lemma keys_round_trip:
  "length ks \<le> n \<Longrightarrow> list_all (\<lambda>k. 0 <s k) ks \<Longrightarrow> hyphen \<notin> set (tl ks) \<Longrightarrow>
   keys_from_name n (show_keys ks) = Some ks"
proof (induction ks arbitrary: n rule: show_keys.induct)
  case 1
  then show ?case by (cases n) simp_all
next
  case (2 k)
  then obtain m where n: "n = Suc m" by (cases n) auto
  have k: "k \<noteq> 0" "\<not> k <s 0" using 2 by auto
  have nm: "CHR ''-'' \<notin> set (mp_input_get_key_name k) \<or> mp_input_get_key_name k = ''-''"
    "mp_input_get_key_name k \<noteq> []"
    using hyphen_not_in_name [of k] hyphen_name by (cases "k = hyphen"; simp)+
  have "keys_from_name m [] = Some []" by (cases m) simp_all
  with nm k n show ?case by (simp add: cut_single key_round_trip)
next
  case (3 k l ks)
  then obtain m where n: "n = Suc m" by (cases n) auto
  have k: "k \<noteq> 0" "\<not> k <s 0" using 3 by auto
  have nm: "CHR ''-'' \<notin> set (mp_input_get_key_name k) \<or> mp_input_get_key_name k = ''-''"
    "mp_input_get_key_name k \<noteq> []"
    using hyphen_not_in_name [of k] hyphen_name by (cases "k = hyphen"; simp)+
  obtain c s where cs: "show_keys (l # ks) = c # s" "c \<noteq> CHR ''-''"
    using show_keys_start [of l ks] 3 by auto
  have "keys_from_name m (show_keys (l # ks)) = Some (l # ks)" using 3 n by auto
  with nm k n cs cut_first [OF nm cs(2), of s] show ?case by (simp add: key_round_trip)
qed

subsection \<open>The loop ends\<close>

lemma c_str_length: "length (c_str s) \<le> length s"
  by (simp add: c_str_def length_takeWhile_le)

lemma config_fill_size:
  "length (cr_buffer (config_fill r)) + length (cr_rest (config_fill r))
     \<le> length (cr_buffer r) + length (cr_rest r)"
  "cr_comments (config_fill r) = cr_comments r" "cr_keys (config_fill r) = cr_keys r"
  "cr_sections (config_fill r) = cr_sections r" "cr_binds (config_fill r) = cr_binds r"
proof -
  have "length (c_str (cr_buffer r @ take n (cr_rest r))) + length (drop n (cr_rest r))
      \<le> length (cr_buffer r) + length (cr_rest r)" for n
    using c_str_length [of "cr_buffer r @ take n (cr_rest r)"] by (simp add: min_def split: if_splits)
  then show "length (cr_buffer (config_fill r)) + length (cr_rest (config_fill r))
     \<le> length (cr_buffer r) + length (cr_rest r)"
    by (simp add: config_fill_def Let_def del: length_drop)
qed (simp_all add: config_fill_def Let_def)

lemma tail_shorter: "dropWhile P xs = c # s \<Longrightarrow> length s < length xs"
  by (metis length_Cons length_dropWhile_le less_Suc_eq_le less_le_trans lessI)

lemma dropWhile_shorter: "dropWhile P xs \<noteq> xs \<Longrightarrow> length (dropWhile P xs) < length xs"
  by (induction xs) (auto simp: le_imp_less_Suc length_dropWhile_le split: if_splits)

lemma comment_step_less:
  assumes "cr_buffer r \<noteq> []" and "cr_comments r"
  shows "config_measure (comment_step r) < config_measure r"
  using assms by (auto simp: comment_step_def config_measure_def split: list.splits dest: tail_shorter)

lemma key_step_less:
  assumes "cr_buffer r \<noteq> []" and "\<not> cr_comments r" and "key_step r = Inl r'"
  shows "config_measure r' < config_measure r"
proof -
  define iter where "iter = dropWhile space_char (cr_buffer r)"
  have le: "length iter \<le> length (cr_buffer r)" by (simp add: iter_def length_dropWhile_le)
  have ne: "iter \<noteq> cr_buffer r \<Longrightarrow> length iter < length (cr_buffer r)"
    unfolding iter_def by (rule dropWhile_shorter)
  show ?thesis
    using assms le ne
    by (auto simp: key_step_def iter_def [symmetric] Let_def config_measure_def
        split: if_splits list.splits option.splits dest!: tail_shorter)
qed

lemma command_step_less:
  assumes "cr_buffer r \<noteq> []" and "\<not> cr_comments r" and "command_step r = Inl r'"
  shows "config_measure r' < config_measure r"
proof -
  define iter where "iter = dropWhile blank (cr_buffer r)"
  have le: "length iter \<le> length (cr_buffer r)" by (simp add: iter_def length_dropWhile_le)
  have ne: "iter \<noteq> cr_buffer r \<Longrightarrow> length iter < length (cr_buffer r)"
    unfolding iter_def by (rule dropWhile_shorter)
  have tl: "iter \<noteq> [] \<Longrightarrow> length (tl iter) < length (cr_buffer r)" using le by (cases iter) auto
  show ?thesis
    using assms le ne tl
    by (auto simp: command_step_def iter_def [symmetric] Let_def config_measure_def
        split: if_splits list.splits dest!: tail_shorter)
qed

lemma config_fill_measure: "config_measure (config_fill r) \<le> config_measure r"
  using config_fill_size [of r] by (simp add: config_measure_def)

lemma config_step_less:
  assumes "config_step r = Inl r'"
  shows "config_measure r' < config_measure r"
proof -
  have "config_measure r' < config_measure (config_fill r)"
    using assms comment_step_less [of "config_fill r"] key_step_less [of "config_fill r" r']
      command_step_less [of "config_fill r" r']
    by (auto simp: config_step_def Let_def split: if_splits)
  then show ?thesis using config_fill_measure [of r] by simp
qed

function parse_config_loop :: "config_reader \<Rightarrow> bool \<times> config_reader" where
  "parse_config_loop r =
     (case config_step r of Inl r' \<Rightarrow> parse_config_loop r' | Inr res \<Rightarrow> res)"
  by auto

termination
  by (relation "measure config_measure") (auto simp: config_step_less)

declare parse_config_loop.simps [simp del]

text \<open>
  \<open>file\<close> is \<^term>\<open>None\<close> when \<^verbatim>\<open>open\<close> fails. The answer is the return value with the sections and the
  number of bindings.
\<close>

definition mp_input_parse_config :: "string option \<Rightarrow> bind_sections \<Rightarrow> bool \<times> bind_sections \<times> nat" where
  "mp_input_parse_config file ss = (case file of
       None \<Rightarrow> (False, ss, 0)
     | Some text \<Rightarrow>
         (case parse_config_loop \<lparr>cr_buffer = [], cr_rest = text, cr_eof = False, cr_comments = False,
                 cr_keys = [], cr_sections = ss, cr_binds = 0\<rparr> of
            (res, r) \<Rightarrow> (res, cr_sections r, cr_binds r)))"

text \<open>
  The start of \<^verbatim>\<open>mp_input_init\<close>: the user's file, and the one of the installation if the first was not
  read to its end.
\<close>

definition mp_input_init_files :: "string option \<Rightarrow> string option \<Rightarrow> bind_sections \<Rightarrow> bind_sections" where
  "mp_input_init_files user installed ss = (case mp_input_parse_config user ss of
       (True, ss', n) \<Rightarrow> ss'
     | (False, ss', n) \<Rightarrow> fst (snd (mp_input_parse_config installed ss')))"

subsection \<open>The text ahead of the reader\<close>

text \<open>The buffer and the rest of the file together are the text that is still to be read.\<close>

definition reader_at :: "config_reader \<Rightarrow> string \<Rightarrow> bool" where
  "reader_at r t \<longleftrightarrow> cr_buffer r @ cr_rest r = t \<and> length (cr_buffer r) < BS_MAX
     \<and> (cr_eof r \<longrightarrow> cr_rest r = []) \<and> CHR 0x00 \<notin> set t"

lemma c_str_plain: "CHR 0x00 \<notin> set s \<Longrightarrow> c_str s = s"
  by (auto simp: c_str_def takeWhile_eq_all_conv)

lemma config_fill_at:
  assumes "reader_at r t"
  shows "cr_buffer (config_fill r) = take 255 t" and "cr_rest (config_fill r) = drop 255 t"
    and "reader_at (config_fill r) t"
proof -
  let ?n = "255 - length (cr_buffer r)"
  have t: "t = cr_buffer r @ cr_rest r" and len: "length (cr_buffer r) \<le> 255"
    using assms by (auto simp: reader_at_def BS_MAX_def)
  have plain: "c_str (cr_buffer r @ take ?n (cr_rest r)) = cr_buffer r @ take ?n (cr_rest r)"
    using assms by (intro c_str_plain) (auto simp: reader_at_def dest: in_set_takeD)
  have eof: "cr_eof r \<Longrightarrow> cr_rest r = []" using assms by (simp add: reader_at_def)
  show buf: "cr_buffer (config_fill r) = take 255 t" and rest: "cr_rest (config_fill r) = drop 255 t"
    using len eof by (auto simp: config_fill_def Let_def BS_MAX_def plain t)
  have "cr_eof (config_fill r) \<longrightarrow> drop 255 t = []"
    using eof len by (auto simp: config_fill_def Let_def BS_MAX_def t)
  then show "reader_at (config_fill r) t"
    using buf rest assms by (simp add: reader_at_def BS_MAX_def)
qed

lemma reader_moves:
  assumes "reader_at r t" and "take 255 t = xs @ s"
    and "r' = config_fill r\<lparr>cr_buffer := s, cr_comments := c, cr_keys := k, cr_sections := ss, cr_binds := n\<rparr>"
  shows "reader_at r' (drop (length xs) t)"
proof -
  note f = config_fill_at [OF assms(1)]
  have len: "length xs + length s \<le> 255" using arg_cong [OF assms(2), of length] by simp
  have "t = xs @ s @ drop 255 t" using assms(2) by (metis append_take_drop_id append_assoc)
  then have "drop (length xs) t = s @ drop 255 t" by (metis append_eq_conv_conj)
  moreover have "CHR 0x00 \<notin> set (drop (length xs) t)"
    using assms(1) by (auto simp: reader_at_def dest: in_set_dropD)
  ultimately show ?thesis
    using f assms(3) len by (auto simp: reader_at_def BS_MAX_def)
qed

text \<open>A round of the loop, by what the reader is looking for.\<close>

lemma loop_comment:
  assumes "reader_at r t" and "t \<noteq> []" and "cr_comments r"
  shows "parse_config_loop r = parse_config_loop (comment_step (config_fill r))"
  using assms config_fill_at [OF assms(1)] config_fill_size(2) [of r]
  by (subst parse_config_loop.simps) (simp add: config_step_def Let_def)

lemma loop_key:
  assumes "reader_at r t" and "t \<noteq> []" and "\<not> cr_comments r" and "cr_keys r = []"
  shows "parse_config_loop r =
    (case key_step (config_fill r) of Inl r' \<Rightarrow> parse_config_loop r' | Inr res \<Rightarrow> res)"
  using assms config_fill_at [OF assms(1)] config_fill_size(2,3) [of r]
  by (subst parse_config_loop.simps) (simp add: config_step_def Let_def wants_key_def)

lemma loop_command:
  assumes "reader_at r t" and "t \<noteq> []" and "\<not> cr_comments r" and "cr_keys r = k # ks" and "k \<noteq> 0"
  shows "parse_config_loop r =
    (case command_step (config_fill r) of Inl r' \<Rightarrow> parse_config_loop r' | Inr res \<Rightarrow> res)"
  using assms config_fill_at [OF assms(1)] config_fill_size(2,3) [of r]
  by (subst parse_config_loop.simps) (simp add: config_step_def Let_def wants_key_def)

lemma loop_end:
  assumes "reader_at r []"
  shows "\<exists>r'. parse_config_loop r = (True, r') \<and> cr_sections r' = cr_sections r \<and> cr_binds r' = cr_binds r"
  using config_fill_at [OF assms] config_fill_size(4,5) [of r]
  by (subst parse_config_loop.simps) (simp add: config_step_def)

subsection \<open>Lines\<close>

text \<open>What a stretch of text does: the loop goes on behind it with other sections and a count.\<close>

definition reads_to :: "config_reader \<Rightarrow> string \<Rightarrow> bind_sections \<Rightarrow> nat \<Rightarrow> bool" where
  "reads_to r t ss n \<longleftrightarrow> (\<exists>r'. parse_config_loop r = parse_config_loop r' \<and> reader_at r' t
     \<and> \<not> cr_comments r' \<and> cr_keys r' = [] \<and> cr_sections r' = ss \<and> cr_binds r' = n)"

lemma reads_to_step:
  "parse_config_loop r = parse_config_loop r' \<Longrightarrow> reads_to r' t ss n \<Longrightarrow> reads_to r t ss n"
  unfolding reads_to_def by simp

lemma reads_to_self:
  "reader_at r t \<Longrightarrow> \<not> cr_comments r \<Longrightarrow> cr_keys r = [] \<Longrightarrow> reads_to r t (cr_sections r) (cr_binds r)"
  unfolding reads_to_def by blast

lemma comment_body:
  "reader_at r (w @ CHR 0x0A # t) \<Longrightarrow> CHR 0x0A \<notin> set w \<Longrightarrow> cr_comments r \<Longrightarrow> cr_keys r = [] \<Longrightarrow>
   reads_to r t (cr_sections r) (cr_binds r)"
proof (induction "length w" arbitrary: w r rule: less_induct)
  case less
  note f = config_fill_at [OF less.prems(1)] and keep = config_fill_size(2-5) [of r]
  note move = reader_moves [OF less.prems(1)]
  have go: "parse_config_loop r = parse_config_loop (comment_step (config_fill r))"
    using less.prems by (intro loop_comment) auto
  show ?case
  proof (cases "length w < 255")
    case True
    then obtain m where m: "255 - length w = Suc m" by (cases "255 - length w") auto
    have buf: "take 255 (w @ CHR 0x0A # t) = (w @ [CHR 0x0A]) @ take m t" using True m by simp
    have "dropWhile (\<lambda>c. c \<noteq> CHR 0x0A) (take 255 (w @ CHR 0x0A # t)) = CHR 0x0A # take m t"
      using less.prems(2) unfolding buf by (auto simp: dropWhile_append)
    then have step: "comment_step (config_fill r) = config_fill r\<lparr>cr_comments := False, cr_buffer := take m t\<rparr>"
      by (simp add: comment_step_def f)
    have "reader_at (comment_step (config_fill r)) (drop (length (w @ [CHR 0x0A])) (w @ CHR 0x0A # t))"
      by (rule move [OF buf, where c = False and k = "cr_keys r" and ss = "cr_sections r" and n = "cr_binds r"])
        (simp add: step keep)
    then have "reader_at (comment_step (config_fill r)) t" by simp
    then have "reads_to (comment_step (config_fill r)) t (cr_sections r) (cr_binds r)"
      using reads_to_self [of "comment_step (config_fill r)"] less.prems by (simp add: step keep)
    with go show ?thesis by (rule reads_to_step)
  next
    case False
    then have buf: "take 255 (w @ CHR 0x0A # t) = take 255 w @ []" by simp
    have "dropWhile (\<lambda>c. c \<noteq> CHR 0x0A) (take 255 w) = []"
      using less.prems(2) by (auto dest: in_set_takeD)
    then have step: "comment_step (config_fill r) = config_fill r\<lparr>cr_buffer := []\<rparr>"
      using buf by (simp add: comment_step_def f del: dropWhile_eq_Nil_conv)
    have "reader_at (comment_step (config_fill r)) (drop (length (take 255 w)) (w @ CHR 0x0A # t))"
      by (rule move [OF buf, where c = "cr_comments r" and k = "cr_keys r" and ss = "cr_sections r" and n = "cr_binds r"])
        (simp add: step keep)
    then have "reader_at (comment_step (config_fill r)) (drop 255 w @ CHR 0x0A # t)" using False by simp
    moreover have "CHR 0x0A \<notin> set (drop 255 w)" using less.prems(2) by (auto dest: in_set_dropD)
    ultimately have "reads_to (comment_step (config_fill r)) t (cr_sections (comment_step (config_fill r)))
        (cr_binds (comment_step (config_fill r)))"
      using False less.prems by (intro less.hyps [of "drop 255 w"]) (auto simp: step keep)
    then have "reads_to (comment_step (config_fill r)) t (cr_sections r) (cr_binds r)"
      by (simp add: step keep)
    with go show ?thesis by (rule reads_to_step)
  qed
qed

lemma reads_to_trans:
  assumes "reads_to r t ss n"
    and "\<And>r'. reader_at r' t \<Longrightarrow> \<not> cr_comments r' \<Longrightarrow> cr_keys r' = [] \<Longrightarrow> cr_sections r' = ss \<Longrightarrow>
      cr_binds r' = n \<Longrightarrow> reads_to r' t' ss' n'"
  shows "reads_to r t' ss' n'"
  using assms unfolding reads_to_def by metis

definition all_space :: "string \<Rightarrow> bool" where
  "all_space ws \<longleftrightarrow> list_all space_char ws"

lemma all_space_simps [simp]:
  "all_space []" "all_space (c # s) \<longleftrightarrow> space_char c \<and> all_space s"
  "all_space (s @ t) \<longleftrightarrow> all_space s \<and> all_space t"
  by (simp_all add: all_space_def)

lemma dropWhile_space: "all_space ws \<Longrightarrow> dropWhile space_char (ws @ t) = dropWhile space_char t"
  by (induction ws) auto

lemma all_space_part: "all_space ws \<Longrightarrow> all_space (take n ws)" "all_space ws \<Longrightarrow> all_space (drop n ws)"
  by (auto simp: all_space_def list_all_iff dest: in_set_takeD in_set_dropD)

lemma space_read:
  assumes at: "reader_at r (ws @ t)" and ws: "all_space ws" and ne: "ws \<noteq> []" and big: "255 \<le> length ws \<or> t = []"
    and c: "\<not> cr_comments r" and k: "cr_keys r = []"
  shows "reads_to r (drop 255 ws @ t) (cr_sections r) (cr_binds r)"
proof -
  note f = config_fill_at [OF at] and keep = config_fill_size(2-5) [of r]
  have buf: "take 255 (ws @ t) = take 255 ws @ []" using big by auto
  have "dropWhile space_char (take 255 ws) = []"
    using dropWhile_space [OF all_space_part(1) [OF ws], of 255 "[]"] by simp
  then have step: "key_step (config_fill r) = Inl (config_fill r\<lparr>cr_buffer := []\<rparr>)"
    using f(1) [unfolded buf] by (simp add: key_step_def Let_def del: dropWhile_eq_Nil_conv)
  let ?r = "config_fill r\<lparr>cr_buffer := []\<rparr>"
  have "reader_at ?r (drop (length (take 255 ws)) (ws @ t))"
    by (rule reader_moves [OF at buf, where c = "cr_comments r" and k = "cr_keys r"
        and ss = "cr_sections r" and n = "cr_binds r"]) (simp add: keep)
  then have at2: "reader_at ?r (drop 255 ws @ t)" using big by (auto split: if_splits simp: min_def)
  have "parse_config_loop r = parse_config_loop ?r"
    using loop_key [OF at _ c k] step ne by simp
  moreover have "reads_to ?r (drop 255 ws @ t) (cr_sections r) (cr_binds r)"
    using reads_to_self [OF at2] c k by (simp add: keep)
  ultimately show ?thesis by (rule reads_to_step)
qed

lemma space_end:
  "reader_at r ws \<Longrightarrow> all_space ws \<Longrightarrow> \<not> cr_comments r \<Longrightarrow> cr_keys r = [] \<Longrightarrow>
   reads_to r [] (cr_sections r) (cr_binds r)"
proof (induction "length ws" arbitrary: ws r rule: less_induct)
  case less
  show ?case
  proof (cases "ws = []")
    case True
    with less.prems show ?thesis by (intro reads_to_self) auto
  next
    case False
    have "reads_to r (drop 255 ws) (cr_sections r) (cr_binds r)"
      using space_read [of r ws "[]"] less.prems False by simp
    then show ?thesis
    proof (rule reads_to_trans)
      fix r' assume "reader_at r' (drop 255 ws)" "\<not> cr_comments r'" "cr_keys r' = []"
        "cr_sections r' = cr_sections r" "cr_binds r' = cr_binds r"
      then show "reads_to r' [] (cr_sections r) (cr_binds r)"
        using less.hyps [of "drop 255 ws" r'] False less.prems all_space_part(2) by fastforce
    qed
  qed
qed

lemma comment_start:
  assumes at: "reader_at r (ws @ CHR ''#'' # t)" and ws: "all_space ws" and len: "length ws < 255"
    and c: "\<not> cr_comments r" and k: "cr_keys r = []"
  obtains r' where "parse_config_loop r = parse_config_loop r'" and "reader_at r' (ws @ CHR ''#'' # t)"
    and "cr_comments r'" and "cr_keys r' = []" and "cr_sections r' = cr_sections r" and "cr_binds r' = cr_binds r"
proof -
  note f = config_fill_at [OF at] and keep = config_fill_size(2-5) [of r]
  obtain m where m: "255 - length ws = Suc m" using len by (cases "255 - length ws") auto
  have buf: "take 255 (ws @ CHR ''#'' # t) = ws @ CHR ''#'' # take m t" using m len by simp
  have "dropWhile space_char (ws @ CHR ''#'' # take m t) = CHR ''#'' # take m t"
    using dropWhile_space [OF ws] by (simp add: space_char_def)
  then have "key_step (config_fill r) = Inl (config_fill r\<lparr>cr_comments := True\<rparr>)"
    using f(1) [unfolded buf] by (simp add: key_step_def Let_def del: dropWhile_eq_Nil_conv)
  then have "parse_config_loop r = parse_config_loop (config_fill r\<lparr>cr_comments := True\<rparr>)"
    using loop_key [OF at _ c k] by simp
  moreover have "reader_at (config_fill r\<lparr>cr_comments := True\<rparr>) (ws @ CHR ''#'' # t)"
    using f(3) by (simp add: reader_at_def)
  ultimately show thesis using that k keep by simp
qed

lemma comment_read:
  "reader_at r (ws @ CHR ''#'' # w @ CHR 0x0A # t) \<Longrightarrow> all_space ws \<Longrightarrow> CHR 0x0A \<notin> set w \<Longrightarrow>
   \<not> cr_comments r \<Longrightarrow> cr_keys r = [] \<Longrightarrow> reads_to r t (cr_sections r) (cr_binds r)"
proof (induction "length ws" arbitrary: ws r rule: less_induct)
  case less
  show ?case
  proof (cases "length ws < 255")
    case False
    have "reads_to r (drop 255 ws @ CHR ''#'' # w @ CHR 0x0A # t) (cr_sections r) (cr_binds r)"
      using False less.prems by (intro space_read) auto
    then show ?thesis
    proof (rule reads_to_trans)
      fix r' assume "reader_at r' (drop 255 ws @ CHR ''#'' # w @ CHR 0x0A # t)" "\<not> cr_comments r'" "cr_keys r' = []"
        "cr_sections r' = cr_sections r" "cr_binds r' = cr_binds r"
      then show "reads_to r' t (cr_sections r) (cr_binds r)"
        using less.hyps [of "drop 255 ws" r'] False less.prems all_space_part(2) by fastforce
    qed
  next
    case True
    obtain q where q: "parse_config_loop r = parse_config_loop q"
      "reader_at q (ws @ CHR ''#'' # w @ CHR 0x0A # t)" "cr_comments q" "cr_keys q = []"
      "cr_sections q = cr_sections r" "cr_binds q = cr_binds r"
      using comment_start [OF less.prems(1,2) True less.prems(4,5)] by metis
    have "reads_to q t (cr_sections r) (cr_binds r)"
    proof (cases "CHR 0x0A \<in> set ws")
      case False
      then show ?thesis
        using comment_body [of q "ws @ CHR ''#'' # w" t] q less.prems(3) by simp
    next
      case nl: True
      then obtain a b where ab: "ws = a @ CHR 0x0A # b" "CHR 0x0A \<notin> set a" by (meson split_list_first)
      have "reads_to q (b @ CHR ''#'' # w @ CHR 0x0A # t) (cr_sections r) (cr_binds r)"
        using comment_body [of q a "b @ CHR ''#'' # w @ CHR 0x0A # t"] q ab by simp
      then show ?thesis
      proof (rule reads_to_trans)
        fix r' assume "reader_at r' (b @ CHR ''#'' # w @ CHR 0x0A # t)" "\<not> cr_comments r'" "cr_keys r' = []"
          "cr_sections r' = cr_sections r" "cr_binds r' = cr_binds r"
        then show "reads_to r' t (cr_sections r) (cr_binds r)"
          using less.hyps [of b r'] ab less.prems by simp
      qed
    qed
    with q(1) show ?thesis by (rule reads_to_step)
  qed
qed

definition key_word :: "string \<Rightarrow> bool" where
  "key_word name \<longleftrightarrow> name \<noteq> [] \<and> list_all (\<lambda>c. \<not> space_char c) name \<and> hd name \<noteq> CHR ''#''"

lemma word_stops:
  assumes "list_all (\<lambda>c. \<not> space_char c) w" and "space_char c"
  shows "dropWhile (\<lambda>c. \<not> space_char c) (w @ c # s) = c # s"
    and "takeWhile (\<lambda>c. \<not> space_char c) (w @ c # s) = w"
  using assms by (induction w) auto

lemma word_not_space: "key_word name \<Longrightarrow> dropWhile space_char (name @ t) = name @ t"
  by (cases name) (auto simp: key_word_def)

text \<open>The key name fits the buffer: the reader takes it and stands behind the separator.\<close>

lemma key_found:
  assumes at: "reader_at r (ws @ name @ sep # t)" and ws: "all_space ws" and name: "key_word name"
    and sep: "space_char sep" and len: "length ws + length name < 255"
    and keys: "mp_input_get_input_from_name name = Some ks"
    and c: "\<not> cr_comments r" and k: "cr_keys r = []"
  obtains r' where "parse_config_loop r = parse_config_loop r'" and "reader_at r' t"
    and "\<not> cr_comments r'" and "cr_keys r' = ks" and "cr_sections r' = cr_sections r" and "cr_binds r' = cr_binds r"
proof -
  note f = config_fill_at [OF at] and keep = config_fill_size(2-5) [of r]
  obtain m where m: "255 - (length ws + length name) = Suc m" using len by (cases "255 - (length ws + length name)") auto
  have buf: "take 255 (ws @ name @ sep # t) = (ws @ name @ [sep]) @ take m t" using m len by simp
  have iter: "dropWhile space_char ((ws @ name @ [sep]) @ take m t) = name @ sep # take m t"
    using dropWhile_space [OF ws] word_not_space [OF name] by simp
  have name': "list_all (\<lambda>c. \<not> space_char c) name" "name \<noteq> []" "hd name \<noteq> CHR ''#''"
    using name by (simp_all add: key_word_def)
  let ?r = "config_fill r\<lparr>cr_keys := ks, cr_buffer := take m t\<rparr>"
  have "key_step (config_fill r) = Inl ?r"
    using f(1) [unfolded buf] name' keys
    by (simp add: key_step_def Let_def iter [simplified] word_stops [OF name'(1) sep])
  then have "parse_config_loop r = parse_config_loop ?r" using loop_key [OF at _ c k] name' by simp
  moreover have "reader_at ?r (drop (length (ws @ name @ [sep])) (ws @ name @ sep # t))"
    by (rule reader_moves [OF at buf, where c = "cr_comments r" and k = ks
        and ss = "cr_sections r" and n = "cr_binds r"]) (simp add: keep)
  ultimately show thesis using that [of ?r] c keep by simp
qed

text \<open>Otherwise it is moved to the front of the buffer first.\<close>

lemma key_moved:
  assumes at: "reader_at r (ws @ name @ t)" and ws: "all_space ws" and ne: "ws \<noteq> []" and name: "key_word name"
    and len: "length ws < 255" "255 \<le> length ws + length name" and c: "\<not> cr_comments r" and k: "cr_keys r = []"
  shows "reads_to r (name @ t) (cr_sections r) (cr_binds r)"
proof -
  note f = config_fill_at [OF at] and keep = config_fill_size(2-5) [of r]
  let ?s = "take (255 - length ws) name"
  have buf: "take 255 (ws @ name @ t) = ws @ ?s" using len by simp
  have s: "key_word ?s" using name len
    by (cases name; cases "255 - length ws") (auto simp: key_word_def list_all_iff dest: in_set_takeD)
  have iter: "dropWhile space_char (ws @ ?s) = ?s"
    using dropWhile_space [OF ws] word_not_space [OF s, of "[]"] by simp
  have s': "?s \<noteq> []" "hd ?s \<noteq> CHR ''#''" "dropWhile (\<lambda>c. \<not> space_char c) ?s = []"
    using s by (auto simp: key_word_def list_all_iff)
  have "ws @ ?s \<noteq> ?s" using ne by simp
  then have "key_step (config_fill r) = Inl (config_fill r\<lparr>cr_buffer := ?s\<rparr>)"
    using f(1) [unfolded buf] s' by (simp only: key_step_def Let_def iter if_False list.case)
  then have "parse_config_loop r = parse_config_loop (config_fill r\<lparr>cr_buffer := ?s\<rparr>)"
    using loop_key [OF at _ c k] ne by simp
  moreover have "reader_at (config_fill r\<lparr>cr_buffer := ?s\<rparr>) (drop (length ws) (ws @ name @ t))"
    by (rule reader_moves [OF at buf, where c = "cr_comments r" and k = "cr_keys r"
        and ss = "cr_sections r" and n = "cr_binds r"]) (simp add: keep)
  ultimately show ?thesis
    unfolding reads_to_def using c k keep by (intro exI [of _ "config_fill r\<lparr>cr_buffer := ?s\<rparr>"]) simp
qed

definition command_word :: "string \<Rightarrow> bool" where
  "command_word cmd \<longleftrightarrow> cmd \<noteq> [] \<and> list_all not_newline cmd \<and> \<not> blank (hd cmd) \<and> length cmd < 255"

lemma command_read:
  assumes at: "reader_at r (cmd @ CHR 0x0A # t)" and cmd: "command_word cmd"
    and c: "\<not> cr_comments r" and k: "cr_keys r = key # ks" and key: "key \<noteq> 0"
  shows "reads_to r t (mp_input_bind_keys (takeWhile (\<lambda>k. k \<noteq> 0) (key # ks)) cmd (cr_sections r)) (Suc (cr_binds r))"
proof -
  note f = config_fill_at [OF at] and keep = config_fill_size(2-5) [of r]
  have cmd': "cmd \<noteq> []" "list_all not_newline cmd" "\<not> blank (hd cmd)" "length cmd < 255"
    using cmd by (simp_all add: command_word_def)
  obtain m where m: "255 - length cmd = Suc m" using cmd'(4) by (cases "255 - length cmd") auto
  have buf: "take 255 (cmd @ CHR 0x0A # t) = (cmd @ [CHR 0x0A]) @ take m t" using m cmd' by simp
  have iter: "dropWhile blank ((cmd @ [CHR 0x0A]) @ take m t) = cmd @ CHR 0x0A # take m t"
    using cmd' by (cases cmd) auto
  have stop: "dropWhile not_newline (cmd @ CHR 0x0A # take m t) = CHR 0x0A # take m t"
    "takeWhile not_newline (cmd @ CHR 0x0A # take m t) = cmd"
    using cmd'(2) by (auto simp: dropWhile_append takeWhile_append list_all_iff not_newline_def)
  have hd: "not_newline (hd (cmd @ CHR 0x0A # take m t))" using cmd'(1,2) by (cases cmd) auto
  let ?ss = "mp_input_bind_keys (takeWhile (\<lambda>k. k \<noteq> 0) (key # ks)) cmd (cr_sections r)"
  let ?r = "config_fill r\<lparr>cr_sections := ?ss, cr_binds := Suc (cr_binds r), cr_keys := [], cr_buffer := take m t\<rparr>"
  have "command_step (config_fill r) = Inl ?r"
    unfolding command_step_def f(1) [unfolded buf] iter Let_def stop using hd keep k by simp
  then have "parse_config_loop r = parse_config_loop ?r" using loop_command [OF at _ c k key] by simp
  moreover have "reader_at ?r (drop (length (cmd @ [CHR 0x0A])) (cmd @ CHR 0x0A # t))"
    by (rule reader_moves [OF at buf, where c = "cr_comments r" and k = "[]"
        and ss = ?ss and n = "Suc (cr_binds r)"]) (simp add: keep)
  ultimately show ?thesis
    unfolding reads_to_def using c keep by (intro exI [of _ ?r]) simp
qed

text \<open>A file that ends in the middle of a command is an error.\<close>

lemma command_cut:
  assumes at: "reader_at r cmd" and cmd: "command_word cmd"
    and c: "\<not> cr_comments r" and k: "cr_keys r = key # ks" and key: "key \<noteq> 0"
  shows "\<exists>r'. parse_config_loop r = (False, r') \<and> cr_sections r' = cr_sections r \<and> cr_binds r' = cr_binds r"
proof -
  note f = config_fill_at [OF at] and keep = config_fill_size(2-5) [of r]
  have cmd': "cmd \<noteq> []" "list_all not_newline cmd" "\<not> blank (hd cmd)" "length cmd < 255"
    using cmd by (simp_all add: command_word_def)
  have buf: "take 255 cmd = cmd" using cmd' by simp
  have iter: "dropWhile blank cmd = cmd" using cmd' by (cases cmd) auto
  have stop: "dropWhile not_newline cmd = []" using cmd' by (simp add: list_all_iff)
  have hd: "not_newline (hd cmd)" using cmd'(1,2) by (cases cmd) auto
  have "command_step (config_fill r) = Inr (False, config_fill r)"
    unfolding command_step_def f(1) [unfolded buf] iter Let_def stop using hd by simp
  then have "parse_config_loop r = (False, config_fill r)" using loop_command [OF at _ c k key] cmd' by simp
  then show ?thesis using keep by simp
qed

lemma bind_here:
  assumes at: "reader_at r (ws @ name @ CHR '' '' # cmd @ CHR 0x0A # t)" and ws: "all_space ws"
    and name: "key_word name" and len: "length ws + length name < 255"
    and keys: "mp_input_get_input_from_name name = Some (key # ks)" and key: "key \<noteq> 0"
    and cmd: "command_word cmd" and c: "\<not> cr_comments r" and k: "cr_keys r = []"
  shows "reads_to r t (mp_input_bind_keys (takeWhile (\<lambda>k. k \<noteq> 0) (key # ks)) cmd (cr_sections r)) (Suc (cr_binds r))"
proof -
  obtain q where q: "parse_config_loop r = parse_config_loop q" "reader_at q (cmd @ CHR 0x0A # t)"
    "\<not> cr_comments q" "cr_keys q = key # ks" "cr_sections q = cr_sections r" "cr_binds q = cr_binds r"
    using key_found [OF at ws name _ len keys c k] by (metis space_char_def)
  show ?thesis using reads_to_step [OF q(1) command_read [OF q(2) cmd q(3,4) key]] q(5,6) by simp
qed

lemma bind_read:
  "reader_at r (ws @ name @ CHR '' '' # cmd @ CHR 0x0A # t) \<Longrightarrow> all_space ws \<Longrightarrow> key_word name \<Longrightarrow>
   length name < 255 \<Longrightarrow> mp_input_get_input_from_name name = Some (key # ks) \<Longrightarrow> key \<noteq> 0 \<Longrightarrow>
   command_word cmd \<Longrightarrow> \<not> cr_comments r \<Longrightarrow> cr_keys r = [] \<Longrightarrow>
   reads_to r t (mp_input_bind_keys (takeWhile (\<lambda>k. k \<noteq> 0) (key # ks)) cmd (cr_sections r)) (Suc (cr_binds r))"
proof (induction "length ws" arbitrary: ws r rule: less_induct)
  case less
  consider "length ws + length name < 255" | "length ws < 255" "255 \<le> length ws + length name" | "255 \<le> length ws"
    by linarith
  then show ?case
  proof cases
    case 1
    then show ?thesis using less.prems by (intro bind_here)
  next
    case 2
    then have "ws \<noteq> []" using less.prems(4) by auto
    then have "reads_to r (name @ CHR '' '' # cmd @ CHR 0x0A # t) (cr_sections r) (cr_binds r)"
      using 2 less.prems by (intro key_moved)
    then show ?thesis
    proof (rule reads_to_trans)
      fix r' assume "reader_at r' (name @ CHR '' '' # cmd @ CHR 0x0A # t)" "\<not> cr_comments r'" "cr_keys r' = []"
        "cr_sections r' = cr_sections r" "cr_binds r' = cr_binds r"
      then show "reads_to r' t (mp_input_bind_keys (takeWhile (\<lambda>k. k \<noteq> 0) (key # ks)) cmd (cr_sections r))
          (Suc (cr_binds r))"
        using bind_here [of r' "[]" name cmd t key ks] less.prems by simp
    qed
  next
    case 3
    then have "reads_to r (drop 255 ws @ name @ CHR '' '' # cmd @ CHR 0x0A # t) (cr_sections r) (cr_binds r)"
      using less.prems by (intro space_read) auto
    then show ?thesis
    proof (rule reads_to_trans)
      fix r' assume r': "reader_at r' (drop 255 ws @ name @ CHR '' '' # cmd @ CHR 0x0A # t)" "\<not> cr_comments r'"
        "cr_keys r' = []" "cr_sections r' = cr_sections r" "cr_binds r' = cr_binds r"
      have "length (drop 255 ws) < length ws" using 3 by simp
      then show "reads_to r' t (mp_input_bind_keys (takeWhile (\<lambda>k. k \<noteq> 0) (key # ks)) cmd (cr_sections r))
          (Suc (cr_binds r))"
        using less.hyps [of "drop 255 ws" r'] less.prems r' all_space_part(2) by metis
    qed
  qed
qed

subsection \<open>Files\<close>

text \<open>The lines of a file: a binding or a comment, each after any space, blank lines included.\<close>

datatype config_line = Bind_line string string string | Comment_line string string

fun show_line :: "config_line \<Rightarrow> string" where
  "show_line (Bind_line ws name cmd) = ws @ name @ CHR '' '' # cmd @ [CHR 0x0A]"
| "show_line (Comment_line ws t) = ws @ CHR ''#'' # t @ [CHR 0x0A]"

fun line_ok :: "config_line \<Rightarrow> bool" where
  "line_ok (Bind_line ws name cmd) \<longleftrightarrow> all_space ws \<and> key_word name \<and> length name < 255
     \<and> (case mp_input_get_input_from_name name of Some (k # ks) \<Rightarrow> k \<noteq> 0 | _ \<Rightarrow> False) \<and> command_word cmd"
| "line_ok (Comment_line ws t) \<longleftrightarrow> all_space ws \<and> CHR 0x0A \<notin> set t"

fun apply_line :: "config_line \<Rightarrow> bind_sections \<Rightarrow> bind_sections" where
  "apply_line (Bind_line ws name cmd) ss = (case mp_input_get_input_from_name name of
     None \<Rightarrow> ss | Some ks \<Rightarrow> mp_input_bind_keys (takeWhile (\<lambda>k. k \<noteq> 0) ks) cmd ss)"
| "apply_line (Comment_line ws t) ss = ss"

fun is_bind :: "config_line \<Rightarrow> bool" where
  "is_bind (Bind_line ws name cmd) = True"
| "is_bind (Comment_line ws t) = False"

abbreviation show_lines :: "config_line list \<Rightarrow> string" where
  "show_lines ls \<equiv> concat (map show_line ls)"

lemma line_read:
  assumes "reader_at r (show_line l @ t)" and "line_ok l" and "\<not> cr_comments r" and "cr_keys r = []"
  shows "reads_to r t (apply_line l (cr_sections r)) (cr_binds r + (if is_bind l then 1 else 0))"
proof (cases l)
  case (Bind_line ws name cmd)
  then obtain k ks where "mp_input_get_input_from_name name = Some (k # ks)" "k \<noteq> 0"
    using assms(2) by (auto split: option.splits list.splits)
  with Bind_line assms show ?thesis using bind_read [of r ws name cmd t k ks] by simp
next
  case (Comment_line ws w)
  with assms show ?thesis using comment_read [of r ws w t] by simp
qed

lemma lines_read:
  "reader_at r (show_lines ls @ t) \<Longrightarrow> list_all line_ok ls \<Longrightarrow> \<not> cr_comments r \<Longrightarrow> cr_keys r = [] \<Longrightarrow>
   reads_to r t (fold apply_line ls (cr_sections r)) (cr_binds r + length (filter is_bind ls))"
proof (induction ls arbitrary: r)
  case Nil
  then show ?case using reads_to_self by simp
next
  case (Cons l ls)
  have "reads_to r (show_lines ls @ t) (apply_line l (cr_sections r)) (cr_binds r + (if is_bind l then 1 else 0))"
    using Cons.prems by (intro line_read) simp_all
  then show ?case
  proof (rule reads_to_trans)
    fix r' assume "reader_at r' (show_lines ls @ t)" "\<not> cr_comments r'" "cr_keys r' = []"
      "cr_sections r' = apply_line l (cr_sections r)" "cr_binds r' = cr_binds r + (if is_bind l then 1 else 0)"
    then show "reads_to r' t (fold apply_line (l # ls) (cr_sections r)) (cr_binds r + length (filter is_bind (l # ls)))"
      using Cons.IH [of r'] Cons.prems by (cases "is_bind l") simp_all
  qed
qed

abbreviation config_start :: "string \<Rightarrow> bind_sections \<Rightarrow> config_reader" where
  "config_start text ss \<equiv> \<lparr>cr_buffer = [], cr_rest = text, cr_eof = False, cr_comments = False,
     cr_keys = [], cr_sections = ss, cr_binds = 0\<rparr>"

lemma config_start_at: "CHR 0x00 \<notin> set text \<Longrightarrow> reader_at (config_start text ss) text"
  by (simp add: reader_at_def BS_MAX_def)

lemma loop_lines:
  assumes "reader_at r (show_lines ls @ ws)" and "list_all line_ok ls" and "all_space ws"
    and "\<not> cr_comments r" and "cr_keys r = []"
  shows "reads_to r [] (fold apply_line ls (cr_sections r)) (cr_binds r + length (filter is_bind ls))"
  using lines_read [OF assms(1,2,4,5)]
proof (rule reads_to_trans)
  fix r' assume "reader_at r' ws" "\<not> cr_comments r'" "cr_keys r' = []"
    "cr_sections r' = fold apply_line ls (cr_sections r)"
    "cr_binds r' = cr_binds r + length (filter is_bind ls)"
  then show "reads_to r' [] (fold apply_line ls (cr_sections r)) (cr_binds r + length (filter is_bind ls))"
    using space_end [of r' ws] assms(3) by simp
qed

lemma reads_to_end:
  assumes "reads_to r [] ss n"
  shows "\<exists>r'. parse_config_loop r = (True, r') \<and> cr_sections r' = ss \<and> cr_binds r' = n"
  using assms loop_end unfolding reads_to_def by metis

lemma space_plain: "all_space ws \<Longrightarrow> CHR 0x00 \<notin> set ws"
  by (induction ws) (auto simp: space_char_def)

lemma parse_config_lines:
  assumes "list_all line_ok ls" and "all_space ws" and "CHR 0x00 \<notin> set (show_lines ls)"
  shows "mp_input_parse_config (Some (show_lines ls @ ws)) ss =
    (True, fold apply_line ls ss, length (filter is_bind ls))"
proof -
  define t where "t = show_lines ls @ ws"
  have "CHR 0x00 \<notin> set t" unfolding t_def set_append using assms(3) space_plain [OF assms(2)] by blast
  then have "reader_at (config_start t ss) (show_lines ls @ ws)"
    using config_start_at by (simp only: t_def)
  then have "reads_to (config_start t ss) [] (fold apply_line ls ss) (length (filter is_bind ls))"
    using loop_lines [OF _ assms(1,2), of "config_start t ss"] by (simp only: config_reader.simps) simp
  from reads_to_end [OF this] show ?thesis
    by (auto simp: mp_input_parse_config_def t_def [symmetric] simp del: set_concat)
qed

lemma parse_config_cut:
  assumes ls: "list_all line_ok ls" and last: "line_ok (Bind_line [] name cmd)"
    and plain: "CHR 0x00 \<notin> set (show_lines ls @ name @ cmd)"
  shows "mp_input_parse_config (Some (show_lines ls @ name @ CHR '' '' # cmd)) ss =
    (False, fold apply_line ls ss, length (filter is_bind ls))"
proof -
  let ?t = "show_lines ls @ name @ CHR '' '' # cmd"
  have "reader_at (config_start ?t ss) ?t" using plain by (intro config_start_at) auto
  then have "reads_to (config_start ?t ss) (name @ CHR '' '' # cmd) (fold apply_line ls ss) (length (filter is_bind ls))"
    using lines_read [of "config_start ?t ss" ls] ls by simp
  then obtain r where r: "parse_config_loop (config_start ?t ss) = parse_config_loop r"
    "reader_at r ([] @ name @ CHR '' '' # cmd)" "\<not> cr_comments r" "cr_keys r = []"
    "cr_sections r = fold apply_line ls ss" "cr_binds r = length (filter is_bind ls)"
    unfolding reads_to_def by auto
  obtain k ks where keys: "mp_input_get_input_from_name name = Some (k # ks)" "k \<noteq> 0"
    using last by (auto split: option.splits list.splits)
  have l: "key_word name" "length [] + length name < 255" "command_word cmd" using last by auto
  obtain q where q: "parse_config_loop r = parse_config_loop q" "reader_at q cmd" "\<not> cr_comments q"
    "cr_keys q = k # ks" "cr_sections q = cr_sections r" "cr_binds q = cr_binds r"
    using key_found [OF r(2) _ l(1) _ l(2) keys(1) r(3,4)] by (metis space_char_def all_space_simps(1))
  obtain q' where "parse_config_loop q = (False, q')" "cr_sections q' = cr_sections q" "cr_binds q' = cr_binds q"
    using command_cut [OF q(2) l(3) q(3,4) keys(2)] by blast
  then show ?thesis using r q by (simp add: mp_input_parse_config_def)
qed

subsection \<open>What a file binds\<close>

text \<open>The command that the lines of a file give a combination in the default section: the last one counts.\<close>

fun line_cmd :: "c_int list \<Rightarrow> config_line \<Rightarrow> string option" where
  "line_cmd keys (Bind_line ws name cmd) =
     (if map_option (takeWhile (\<lambda>k. k \<noteq> 0)) (mp_input_get_input_from_name name) = Some keys
         \<and> fst (split_section cmd) = None
      then Some cmd else None)"
| "line_cmd keys (Comment_line ws t) = None"

definition file_cmd :: "c_int list \<Rightarrow> config_line list \<Rightarrow> string option" where
  "file_cmd keys ls = fold (\<lambda>l c. first_some (line_cmd keys l) c) ls None"

definition look_up :: "c_int list \<Rightarrow> mp_cmd_bind list option \<Rightarrow> string option" where
  "look_up keys b = (case b of None \<Rightarrow> None | Some l \<Rightarrow> mp_input_find_bind_for_key l keys)"

lemma find_bind_Nil [simp]: "mp_input_find_bind_for_key [] keys = None"
  by (simp add: mp_input_find_bind_for_key_def)

lemma find_bind_single [simp]:
  "mp_input_find_bind_for_key [\<lparr>bind_input = ks, bind_cmd = c\<rparr>] keys =
     (if keys \<noteq> [] \<and> ks = keys then Some c else None)"
  by (simp add: mp_input_find_bind_for_key_def)

lemma look_up_None [simp]: "look_up keys None = None"
  by (simp add: look_up_def)

lemma find_replace:
  assumes "keys \<noteq> []"
  shows "mp_input_find_bind_for_key (replace_bind ks cmd bs) keys =
    (if keys = ks then Some cmd else mp_input_find_bind_for_key bs keys)"
  using assms by (induction bs) (auto simp: mp_input_find_bind_for_key_def)

lemma section_binds_set:
  assumes "map_of ss name \<noteq> None"
  shows "section_binds n (set_section_binds name b ss) = (if n = name then Some b else section_binds n ss)"
  using assms by (induction ss) (auto simp: section_binds_def)

lemma section_binds_get:
  assumes "mp_input_get_bind_section section ss = (name, ts)"
  shows "section_binds n ts = section_binds n ss" and "map_of ts name \<noteq> None"
    and "name = (case section of None \<Rightarrow> ''default'' | Some n \<Rightarrow> n)"
proof -
  show name: "name = (case section of None \<Rightarrow> ''default'' | Some n \<Rightarrow> n)"
    using assms by (simp add: mp_input_get_bind_section_def Let_def)
  have ts: "ts = (if map_of ss name = None then ss @ [(name, None)] else ss)"
    using assms by (auto simp: mp_input_get_bind_section_def Let_def)
  show "section_binds n ts = section_binds n ss" and "map_of ts name \<noteq> None"
    by (cases "map_of ss name"; cases "map_of ss n"; auto simp: ts section_binds_def map_add_def)+
qed

lemma bind_keys_look_up:
  assumes "keys \<noteq> []"
  shows "look_up keys (section_binds n (mp_input_bind_keys ks cmd ss)) =
    (if n = (case fst (split_section cmd) of None \<Rightarrow> ''default'' | Some m \<Rightarrow> m) \<and> keys = ks
     then Some (snd (split_section cmd)) else look_up keys (section_binds n ss))"
proof -
  obtain sec c where sc: "split_section cmd = (sec, c)" by (cases "split_section cmd")
  obtain name ts where g: "mp_input_get_bind_section sec ss = (name, ts)"
    by (cases "mp_input_get_bind_section sec ss")
  note s = section_binds_get [OF g]
  show ?thesis
    using find_replace [OF assms] assms
    by (auto simp: mp_input_bind_keys_def sc g section_binds_set [OF s(2)] s(1) s(3) [symmetric] look_up_def
        split: option.splits)
qed

lemma split_section_None: "fst (split_section cmd) = None \<Longrightarrow> snd (split_section cmd) = cmd"
  by (auto simp: split_section_def split: if_splits option.splits)

lemma apply_line_look_up:
  assumes "keys \<noteq> []" and named: "case l of Bind_line _ _ c \<Rightarrow> fst (split_section c) \<noteq> Some ''default'' | _ \<Rightarrow> True"
  shows "look_up keys (section_binds ''default'' (apply_line l ss)) =
    first_some (line_cmd keys l) (look_up keys (section_binds ''default'' ss))"
proof (cases l)
  case (Comment_line ws t)
  then show ?thesis by (simp add: first_some_def)
next
  case (Bind_line ws name cmd)
  show ?thesis
    using named Bind_line split_section_None [of cmd]
    by (cases "mp_input_get_input_from_name name"; cases "fst (split_section cmd)")
      (auto simp: first_some_def bind_keys_look_up [OF assms(1)])
qed

definition default_lines :: "config_line list \<Rightarrow> bool" where
  "default_lines ls \<longleftrightarrow> list_all (\<lambda>l. case l of Bind_line _ _ c \<Rightarrow> fst (split_section c) \<noteq> Some ''default'' | _ \<Rightarrow> True) ls"

lemma fold_look_up:
  assumes "keys \<noteq> []" and "default_lines ls"
  shows "look_up keys (section_binds ''default'' (fold apply_line ls ss)) =
    fold (\<lambda>l c. first_some (line_cmd keys l) c) ls (look_up keys (section_binds ''default'' ss))"
  using assms(2)
proof (induction ls arbitrary: ss)
  case Nil
  then show ?case by simp
next
  case (Cons l ls)
  have "look_up keys (section_binds ''default'' (apply_line l ss)) =
      first_some (line_cmd keys l) (look_up keys (section_binds ''default'' ss))"
    using Cons.prems assms(1) by (intro apply_line_look_up) (auto simp: default_lines_def split: config_line.splits)
  with Cons show ?case by (simp add: default_lines_def)
qed

lemma file_look_up:
  assumes "keys \<noteq> []" and "default_lines ls"
  shows "look_up keys (section_binds ''default'' (fold apply_line ls [])) = file_cmd keys ls"
  using fold_look_up [OF assms, of "[]"] by (simp add: file_cmd_def section_binds_def look_up_def)

lemma bound_after_config:
  assumes "keys \<noteq> []" and "default_lines ls"
    and s: "mp_input_set_section None (fold apply_line ls []) s0 = (ss, s)"
  shows "bound_cmd s keys = first_some (file_cmd keys ls)
      (if default_bindings s0 then mp_input_find_bind_for_key def_cmd_binds keys else None)"
    and "default_bindings s = default_bindings s0" and "pausing_default s = pausing_default s0"
    and "key_down s = key_down s0" and "mp_input_key_cb s = mp_input_key_cb s0"
proof -
  obtain name ts where g: "mp_input_get_bind_section None (fold apply_line ls []) = (name, ts)"
    by (cases "mp_input_get_bind_section None (fold apply_line ls [])")
  note sb = section_binds_get [OF g]
  have s': "s = s0\<lparr>cmd_binds_default := None, cmd_binds := section_binds ''default'' (fold apply_line ls [])\<rparr>"
    using s g sb by (auto simp: mp_input_set_section_def Let_def)
  show "bound_cmd s keys = first_some (file_cmd keys ls)
      (if default_bindings s0 then mp_input_find_bind_for_key def_cmd_binds keys else None)"
    using file_look_up [OF assms(1,2)]
    by (simp add: bound_cmd_def s' Let_def look_up_def [symmetric] first_some_def split: option.split)
  show "default_bindings s = default_bindings s0" and "pausing_default s = pausing_default s0"
    and "key_down s = key_down s0" and "mp_input_key_cb s = mp_input_key_cb s0"
    by (simp_all add: s')
qed

end
