(* ===== verification/Input_Lines.thy ===== *)
theory Input_Lines
  imports Input_Config
begin

text \<open>
  The drivers of the input layer and the reading of command lines (\<^verbatim>\<open>input/input.c\<close>):
  \<^verbatim>\<open>mp_input_read_cmd\<close> collects what a driver gives in a buffer of 4096 bytes and hands out one line
  at a time. What it needs of the driver is the locale \<open>line_source\<close>, under which every call is
  accounted for; the driver of the file itself, \<^verbatim>\<open>mp_input_default_cmd_func\<close> above \<^verbatim>\<open>read\<close>, is an
  interpretation.
\<close>

subsection \<open>Drivers\<close>

text \<open>
  The error codes of the drivers are the constructors of \<open>input_error\<close>. A driver's read function is
  one of three kinds, over the state \<open>'w\<close> of the world: a key driver gives a key or an error
  code, an event handler puts keys into the key queue or commands into the command queue, and a
  command driver gives text or an error; the text may be empty (end of file) and is never longer
  than the room it was given.
\<close>

datatype input_error = MP_INPUT_ERROR | MP_INPUT_DEAD | MP_INPUT_NOTHING_AVAILABLE | MP_INPUT_RETRY

datatype ui_event = Ui_key u32 c_int | Ui_cmd mp_cmd

datatype 'w read_func =
    Key_func "int \<Rightarrow> 'w \<Rightarrow> (input_error + c_int) \<times> 'w"
  | Event_func "'w \<Rightarrow> ui_event list \<times> 'w"
  | Cmd_func "int \<Rightarrow> nat \<Rightarrow> 'w \<Rightarrow> (input_error + string) \<times> 'w"

text \<open>
  The struct \<^verbatim>\<open>mp_input_fd\<close>; \<open>fd_buffer\<close> is the first \<^verbatim>\<open>pos\<close> bytes of the buffer. A close
  function that is NULL is \<^term>\<open>None\<close>.
\<close>

record 'w mp_input_fd =
  fd_num :: int
  fd_read :: "'w read_func"
  fd_close :: "(int \<Rightarrow> 'w \<Rightarrow> 'w) option"
  fd_eof :: bool
  fd_drop :: bool
  fd_dead :: bool
  fd_got_cmd :: bool
  fd_no_select :: bool
  fd_no_retval :: bool
  fd_buffer :: string

definition MP_CMD_MAX_SIZE :: nat where "MP_CMD_MAX_SIZE = 4096"

text \<open>One read, again after \<^verbatim>\<open>MP_INPUT_RETRY\<close>: \<^term>\<open>None\<close> when the driver asks for that for ever.\<close>

partial_function (option) read_some ::
    "(nat \<Rightarrow> 'w \<Rightarrow> (input_error + string) \<times> 'w) \<Rightarrow> nat \<Rightarrow> 'w \<Rightarrow> ((input_error + string) \<times> 'w) option" where
  "read_some f room w = (case f room w of
       (Inl e, v) \<Rightarrow> if e = MP_INPUT_RETRY then read_some f room v else Some (Inl e, v)
     | (Inr d, v) \<Rightarrow> Some (Inr d, v))"

subsection \<open>Splitting off a line\<close>

fun fix_cr :: "string \<Rightarrow> string" where
  "fix_cr [] = []"
| "fix_cr (c # s) = (if c = CHR 0x0D then CHR 0x0A # s else c # fix_cr s)"

text \<open>
  The buffer after the first carriage return was made a newline, and where its first newline is;
  both searches stop at a NUL.
\<close>

definition end_of_line :: "string \<Rightarrow> string \<times> nat option" where
  "end_of_line buf =
     (let b = fix_cr (c_str buf) @ drop (length (c_str buf)) buf in (b, strstr (c_str b) [CHR 0x0A]))"

text \<open>
  The loop: the line, if there is one, the flags \<^verbatim>\<open>got_cmd\<close> and \<^verbatim>\<open>drop\<close>, and the buffer. \<open>ret\<close> is
  the line found in an earlier round; a second line sets \<^verbatim>\<open>got_cmd\<close> and stays.
\<close>

lemma fix_cr_length [simp]: "length (fix_cr s) = length s"
  by (induction s) auto

lemma strstr_less: "strstr s [c] = Some k \<Longrightarrow> k < length s"
  using strstr_Some [of s "[c]" k] by (auto simp: drop_eq_Nil [symmetric] simp del: drop_eq_Nil intro: ccontr)

lemma end_of_line_shorter:
  assumes eq: "(b, y) = end_of_line buf" "y = Some k"
  shows "length (drop (Suc k) b) < length buf"
proof -
  have assms: "end_of_line buf = (b, Some k)" using eq by simp
  have b: "length b = length buf" and k: "k < length (c_str b)"
    using assms strstr_less by (auto simp: end_of_line_def Let_def c_str_def length_takeWhile_le)
  have "length (c_str b) \<le> length b" by (simp add: c_str_def length_takeWhile_le)
  with b k show ?thesis by simp
qed

function cmd_lines :: "bool \<Rightarrow> string \<Rightarrow> string option \<Rightarrow> string option \<times> bool \<times> bool \<times> string" where
  "cmd_lines drp buf ret = (case end_of_line buf of
       (b, None) \<Rightarrow> if MP_CMD_MAX_SIZE - length b \<le> 1 then (ret, False, True, []) else (ret, False, drp, b)
     | (b, Some k) \<Rightarrow>
         if ret \<noteq> None then (ret, True, drp, b)
         else if \<not> drp then cmd_lines drp (drop (Suc k) b) (Some (take k b))
         else cmd_lines False (drop (Suc k) b) None)"
  by auto

termination
  by (relation "measure (\<lambda>(drp, buf, ret). length buf)")
    (simp_all only: wf_measure in_measure split_conv end_of_line_shorter)

declare cmd_lines.simps [simp del]

text \<open>
  \<^verbatim>\<open>mp_input_read_cmd\<close>: a line, or an error code, with the driver and the world after the call.
\<close>

definition hand_out :: "'w mp_input_fd \<Rightarrow> (input_error + string) \<times> 'w mp_input_fd" where
  "hand_out fd = (case cmd_lines (fd_drop fd) (fd_buffer fd) None of
     (ret, got, drp, buf) \<Rightarrow>
       ((case ret of None \<Rightarrow> Inl MP_INPUT_NOTHING_AVAILABLE | Some l \<Rightarrow> Inr l),
        fd\<lparr>fd_got_cmd := got, fd_drop := drp, fd_buffer := buf\<rparr>))"

definition mp_input_read_cmd :: "(nat \<Rightarrow> 'w \<Rightarrow> (input_error + string) \<times> 'w) \<Rightarrow> 'w mp_input_fd \<Rightarrow> 'w
    \<Rightarrow> ((input_error + string) \<times> 'w mp_input_fd \<times> 'w) option" where
  "mp_input_read_cmd f fd w =
     (let room = MP_CMD_MAX_SIZE - 1 - length (fd_buffer fd) in
      if \<not> fd_got_cmd fd \<and> \<not> fd_eof fd \<and> 0 < room then
        (case read_some f room w of
           None \<Rightarrow> None
         | Some (Inl e, v) \<Rightarrow> Some (Inl e, fd, v)
         | Some (Inr d, v) \<Rightarrow>
             let fd' = (if d = [] then fd\<lparr>fd_eof := True\<rparr> else fd\<lparr>fd_buffer := fd_buffer fd @ d\<rparr>)
             in Some (case hand_out fd' of (r, fd'') \<Rightarrow> (r, fd'', v)))
      else Some (case hand_out fd of (r, fd') \<Rightarrow> (r, fd', w)))"

subsection \<open>Lines of a text\<close>

definition line_end :: "char \<Rightarrow> bool" where
  "line_end c \<longleftrightarrow> c = CHR 0x0A \<or> c = CHR 0x0D"

fun lines_acc :: "string \<Rightarrow> string \<Rightarrow> string list" where
  "lines_acc cur [] = []"
| "lines_acc cur (c # s) = (if line_end c then cur # lines_acc [] s else lines_acc (cur @ [c]) s)"

definition complete_lines :: "string \<Rightarrow> string list" where
  "complete_lines t = lines_acc [] t"

text \<open>
  The lines that are due: those that fit the buffer with their end. With the flag \<^verbatim>\<open>drop\<close> the
  text begins inside a line that does not.
\<close>

definition due_lines :: "bool \<Rightarrow> string \<Rightarrow> string list" where
  "due_lines drp t = filter (\<lambda>l. length l < MP_CMD_MAX_SIZE - 1)
     (if drp then tl (complete_lines t) else complete_lines t)"

definition newlines :: "string \<Rightarrow> string" where
  "newlines t = map (\<lambda>c. if c = CHR 0x0D then CHR 0x0A else c) t"

lemma lines_acc_newlines: "lines_acc cur (newlines t) = lines_acc cur t"
  by (induction t arbitrary: cur) (auto simp: newlines_def line_end_def)

lemma newlines_append [simp]: "newlines (s @ t) = newlines s @ newlines t"
  by (simp add: newlines_def)

lemma newlines_fix_cr [simp]: "newlines (fix_cr s) = newlines s"
  by (induction s) (auto simp: newlines_def)

lemma complete_lines_cong: "newlines s = newlines t \<Longrightarrow> complete_lines s = complete_lines t"
  by (metis complete_lines_def lines_acc_newlines)

lemma due_lines_cong: "newlines s = newlines t \<Longrightarrow> due_lines d s = due_lines d t"
  using complete_lines_cong [of s t] by (simp add: due_lines_def)

lemma lines_acc_word: "\<forall>c \<in> set x. \<not> line_end c \<Longrightarrow> lines_acc cur (x @ t) = lines_acc (cur @ x) t"
  by (induction x arbitrary: cur) auto

lemma complete_lines_first:
  "\<forall>c \<in> set x. \<not> line_end c \<Longrightarrow> line_end c \<Longrightarrow> complete_lines (x @ c # t) = x # complete_lines t"
  by (simp add: complete_lines_def lines_acc_word)

lemma complete_lines_none: "\<forall>c \<in> set x. \<not> line_end c \<Longrightarrow> complete_lines x = []"
  using lines_acc_word [of x "[]" "[]"] by (simp add: complete_lines_def)

lemma lines_acc_cases:
  obtains "\<forall>c \<in> set t. \<not> line_end c" | x c s where "t = x @ c # s" "\<forall>c \<in> set x. \<not> line_end c" "line_end c"
  by (metis split_list_first_prop)

text \<open>A line that fills the buffer is not due, whatever follows.\<close>

lemma due_lines_full:
  assumes b: "\<forall>c \<in> set b. \<not> line_end c" and len: "MP_CMD_MAX_SIZE - length b \<le> 1"
  shows "due_lines d (b @ t) = due_lines True t"
proof (cases rule: lines_acc_cases [of t])
  case 1
  have "complete_lines (b @ t) = []" "complete_lines t = []"
    using complete_lines_none [of "b @ t"] complete_lines_none [of t] 1 b by auto
  then show ?thesis by (simp add: due_lines_def)
next
  case (2 x c s)
  have "complete_lines (b @ t) = (b @ x) # complete_lines s"
    using 2 b complete_lines_first [of "b @ x" c s] by auto
  moreover have "complete_lines t = x # complete_lines s" using 2 complete_lines_first by blast
  moreover have "\<not> length (b @ x) < MP_CMD_MAX_SIZE - 1" using len by simp
  ultimately show ?thesis by (simp add: due_lines_def)
qed

subsection \<open>Handing out\<close>

lemma fix_cr_None: "strstr (fix_cr b) [CHR 0x0A] = None \<Longrightarrow> (\<forall>c \<in> set b. \<not> line_end c) \<and> fix_cr b = b"
  by (induction b) (auto simp: line_end_def split: if_splits)

lemma fix_cr_Some:
  "strstr (fix_cr b) [CHR 0x0A] = Some k \<Longrightarrow>
   \<exists>l c r. b = l @ c # r \<and> line_end c \<and> (\<forall>c \<in> set l. \<not> line_end c) \<and> take k (fix_cr b) = l
     \<and> newlines (drop (Suc k) (fix_cr b)) = newlines r"
proof (induction b arbitrary: k)
  case Nil
  then show ?case by simp
next
  case (Cons a b)
  show ?case
  proof (cases "line_end a")
    case True
    then have "k = 0" using Cons.prems by (auto simp: line_end_def split: if_splits)
    moreover have "newlines (drop 1 (fix_cr (a # b))) = newlines b" by simp
    ultimately show ?thesis
      using True by (intro exI [of _ "[]"] exI [of _ a] exI [of _ b]) simp
  next
    case False
    then obtain j where j: "k = Suc j" "strstr (fix_cr b) [CHR 0x0A] = Some j"
      using Cons.prems by (auto simp: line_end_def split: if_splits)
    obtain l c r where "b = l @ c # r" "line_end c" "\<forall>c \<in> set l. \<not> line_end c" "take j (fix_cr b) = l"
      "newlines (drop (Suc j) (fix_cr b)) = newlines r"
      using Cons.IH [OF j(2)] by blast
    moreover have "fix_cr (a # b) = a # fix_cr b" using False by (simp add: line_end_def)
    ultimately show ?thesis
      using False j(1) by (intro exI [of _ "a # l"] exI [of _ c] exI [of _ r]) simp
  qed
qed

lemma fix_cr_plain: "CHR 0x00 \<notin> set s \<Longrightarrow> CHR 0x00 \<notin> set (fix_cr s)"
  by (induction s) auto

lemma end_of_line_plain:
  "CHR 0x00 \<notin> set b \<Longrightarrow> end_of_line b = (fix_cr b, strstr (fix_cr b) [CHR 0x0A])"
  by (simp add: end_of_line_def c_str_plain fix_cr_plain Let_def)

definition has_line :: "string \<Rightarrow> bool" where
  "has_line b \<longleftrightarrow> list_ex line_end b"

lemma has_line_cong: "newlines s = newlines t \<Longrightarrow> has_line s = has_line t"
proof -
  have "has_line (newlines u) = has_line u" for u
    by (auto simp: has_line_def newlines_def line_end_def list_ex_iff)
  then show "newlines s = newlines t \<Longrightarrow> has_line s = has_line t" by metis
qed

definition given :: "string option \<Rightarrow> string list" where
  "given ret = (case ret of None \<Rightarrow> [] | Some l \<Rightarrow> [l])"

text \<open>
  Every line that is due is handed out, kept in the buffer, or still ahead, in this order, and no
  other line is handed out.
\<close>

lemma cmd_lines_due:
  "cmd_lines d b ret = (ret', got, d', b') \<Longrightarrow> CHR 0x00 \<notin> set b \<Longrightarrow> length b < MP_CMD_MAX_SIZE \<Longrightarrow>
   given ret @ due_lines d (b @ t) = given ret' @ due_lines d' (b' @ t)
   \<and> CHR 0x00 \<notin> set b' \<and> length b' \<le> length b \<and> got = has_line b' \<and> (got \<longrightarrow> ret' \<noteq> None)
   \<and> (\<not> got \<longrightarrow> length b' < MP_CMD_MAX_SIZE - 1) \<and> (has_line b \<and> ret = None \<longrightarrow> length b' < length b)
   \<and> (got \<longrightarrow> has_line b)"
proof (induction d b ret rule: cmd_lines.induct)
  case (1 d b ret)
  have eol: "end_of_line b = (fix_cr b, strstr (fix_cr b) [CHR 0x0A])"
    using 1(4) by (rule end_of_line_plain)
  show ?case
  proof (cases "strstr (fix_cr b) [CHR 0x0A]")
    case None
    then have n: "\<forall>c \<in> set b. \<not> line_end c" "fix_cr b = b" using fix_cr_None by auto
    then have hl: "\<not> has_line b" "\<not> has_line []" by (simp_all add: has_line_def list_ex_iff)
    show ?thesis
    proof (cases "MP_CMD_MAX_SIZE - length b \<le> 1")
      case True
      have "(ret', got, d', b') = (ret, False, True, [])"
        using 1(3) True None n(2) by (subst (asm) cmd_lines.simps) (simp add: eol)
      then show ?thesis
        using hl due_lines_full [OF n(1) True] by (simp add: MP_CMD_MAX_SIZE_def)
    next
      case False
      have "(ret', got, d', b') = (ret, False, d, b)"
        using 1(3) False None n(2) by (subst (asm) cmd_lines.simps) (simp add: eol)
      then show ?thesis using False hl 1(4) by simp
    qed
  next
    case (Some k)
    then obtain l c r where l: "b = l @ c # r" "line_end c" "\<forall>c \<in> set l. \<not> line_end c"
      "take k (fix_cr b) = l" "newlines (drop (Suc k) (fix_cr b)) = newlines r"
      using fix_cr_Some by blast
    let ?r = "drop (Suc k) (fix_cr b)"
    have hl: "has_line b" using l by (simp add: has_line_def)
    have rt: "newlines (?r @ t) = newlines (r @ t)" using l(5) by simp
    have len_r: "length ?r = length r" using arg_cong [OF l(5), of length] by (simp add: newlines_def)
    have plain_r: "CHR 0x00 \<notin> set ?r" using fix_cr_plain [OF 1(4)] by (auto dest: in_set_dropD)
    have small: "length ?r < MP_CMD_MAX_SIZE" "length ?r < length b" using len_r l(1) 1(5) by auto
    have first: "complete_lines (b @ t) = l # complete_lines (?r @ t)"
      using complete_lines_first [OF l(3,2), of "r @ t"] complete_lines_cong [OF rt] l(1) by simp
    show ?thesis
    proof (cases ret)
      case (Some x)
      have "(ret', got, d', b') = (ret, True, d, fix_cr b)"
        using 1(3) \<open>strstr (fix_cr b) [CHR 0x0A] = Some k\<close> Some by (subst (asm) cmd_lines.simps) (simp add: eol)
      then show ?thesis
        using Some hl fix_cr_plain [OF 1(4)] due_lines_cong [of "b @ t" "fix_cr b @ t"]
          has_line_cong [of b "fix_cr b"] by simp
    next
      case None
      show ?thesis
      proof (cases d)
        case False
        have rec: "cmd_lines d ?r (Some l) = (ret', got, d', b')"
          using 1(3) \<open>strstr (fix_cr b) [CHR 0x0A] = Some k\<close> None False l(4)
          by (subst (asm) cmd_lines.simps) (simp add: eol)
        have "given (Some l) @ due_lines d (?r @ t) = given ret' @ due_lines d' (b' @ t)
           \<and> CHR 0x00 \<notin> set b' \<and> length b' \<le> length ?r \<and> got = has_line b' \<and> (got \<longrightarrow> ret' \<noteq> None)
           \<and> (\<not> got \<longrightarrow> length b' < MP_CMD_MAX_SIZE - 1)"
          using 1(1) [OF eol [symmetric] Some] None False rec plain_r small l(4) by simp
        moreover have "length l < MP_CMD_MAX_SIZE - 1" using 1(5) l(1) by simp
        ultimately show ?thesis
          using first None False small(2) hl by (simp add: due_lines_def given_def)
      next
        case True
        have rec: "cmd_lines False ?r None = (ret', got, d', b')"
          using 1(3) \<open>strstr (fix_cr b) [CHR 0x0A] = Some k\<close> None True
          by (subst (asm) cmd_lines.simps) (simp add: eol)
        have "given None @ due_lines False (?r @ t) = given ret' @ due_lines d' (b' @ t)
           \<and> CHR 0x00 \<notin> set b' \<and> length b' \<le> length ?r \<and> got = has_line b' \<and> (got \<longrightarrow> ret' \<noteq> None)
           \<and> (\<not> got \<longrightarrow> length b' < MP_CMD_MAX_SIZE - 1)"
          using 1(2) [OF eol [symmetric] Some] None True rec plain_r small by simp
        then show ?thesis
          using first None True small(2) hl by (simp add: due_lines_def given_def)
      qed
    qed
  qed
qed

subsection \<open>What the reader needs of a driver\<close>

text \<open>
  \<open>ahead\<close> is the text that the driver will give and \<open>size\<close> bounds the calls it takes. The laws say
  that what is read comes off the front of it, that an error loses nothing, and that a driver with
  nothing left does not ask to be called again.
\<close>

locale line_source =
  fixes read :: "nat \<Rightarrow> 'w \<Rightarrow> (input_error + string) \<times> 'w"
    and ok :: "'w \<Rightarrow> bool"
    and ahead :: "'w \<Rightarrow> string"
    and size :: "'w \<Rightarrow> nat"
  assumes read_data: "ok w \<Longrightarrow> 0 < n \<Longrightarrow> read n w = (Inr d, v) \<Longrightarrow>
      ahead w = d @ ahead v \<and> length d \<le> n \<and> size v + length d \<le> size w \<and> (d = [] \<longrightarrow> size v = 0)"
    and read_error: "ok w \<Longrightarrow> 0 < n \<Longrightarrow> read n w = (Inl e, v) \<Longrightarrow> ahead v = ahead w"
    and read_ok: "ok w \<Longrightarrow> 0 < n \<Longrightarrow> read n w = (r, v) \<Longrightarrow> ok v"
    and read_size: "ok w \<Longrightarrow> 0 < n \<Longrightarrow> read n w = (r, v) \<Longrightarrow> size v < size w \<or> size v = 0 \<and> size w = 0"
    and at_end: "ok w \<Longrightarrow> size w = 0 \<Longrightarrow> ahead w = []"
    and end_read: "ok w \<Longrightarrow> 0 < n \<Longrightarrow> size w = 0 \<Longrightarrow> read n w \<noteq> (Inl MP_INPUT_RETRY, v)"
    and no_nul: "ok w \<Longrightarrow> CHR 0x00 \<notin> set (ahead w)"
begin

text \<open>What the reader sees of a driver after the repeated calls.\<close>

definition read_result :: "nat \<Rightarrow> 'w \<Rightarrow> input_error + string \<Rightarrow> 'w \<Rightarrow> bool" where
  "read_result n w r v \<longleftrightarrow> ok v \<and> (size v < size w \<or> size v = 0 \<and> size w = 0)
    \<and> (case r of Inl e \<Rightarrow> ahead v = ahead w
       | Inr d \<Rightarrow> ahead w = d @ ahead v \<and> length d \<le> n \<and> size v + length d \<le> size w \<and> (d = [] \<longrightarrow> size v = 0))"

lemma read_result_once:
  assumes "ok w" and "0 < n" and "read n w = (r, v)"
  shows "read_result n w r v"
proof (cases r)
  case (Inl e)
  then show ?thesis
    using read_ok [OF assms] read_size [OF assms] read_error [of w n e v] assms by (simp add: read_result_def)
next
  case (Inr d)
  then show ?thesis
    using read_ok [OF assms] read_size [OF assms] read_data [of w n d v] assms by (auto simp: read_result_def)
qed

lemma read_result_trans:
  assumes "read_result n w (Inl e) v" and "read_result n v r u"
  shows "read_result n w r u"
  using assms by (cases r) (auto simp: read_result_def)

lemma read_some_returns:
  assumes "ok w" and "0 < n"
  shows "\<exists>r v. read_some read n w = Some (r, v) \<and> read_result n w r v"
  using assms(1)
proof (induction "size w" arbitrary: w rule: less_induct)
  case less
  obtain r v where rv: "read n w = (r, v)" by (cases "read n w")
  have once: "read_result n w r v" using less.prems assms(2) rv by (rule read_result_once)
  show ?case
  proof (cases "r = Inl MP_INPUT_RETRY")
    case False
    then have "read_some read n w = Some (r, v)"
      by (subst read_some.simps) (auto simp: rv split: sum.split)
    with once show ?thesis by blast
  next
    case True
    then have step: "read_some read n w = read_some read n v"
      by (subst read_some.simps) (simp add: rv)
    have "size w \<noteq> 0" using end_read [OF less.prems assms(2)] rv True by auto
    then have "size v < size w" "ok v" using once by (auto simp: read_result_def)
    then obtain r' u where "read_some read n v = Some (r', u)" "read_result n v r' u"
      using less.hyps by blast
    with step show ?thesis using read_result_trans once True by fastforce
  qed
qed

definition reader_inv :: "'w mp_input_fd \<Rightarrow> 'w \<Rightarrow> bool" where
  "reader_inv fd w \<longleftrightarrow> ok w \<and> CHR 0x00 \<notin> set (fd_buffer fd) \<and> length (fd_buffer fd) < MP_CMD_MAX_SIZE
     \<and> fd_got_cmd fd = has_line (fd_buffer fd)
     \<and> (\<not> fd_got_cmd fd \<longrightarrow> length (fd_buffer fd) < MP_CMD_MAX_SIZE - 1) \<and> (fd_eof fd \<longrightarrow> size w = 0)"

definition due :: "'w mp_input_fd \<Rightarrow> 'w \<Rightarrow> string list" where
  "due fd w = due_lines (fd_drop fd) (fd_buffer fd @ ahead w)"

definition handed :: "input_error + string \<Rightarrow> string list" where
  "handed r = (case r of Inl e \<Rightarrow> [] | Inr l \<Rightarrow> [l])"

definition finished :: "'w mp_input_fd \<Rightarrow> 'w \<Rightarrow> bool" where
  "finished fd w \<longleftrightarrow> size w = 0 \<and> \<not> fd_got_cmd fd"

definition work :: "'w mp_input_fd \<Rightarrow> 'w \<Rightarrow> nat" where
  "work fd w = 2 * size w + length (fd_buffer fd)"

lemma hand_out_due:
  assumes "ok w" and "CHR 0x00 \<notin> set (fd_buffer fd)" and "length (fd_buffer fd) < MP_CMD_MAX_SIZE"
    and "hand_out fd = (r, fd')" and "fd_eof fd \<longrightarrow> size w = 0"
  shows "reader_inv fd' w" and "due fd w = handed r @ due fd' w"
    and "length (fd_buffer fd') \<le> length (fd_buffer fd)"
    and "has_line (fd_buffer fd) \<Longrightarrow> length (fd_buffer fd') < length (fd_buffer fd)"
    and "\<not> has_line (fd_buffer fd) \<Longrightarrow> \<not> fd_got_cmd fd'"
proof -
  obtain ret got d b where lines: "cmd_lines (fd_drop fd) (fd_buffer fd) None = (ret, got, d, b)"
    by (metis prod_cases4)
  have r: "r = (case ret of None \<Rightarrow> Inl MP_INPUT_NOTHING_AVAILABLE | Some l \<Rightarrow> Inr l)"
    "fd' = fd\<lparr>fd_got_cmd := got, fd_drop := d, fd_buffer := b\<rparr>"
    using assms(4) lines by (simp_all add: hand_out_def)
  have "given ret = handed r" by (cases ret) (simp_all add: r given_def handed_def)
  note c = cmd_lines_due [OF lines assms(2,3), of "ahead w"] this
  show "reader_inv fd' w" using c r assms by (auto simp: reader_inv_def MP_CMD_MAX_SIZE_def)
  show "due fd w = handed r @ due fd' w" using c r by (simp add: due_def given_def)
  show "length (fd_buffer fd') \<le> length (fd_buffer fd)" using c r by simp
  show "has_line (fd_buffer fd) \<Longrightarrow> length (fd_buffer fd') < length (fd_buffer fd)" using c r by simp
  show "\<not> has_line (fd_buffer fd) \<Longrightarrow> \<not> fd_got_cmd fd'" using c r by auto
qed

lemma read_cmd_due:
  assumes inv: "reader_inv fd w"
  shows "\<exists>r fd' v. mp_input_read_cmd read fd w = Some (r, fd', v) \<and> reader_inv fd' v
    \<and> due fd w = handed r @ due fd' v
    \<and> (if finished fd w then finished fd' v else work fd' v < work fd w)"
proof -
  have ok: "ok w" and plain: "CHR 0x00 \<notin> set (fd_buffer fd)" and len: "length (fd_buffer fd) < MP_CMD_MAX_SIZE"
    and got: "fd_got_cmd fd = has_line (fd_buffer fd)" and eof: "fd_eof fd \<longrightarrow> size w = 0"
    using inv by (auto simp: reader_inv_def)
  show ?thesis
  proof (cases "fd_got_cmd fd \<or> fd_eof fd")
    case True
    obtain r fd' where ho: "hand_out fd = (r, fd')" by (cases "hand_out fd")
    note h = hand_out_due [OF ok plain len ho eof]
    have "mp_input_read_cmd read fd w = Some (r, fd', w)"
      using True ho by (auto simp: mp_input_read_cmd_def)
    moreover have "if finished fd w then finished fd' w else work fd' w < work fd w"
      using h(4,5) got eof True by (auto simp: finished_def work_def)
    ultimately show ?thesis using h by blast
  next
    case False
    let ?room = "MP_CMD_MAX_SIZE - 1 - length (fd_buffer fd)"
    have room: "0 < ?room" using inv False by (simp add: reader_inv_def less_diff_conv)
    obtain r v where rs: "read_some read ?room w = Some (r, v)" and res: "read_result ?room w r v"
      using read_some_returns [OF ok room] by blast
    have v: "ok v" "size v < size w \<or> size v = 0 \<and> size w = 0" using res by (auto simp: read_result_def)
    show ?thesis
    proof (cases r)
      case (Inl e)
      have "mp_input_read_cmd read fd w = Some (Inl e, fd, v)"
        using False room rs Inl by (simp add: mp_input_read_cmd_def)
      moreover have "reader_inv fd v" "due fd w = handed (Inl e) @ due fd v"
        using res inv Inl False by (auto simp: read_result_def reader_inv_def due_def handed_def)
      ultimately show ?thesis using v False by (auto simp: finished_def work_def)
    next
      case (Inr d)
      define fd1 where "fd1 = (if d = [] then fd\<lparr>fd_eof := True\<rparr> else fd\<lparr>fd_buffer := fd_buffer fd @ d\<rparr>)"
      obtain q fd' where ho: "hand_out fd1 = (q, fd')" by (cases "hand_out fd1")
      have d: "ahead w = d @ ahead v" "length d \<le> ?room" "size v + length d \<le> size w" "d = [] \<longrightarrow> size v = 0"
        using res Inr by (auto simp: read_result_def)
      have buf: "fd_buffer fd1 = fd_buffer fd @ d" "fd_drop fd1 = fd_drop fd" by (simp_all add: fd1_def)
      have plain1: "CHR 0x00 \<notin> set (fd_buffer fd1)" using plain no_nul [OF ok] d(1) buf by auto
      have len1: "length (fd_buffer fd1) < MP_CMD_MAX_SIZE" using d(2) room buf by simp
      have eof1: "fd_eof fd1 \<longrightarrow> size v = 0" using d(4) False by (simp add: fd1_def)
      note h = hand_out_due [OF v(1) plain1 len1 ho eof1]
      have "mp_input_read_cmd read fd w = Some (q, fd', v)"
        using False room rs Inr ho by (simp add: mp_input_read_cmd_def fd1_def Let_def)
      moreover have "due fd w = due fd1 v" using d(1) buf by (simp add: due_def)
      moreover have "if finished fd w then finished fd' v else work fd' v < work fd w"
      proof (cases "size w = 0")
        case True
        then have "d = []" using d(3) by simp
        then have "\<not> has_line (fd_buffer fd1)" using buf got False by simp
        with h(5) True v(2) False show ?thesis by (simp add: finished_def)
      next
        case pos: False
        have "length (fd_buffer fd') \<le> length (fd_buffer fd) + length d" using h(3) buf by simp
        then have "work fd' v < work fd w" using d(3) v(2) pos by (simp add: work_def)
        with pos show ?thesis by (simp add: finished_def)
      qed
      ultimately show ?thesis using h by metis
    qed
  qed
qed

text \<open>Calls in a row, and the lines they handed out.\<close>

lemma finished_due: "reader_inv fd w \<Longrightarrow> finished fd w \<Longrightarrow> due fd w = []"
  using at_end [of w] complete_lines_none [of "fd_buffer fd"]
  by (auto simp: reader_inv_def finished_def due_def due_lines_def has_line_def list_ex_iff)

end

fun read_lines :: "(nat \<Rightarrow> 'w \<Rightarrow> (input_error + string) \<times> 'w) \<Rightarrow> nat \<Rightarrow> 'w mp_input_fd \<Rightarrow> 'w
    \<Rightarrow> (string list \<times> 'w mp_input_fd \<times> 'w) option" where
  "read_lines f 0 fd w = Some ([], fd, w)"
| "read_lines f (Suc n) fd w = (case mp_input_read_cmd f fd w of
       None \<Rightarrow> None
     | Some (r, fd', v) \<Rightarrow> map_option (\<lambda>(ls, x). (case r of Inl e \<Rightarrow> ls | Inr l \<Rightarrow> l # ls, x)) (read_lines f n fd' v))"

context line_source
begin

lemma read_lines_due:
  "reader_inv fd w \<Longrightarrow> \<exists>ls fd' v. read_lines read n fd w = Some (ls, fd', v) \<and> reader_inv fd' v
    \<and> due fd w = ls @ due fd' v \<and> (work fd w \<le> n \<longrightarrow> finished fd' v) \<and> (finished fd w \<longrightarrow> finished fd' v)"
proof (induction n arbitrary: fd w)
  case 0
  then have "work fd w = 0 \<Longrightarrow> finished fd w"
    by (simp add: work_def finished_def reader_inv_def has_line_def)
  with 0 show ?case by simp
next
  case (Suc n)
  from read_cmd_due [OF Suc.prems] obtain r fd' v where
    call: "mp_input_read_cmd read fd w = Some (r, fd', v)" "reader_inv fd' v" "due fd w = handed r @ due fd' v"
    "if finished fd w then finished fd' v else work fd' v < work fd w"
    by blast
  from Suc.IH [OF call(2)] obtain ls fd'' u where
    rest: "read_lines read n fd' v = Some (ls, fd'', u)" "reader_inv fd'' u" "due fd' v = ls @ due fd'' u"
    "work fd' v \<le> n \<longrightarrow> finished fd'' u" "finished fd' v \<longrightarrow> finished fd'' u"
    by blast
  have lines: "read_lines read (Suc n) fd w = Some (handed r @ ls, fd'', u)"
    using call(1) rest(1) by (cases r) (simp_all add: handed_def)
  have "work fd w \<le> Suc n \<longrightarrow> finished fd'' u" "finished fd w \<longrightarrow> finished fd'' u"
    using call(4) rest(4,5) by (auto split: if_splits)
  with lines rest(2,3) call(3) show ?case by simp
qed

text \<open>Enough calls hand out exactly the lines that are due.\<close>

lemma read_lines_all:
  assumes "reader_inv fd w" and "work fd w \<le> n"
  shows "\<exists>fd' v. read_lines read n fd w = Some (due fd w, fd', v)"
  using read_lines_due [OF assms(1), of n] finished_due assms(2) by auto

end

subsection \<open>The driver of a file descriptor\<close>

text \<open>
  What the system calls \<^verbatim>\<open>read\<close> on a descriptor will do, in order: give text, be interrupted by a
  signal (\<^verbatim>\<open>EINTR\<close>), have nothing now (\<^verbatim>\<open>EAGAIN\<close>), or fail. When the list is used up the descriptor is
  at its end, or, while the other side is open, has nothing for ever.
\<close>

datatype read_event = Text string | Interrupted | Again | Failed

record descriptor =
  events :: "read_event list"
  closed :: bool

definition sys_read :: "nat \<Rightarrow> string \<Rightarrow> read_event list \<Rightarrow> string \<times> read_event list" where
  "sys_read room s es = (if length s \<le> room then (s, es) else (take room s, Text (drop room s) # es))"

fun default_read :: "bool \<Rightarrow> nat \<Rightarrow> read_event list \<Rightarrow> (input_error + string) \<times> read_event list" where
  "default_read end room [] = (if end then Inr [] else Inl MP_INPUT_NOTHING_AVAILABLE, [])"
| "default_read end room (Interrupted # es) = default_read end room es"
| "default_read end room (Again # es) = (Inl MP_INPUT_NOTHING_AVAILABLE, es)"
| "default_read end room (Failed # es) = (Inl MP_INPUT_ERROR, es)"
| "default_read end room (Text s # es) = (case sys_read room s es of (t, es) \<Rightarrow> (Inr t, es))"

definition mp_input_default_cmd_func :: "nat \<Rightarrow> descriptor \<Rightarrow> (input_error + string) \<times> descriptor" where
  "mp_input_default_cmd_func room d = (case default_read (closed d) room (events d) of
     (r, es) \<Rightarrow> (r, d\<lparr>events := es\<rparr>))"

fun event_text :: "read_event \<Rightarrow> string" where
  "event_text (Text s) = s"
| "event_text Interrupted = []"
| "event_text Again = []"
| "event_text Failed = []"

definition descriptor_ok :: "descriptor \<Rightarrow> bool" where
  "descriptor_ok d \<longleftrightarrow> list_all (\<lambda>e. e \<noteq> Text [] \<and> CHR 0x00 \<notin> set (event_text e)) (events d)"

definition descriptor_text :: "descriptor \<Rightarrow> string" where
  "descriptor_text d = concat (map event_text (events d))"

definition descriptor_size :: "descriptor \<Rightarrow> nat" where
  "descriptor_size d = length (descriptor_text d) + length (events d)"

lemma default_read_props:
  assumes "list_all (\<lambda>e. e \<noteq> Text [] \<and> CHR 0x00 \<notin> set (event_text e)) es" and "0 < room"
    and "default_read end room es = (r, fs)"
  defines "text \<equiv> \<lambda>es. concat (map event_text es)"
  shows "list_all (\<lambda>e. e \<noteq> Text [] \<and> CHR 0x00 \<notin> set (event_text e)) fs
    \<and> (case r of Inl e \<Rightarrow> text fs = text es \<and> e \<noteq> MP_INPUT_RETRY
       | Inr d \<Rightarrow> text es = d @ text fs \<and> length d \<le> room \<and> (d = [] \<longrightarrow> fs = []) \<and> length fs \<le> length es)
    \<and> (length (text fs) + length fs < length (text es) + length es \<or> fs = [] \<and> es = [])"
  using assms(1-3) unfolding text_def
proof (induction "end" room es rule: default_read.induct)
  case (5 "end" room s es)
  have "CHR 0x00 \<notin> set s" using 5(1) by simp
  then have "CHR 0x00 \<notin> set (drop room s)" by (meson in_set_dropD)
  with 5 show ?case by (auto simp: sys_read_def list_all_iff split: if_splits)
qed (auto split: if_splits sum.splits)

lemma default_cmd_props:
  assumes "descriptor_ok d" and "0 < room" and "mp_input_default_cmd_func room d = (r, v)"
  shows "descriptor_ok v
    \<and> (case r of Inl e \<Rightarrow> descriptor_text v = descriptor_text d \<and> e \<noteq> MP_INPUT_RETRY
       | Inr t \<Rightarrow> descriptor_text d = t @ descriptor_text v \<and> length t \<le> room
           \<and> descriptor_size v + length t \<le> descriptor_size d \<and> (t = [] \<longrightarrow> descriptor_size v = 0))
    \<and> (descriptor_size v < descriptor_size d \<or> descriptor_size v = 0 \<and> descriptor_size d = 0)"
proof -
  obtain fs where es: "default_read (closed d) room (events d) = (r, fs)" "v = d\<lparr>events := fs\<rparr>"
    using assms(3) by (auto simp: mp_input_default_cmd_func_def split: prod.splits)
  show ?thesis
    using default_read_props [OF _ assms(2) es(1)] assms(1) es(2)
    by (auto simp: descriptor_ok_def descriptor_size_def descriptor_text_def split: sum.splits)
qed

interpretation descriptor: line_source mp_input_default_cmd_func descriptor_ok descriptor_text descriptor_size
proof (unfold_locales, goal_cases)
  case (1 w n d v)
  then show ?case using default_cmd_props [of w n "Inr d" v] by simp
next
  case (2 w n e v)
  then show ?case using default_cmd_props [of w n "Inl e" v] by simp
next
  case (3 w n r v)
  then show ?case using default_cmd_props [of w n r v] by simp
next
  case (4 w n r v)
  then show ?case using default_cmd_props [of w n r v] by simp
next
  case (5 w)
  then show ?case by (simp add: descriptor_size_def)
next
  case (6 w n v)
  then show ?case using default_cmd_props [of w n "Inl MP_INPUT_RETRY" v] by auto
next
  case (7 w)
  then show ?case by (auto simp: descriptor_ok_def descriptor_text_def list_all_iff)
qed

text \<open>A driver that \<^verbatim>\<open>mp_input_add_cmd_fd\<close> has just made, over a descriptor.\<close>

definition new_fd :: "int \<Rightarrow> bool \<Rightarrow> 'w read_func \<Rightarrow> (int \<Rightarrow> 'w \<Rightarrow> 'w) option \<Rightarrow> 'w mp_input_fd" where
  "new_fd n select f c = \<lparr>fd_num = n, fd_read = f, fd_close = c, fd_eof = False, fd_drop = False,
     fd_dead = False, fd_got_cmd = False, fd_no_select = \<not> select, fd_no_retval = False, fd_buffer = []\<rparr>"

lemma new_fd_lines:
  assumes "descriptor_ok d" and "2 * descriptor_size d \<le> n"
  shows "\<exists>fd v. read_lines mp_input_default_cmd_func n (new_fd k select f c) d =
    Some (filter (\<lambda>l. length l < 4095) (complete_lines (descriptor_text d)), fd, v)"
proof -
  have "descriptor.reader_inv (new_fd k select f c) d"
    using assms(1) by (simp add: descriptor.reader_inv_def new_fd_def has_line_def MP_CMD_MAX_SIZE_def)
  moreover have "descriptor.work (new_fd k select f c) d \<le> n"
    using assms(2) by (simp add: descriptor.work_def new_fd_def)
  moreover have "descriptor.due (new_fd k select f c) d
      = filter (\<lambda>l. length l < 4095) (complete_lines (descriptor_text d))"
    by (simp add: descriptor.due_def new_fd_def due_lines_def MP_CMD_MAX_SIZE_def)
  ultimately show ?thesis using descriptor.read_lines_all by metis
qed

end
