(* ===== verification/Input_Events.thy ===== *)
theory Input_Events
  imports Input_Lines
begin

text \<open>
  The input layer as a whole (\<^verbatim>\<open>input/input.c\<close>): the lists of drivers, the queue of commands, the
  round \<^verbatim>\<open>read_events\<close> over all drivers, and \<^verbatim>\<open>mp_input_get_cmd\<close> and \<^verbatim>\<open>mp_input_check_interrupt\<close>,
  which the main loop and the blocking parts of the player call. The queue is a second
  interpretation of the locale \<open>bounded_queue\<close> of the key queue.
\<close>

subsection \<open>The command queue\<close>

definition CMD_QUEUE_SIZE :: nat where "CMD_QUEUE_SIZE = 100"

text \<open>A slot that was never written holds NULL, the \<^term>\<open>None\<close> of the model.\<close>

record cmd_ring =
  cmd_queue :: "mp_cmd option list"
  cmd_queue_length :: nat
  cmd_queue_start :: nat
  cmd_queue_end :: nat

definition empty_ring :: cmd_ring where
  "empty_ring = \<lparr>cmd_queue = replicate CMD_QUEUE_SIZE None, cmd_queue_length = 0,
     cmd_queue_start = 0, cmd_queue_end = 0\<rparr>"

definition mp_input_queue_cmd :: "mp_cmd option \<Rightarrow> cmd_ring \<Rightarrow> bool \<times> cmd_ring" where
  "mp_input_queue_cmd cmd q =
     (if cmd = None \<or> cmd_queue_length q \<ge> CMD_QUEUE_SIZE then (False, q)
      else (True, q\<lparr>cmd_queue := (cmd_queue q)[cmd_queue_end q := cmd],
                    cmd_queue_end := (cmd_queue_end q + 1) mod CMD_QUEUE_SIZE,
                    cmd_queue_length := cmd_queue_length q + 1\<rparr>))"

definition mp_input_get_queued_cmd :: "bool \<Rightarrow> cmd_ring \<Rightarrow> mp_cmd option \<times> cmd_ring" where
  "mp_input_get_queued_cmd peek_only q =
     (if cmd_queue_length q = 0 then (None, q)
      else (cmd_queue q ! cmd_queue_start q,
            if peek_only then q
            else q\<lparr>cmd_queue_length := cmd_queue_length q - 1,
                   cmd_queue_start := (cmd_queue_start q + 1) mod CMD_QUEUE_SIZE\<rparr>))"

subsection \<open>The state of the layer\<close>

text \<open>
  What the layer uses of the system: \<^verbatim>\<open>select\<close> with a time and the watched descriptors gives
  those that are ready (none after an error), \<^verbatim>\<open>usec_sleep\<close>, and the timer.
\<close>

record 'w os =
  os_select :: "int \<Rightarrow> int list \<Rightarrow> 'w \<Rightarrow> int list \<times> 'w"
  os_sleep :: "int \<Rightarrow> 'w \<Rightarrow> 'w"
  os_timer :: "'w \<Rightarrow> u32"

record 'w input_state =
  in_keys :: key_state
  in_fifo :: key_input
  in_key_fds :: "'w mp_input_fd list"
  in_cmd_fds :: "'w mp_input_fd list"
  in_queue :: cmd_ring
  in_filters :: "(mp_cmd \<Rightarrow> int \<Rightarrow> 'w \<Rightarrow> bool \<times> 'w) list"
  in_quit_request :: bool
  in_world :: 'w

definition MP_MAX_KEY_FD :: nat where "MP_MAX_KEY_FD = 10"
definition MP_MAX_CMD_FD :: nat where "MP_MAX_CMD_FD = 10"

definition mp_input_add_cmd_fd :: "int \<Rightarrow> bool \<Rightarrow> 'w read_func \<Rightarrow> (int \<Rightarrow> 'w \<Rightarrow> 'w) option
    \<Rightarrow> 'w input_state \<Rightarrow> bool \<times> 'w input_state" where
  "mp_input_add_cmd_fd n select f c s =
     (if length (in_cmd_fds s) = MP_MAX_CMD_FD \<or> select \<and> n < 0 then (False, s)
      else (True, s\<lparr>in_cmd_fds := in_cmd_fds s @ [new_fd n select f c]\<rparr>))"

definition mp_input_add_key_fd :: "int \<Rightarrow> bool \<Rightarrow> 'w read_func \<Rightarrow> (int \<Rightarrow> 'w \<Rightarrow> 'w) option
    \<Rightarrow> 'w input_state \<Rightarrow> bool \<times> 'w input_state" where
  "mp_input_add_key_fd n select f c s =
     (if length (in_key_fds s) = MP_MAX_KEY_FD \<or> select \<and> n < 0 then (False, s)
      else (True, s\<lparr>in_key_fds := in_key_fds s @ [new_fd n select f c]\<rparr>))"

definition mp_input_add_event_fd :: "int \<Rightarrow> ('w \<Rightarrow> ui_event list \<times> 'w)
    \<Rightarrow> 'w input_state \<Rightarrow> bool \<times> 'w input_state" where
  "mp_input_add_event_fd n f s =
     (if length (in_key_fds s) = MP_MAX_KEY_FD \<or> n < 0 then (False, s)
      else (True, s\<lparr>in_key_fds := in_key_fds s @ [(new_fd n True (Event_func f) None)\<lparr>fd_no_retval := True\<rparr>]\<rparr>))"

text \<open>\<^verbatim>\<open>mp_input_rm_key_fd\<close> and \<^verbatim>\<open>mp_input_rm_cmd_fd\<close>: the first driver with the number goes.\<close>

fun rm_fd :: "int \<Rightarrow> 'w mp_input_fd list \<Rightarrow> 'w \<Rightarrow> 'w mp_input_fd list \<times> 'w" where
  "rm_fd n [] w = ([], w)"
| "rm_fd n (f # fs) w =
     (if fd_num f = n then (fs, case fd_close f of None \<Rightarrow> w | Some c \<Rightarrow> c (fd_num f) w)
      else case rm_fd n fs w of (gs, v) \<Rightarrow> (f # gs, v))"

definition mp_input_rm_key_fd :: "int \<Rightarrow> 'w input_state \<Rightarrow> 'w input_state" where
  "mp_input_rm_key_fd n s = (case rm_fd n (in_key_fds s) (in_world s) of
     (fs, w) \<Rightarrow> s\<lparr>in_key_fds := fs, in_world := w\<rparr>)"

definition mp_input_rm_cmd_fd :: "int \<Rightarrow> 'w input_state \<Rightarrow> 'w input_state" where
  "mp_input_rm_cmd_fd n s = (case rm_fd n (in_cmd_fds s) (in_world s) of
     (fs, w) \<Rightarrow> s\<lparr>in_cmd_fds := fs, in_world := w\<rparr>)"

definition mp_input_add_cmd_filter :: "(mp_cmd \<Rightarrow> int \<Rightarrow> 'w \<Rightarrow> bool \<times> 'w) \<Rightarrow> 'w input_state \<Rightarrow> 'w input_state" where
  "mp_input_add_cmd_filter f s = s\<lparr>in_filters := f # in_filters s\<rparr>"

subsection \<open>A round over the drivers\<close>

text \<open>
  The loops at the start of \<^verbatim>\<open>read_events\<close>: from index \<open>i\<close> on, a driver that is to go is removed by
  its number and the index stays. The flag says whether a driver that was passed over has another
  line in its buffer.
\<close>

lemma rm_fd_length: "\<exists>f \<in> set fs. fd_num f = n \<Longrightarrow> length (fst (rm_fd n fs w)) = length fs - 1"
proof (induction fs)
  case Nil
  then show ?case by simp
next
  case (Cons f fs)
  show ?case
  proof (cases "fd_num f = n")
    case False
    then have "\<exists>f \<in> set fs. fd_num f = n" using Cons.prems by auto
    with Cons.IH False show ?thesis by (cases fs) (auto split: prod.splits)
  qed simp
qed

function prune_fds :: "('w mp_input_fd \<Rightarrow> bool) \<Rightarrow> nat \<Rightarrow> 'w mp_input_fd list \<Rightarrow> 'w
    \<Rightarrow> bool \<Rightarrow> 'w mp_input_fd list \<times> 'w \<times> bool" where
  "prune_fds gone i fs w got =
     (if i < length fs then
        (if gone (fs ! i) then
           prune_fds gone i (fst (rm_fd (fd_num (fs ! i)) fs w)) (snd (rm_fd (fd_num (fs ! i)) fs w)) got
         else prune_fds gone (Suc i) fs w (got \<or> fd_got_cmd (fs ! i)))
      else (fs, w, got))"
  by auto

termination
proof (relation "measure (\<lambda>(gone, i, fs, w, got). length fs - i)", goal_cases)
  case (2 gone i fs w got)
  have "\<exists>f \<in> set fs. fd_num f = fd_num (fs ! i)" using nth_mem [OF 2(1)] by blast
  then show ?case using rm_fd_length [of fs "fd_num (fs ! i)" w] 2(1) by simp
qed auto

declare prune_fds.simps [simp del]

definition wait_fds :: "'w os \<Rightarrow> int \<Rightarrow> bool \<Rightarrow> 'w mp_input_fd list \<Rightarrow> 'w \<Rightarrow> int list \<times> 'w" where
  "wait_fds sys time got fs w =
     (let watched = map fd_num (filter (\<lambda>f. \<not> fd_no_select f) fs) in
      if got then ([], w)
      else if watched \<noteq> [] then os_select sys time watched w
      else ([], if time \<noteq> 0 then os_sleep sys (time * 1000) w else w))"

text \<open>What an event handler does to the layer: keys go through \<^verbatim>\<open>mplayer_put_key\<close>, commands into the queue.\<close>

fun ui_apply :: "ui_event \<Rightarrow> 'w input_state \<Rightarrow> 'w input_state" where
  "ui_apply (Ui_key now code) s = s\<lparr>in_fifo := mplayer_put_key now code (in_fifo s)\<rparr>"
| "ui_apply (Ui_cmd c) s = s\<lparr>in_queue := snd (mp_input_queue_cmd (Some c) (in_queue s))\<rparr>"

definition set_dead :: "'w mp_input_fd \<Rightarrow> 'w mp_input_fd" where
  "set_dead f = f\<lparr>fd_dead := True\<rparr>"

text \<open>
  The loop over the key drivers, by index; the result is \<^term>\<open>None\<close> where the key machine leaves
  its array, and otherwise says whether \<^verbatim>\<open>read_events\<close> returns here, and with what.
\<close>

definition take_key :: "'w os \<Rightarrow> c_int \<Rightarrow> 'w input_state \<Rightarrow> (mp_cmd option \<times> 'w input_state) option" where
  "take_key sys code s = (case interpret_key (os_timer sys (in_world s)) code (in_keys s) of
       None \<Rightarrow> None
     | Some (c, k) \<Rightarrow> Some (c, s\<lparr>in_keys := k\<rparr>))"

definition key_driver :: "'w os \<Rightarrow> nat \<Rightarrow> 'w input_state \<Rightarrow> (bool \<times> mp_cmd option \<times> 'w input_state) option" where
  "key_driver sys i s = (case fd_read (in_key_fds s ! i) of
       Event_func f \<Rightarrow>
         (case f (in_world s) of (es, w) \<Rightarrow>
          let t = fold ui_apply es (s\<lparr>in_world := w\<rparr>) in
          if cmd_queue_length (in_queue t) \<noteq> 0 then Some (True, None, t)
          else case mplayer_get_key (fifo (in_fifo t)) of (code, ff) \<Rightarrow>
            let t = t\<lparr>in_fifo := (in_fifo t)\<lparr>fifo := ff\<rparr>\<rparr> in
            if code <s 0 then Some (False, None, t)
            else map_option (\<lambda>(c, u). (c \<noteq> None, c, u)) (take_key sys code t))
     | Key_func f \<Rightarrow>
         (case f (fd_num (in_key_fds s ! i)) (in_world s) of
            (Inl e, w) \<Rightarrow> Some (False, None,
               if e = MP_INPUT_DEAD
               then s\<lparr>in_world := w, in_key_fds := (in_key_fds s)[i := set_dead (in_key_fds s ! i)]\<rparr>
               else s\<lparr>in_world := w\<rparr>)
          | (Inr code, w) \<Rightarrow>
              if code <s 0 then Some (False, None, s\<lparr>in_world := w\<rparr>)
              else map_option (\<lambda>(c, u). (c \<noteq> None, c, u)) (take_key sys code (s\<lparr>in_world := w\<rparr>)))
     | Cmd_func f \<Rightarrow> Some (False, None, s))"

fun key_loop :: "'w os \<Rightarrow> int list \<Rightarrow> nat list \<Rightarrow> 'w input_state
    \<Rightarrow> (bool \<times> mp_cmd option \<times> 'w input_state) option" where
  "key_loop sys ready [] s = Some (False, None, s)"
| "key_loop sys ready (i # is) s =
     (if \<not> fd_no_select (in_key_fds s ! i) \<and> fd_num (in_key_fds s ! i) \<notin> set ready
      then key_loop sys ready is s
      else case key_driver sys i s of
        None \<Rightarrow> None
      | Some (stop, c, t) \<Rightarrow> if stop then Some (True, c, t) else key_loop sys ready is t)"

text \<open>The loop over the command drivers; \<^term>\<open>None\<close> also when a driver never stops asking for a retry.\<close>

definition cmd_driver :: "nat \<Rightarrow> 'w input_state \<Rightarrow> (mp_cmd option \<times> 'w input_state) option" where
  "cmd_driver i s = (case fd_read (in_cmd_fds s ! i) of
       Cmd_func f \<Rightarrow>
         (case mp_input_read_cmd (f (fd_num (in_cmd_fds s ! i))) (in_cmd_fds s ! i) (in_world s) of
            None \<Rightarrow> None
          | Some (r, fd, w) \<Rightarrow>
              let t = s\<lparr>in_world := w, in_cmd_fds := (in_cmd_fds s)
                        [i := (if r = Inl MP_INPUT_DEAD then set_dead fd else fd)]\<rparr>
              in Some (case r of Inl e \<Rightarrow> None
                       | Inr l \<Rightarrow> mp_input_parse_cmd (pausing_default (in_keys s)) l, t))
     | _ \<Rightarrow> Some (None, s))"

fun cmd_loop :: "int list \<Rightarrow> nat list \<Rightarrow> 'w input_state \<Rightarrow> (mp_cmd option \<times> 'w input_state) option" where
  "cmd_loop ready [] s = Some (None, s)"
| "cmd_loop ready (i # is) s =
     (let fd = in_cmd_fds s ! i in
      if \<not> fd_no_select fd \<and> fd_num fd \<notin> set ready \<and> \<not> fd_got_cmd fd then cmd_loop ready is s
      else case cmd_driver i s of
        None \<Rightarrow> None
      | Some (c, t) \<Rightarrow> if c \<noteq> None then Some (c, t) else cmd_loop ready is t)"

definition read_events :: "'w os \<Rightarrow> int \<Rightarrow> 'w input_state \<Rightarrow> (mp_cmd option \<times> 'w input_state) option" where
  "read_events sys time s0 =
     (let (ks, w, _) = prune_fds fd_dead 0 (in_key_fds s0) (in_world s0) False;
          (cs, w, got) = prune_fds (\<lambda>f. fd_dead f \<or> fd_eof f) 0 (in_cmd_fds s0) w False;
          (ready, w) = wait_fds sys time got (ks @ cs) w;
          s = s0\<lparr>in_key_fds := ks, in_cmd_fds := cs, in_world := w\<rparr>
      in case key_loop sys ready [0..<length ks] s of
        None \<Rightarrow> None
      | Some (True, c, t) \<Rightarrow> Some (c, t)
      | Some (False, c, t) \<Rightarrow>
          (case check_autorepeat (os_timer sys (in_world t)) (in_keys t) of
             (Some c, k) \<Rightarrow> Some (Some c, t\<lparr>in_keys := k\<rparr>)
           | (None, k) \<Rightarrow> cmd_loop ready [0..<length cs] (t\<lparr>in_keys := k\<rparr>)))"

subsection \<open>Getting a command\<close>

text \<open>The filters in order; the first that takes the command ends the search.\<close>

fun run_filters :: "(mp_cmd \<Rightarrow> int \<Rightarrow> 'w \<Rightarrow> bool \<times> 'w) list \<Rightarrow> mp_cmd \<Rightarrow> int \<Rightarrow> 'w \<Rightarrow> bool \<times> 'w" where
  "run_filters [] c paused w = (False, w)"
| "run_filters (f # fs) c paused w = (case f c paused w of
     (True, v) \<Rightarrow> (True, v) | (False, v) \<Rightarrow> run_filters fs c paused v)"

definition quit_request :: "'w input_state \<Rightarrow> mp_cmd option" where
  "quit_request s = mp_input_parse_cmd (pausing_default (in_keys s)) ''quit 1''"

definition mp_input_get_queued :: "bool \<Rightarrow> 'w input_state \<Rightarrow> mp_cmd option \<times> 'w input_state" where
  "mp_input_get_queued peek_only s = (case mp_input_get_queued_cmd peek_only (in_queue s) of
     (c, q) \<Rightarrow> (c, s\<lparr>in_queue := q\<rparr>))"

text \<open>The command with the mark \<^verbatim>\<open>from_queue\<close>.\<close>

definition next_cmd :: "'w os \<Rightarrow> int \<Rightarrow> bool \<Rightarrow> 'w input_state \<Rightarrow> (mp_cmd option \<times> bool \<times> 'w input_state) option" where
  "next_cmd sys time peek_only s =
     (case mp_input_get_queued peek_only s of
        (Some c, t) \<Rightarrow> Some (Some c, True, t)
      | (None, t) \<Rightarrow>
          (case read_events sys time t of
             None \<Rightarrow> None
           | Some (Some c, u) \<Rightarrow> Some (Some c, False, u)
           | Some (None, u) \<Rightarrow> (case mp_input_get_queued peek_only u of (c, v) \<Rightarrow> Some (c, True, v))))"

text \<open>The end of \<^verbatim>\<open>mp_input_get_cmd\<close>: a command that was only looked at goes into the queue.\<close>

definition keep_peeked :: "bool \<Rightarrow> bool \<Rightarrow> mp_cmd option \<Rightarrow> 'w input_state \<Rightarrow> mp_cmd option \<times> 'w input_state" where
  "keep_peeked from_queue peek_only c s =
     (if \<not> from_queue \<and> peek_only then
        (case mp_input_queue_cmd c (in_queue s) of
           (True, q) \<Rightarrow> (c, s\<lparr>in_queue := q\<rparr>) | (False, q) \<Rightarrow> (None, s))
      else (c, s))"

definition mp_input_get_cmd :: "'w os \<Rightarrow> int \<Rightarrow> int \<Rightarrow> bool \<Rightarrow> 'w input_state
    \<Rightarrow> (mp_cmd option \<times> 'w input_state) option" where
  "mp_input_get_cmd sys time paused peek_only s =
     (if in_quit_request s then Some (keep_peeked False peek_only (quit_request s) s)
      else case next_cmd sys time peek_only s of
        None \<Rightarrow> None
      | Some (None, from_queue, t) \<Rightarrow> Some (None, t)
      | Some (Some c, from_queue, t) \<Rightarrow>
          (case run_filters (in_filters t) c paused (in_world t) of
             (True, w) \<Rightarrow>
               let u = t\<lparr>in_world := w\<rparr> in
               Some (None, if peek_only \<and> from_queue then snd (mp_input_get_queued False u) else u)
           | (False, w) \<Rightarrow> Some (keep_peeked from_queue peek_only (Some c) (t\<lparr>in_world := w\<rparr>))))"

definition mp_input_check_interrupt :: "'w os \<Rightarrow> int \<Rightarrow> 'w input_state \<Rightarrow> (bool \<times> 'w input_state) option" where
  "mp_input_check_interrupt sys time s =
     (case mp_input_get_cmd sys time 0 True s of
        None \<Rightarrow> None
      | Some (None, t) \<Rightarrow> Some (False, t)
      | Some (Some c, t) \<Rightarrow>
          if cmd_id c \<in> {MP_CMD_QUIT, MP_CMD_PLAY_TREE_STEP, MP_CMD_PLAY_TREE_UP_STEP, MP_CMD_PLAY_ALT_SRC_STEP}
          then Some (True, t)
          else map_option (\<lambda>(_, u). (False, u)) (mp_input_get_cmd sys time 0 False t))"

text \<open>
  \<^verbatim>\<open>mp_input_uninit\<close>: every driver is closed, the bindings are freed and the queues emptied. The
  lists of drivers keep their entries.
\<close>

definition close_fds :: "'w mp_input_fd list \<Rightarrow> 'w \<Rightarrow> 'w" where
  "close_fds fs w = fold (\<lambda>f v. case fd_close f of None \<Rightarrow> v | Some c \<Rightarrow> c (fd_num f) v) fs w"

fun drop_cmds :: "nat \<Rightarrow> cmd_ring \<Rightarrow> cmd_ring" where
  "drop_cmds 0 q = q"
| "drop_cmds (Suc n) q = (case mp_input_get_queued_cmd False q of
     (None, r) \<Rightarrow> r | (Some c, r) \<Rightarrow> drop_cmds n r)"

definition mp_input_uninit :: "bind_sections \<Rightarrow> 'w input_state \<Rightarrow> bind_sections \<times> 'w input_state" where
  "mp_input_uninit ss s =
     ([], s\<lparr>in_world := close_fds (in_key_fds s @ in_cmd_fds s) (in_world s),
            in_queue := drop_cmds (Suc (cmd_queue_length (in_queue s))) (in_queue s),
            in_fifo := (in_fifo s)\<lparr>fifo := mplayer_key_fifo_uninit (fifo (in_fifo s))\<rparr>\<rparr>)"

subsection \<open>Several commands at once\<close>

text \<open>\<^verbatim>\<open>mp_input_parse_and_queue_cmds\<close>: the pieces between line ends, each parsed and queued; the number of pieces that parsed.\<close>

definition skip_char :: "char \<Rightarrow> bool" where
  "skip_char c \<longleftrightarrow> c = CHR 0x0A \<or> c = CHR 0x0D \<or> c = CHR '' ''"

lemma queue_cmds_shorter:
  assumes "str \<noteq> []"
  shows "length (dropWhile skip_char (drop (length (takeWhile (\<lambda>c. \<not> line_end c) str)) str)) < length str"
proof (cases "line_end (hd str)")
  case True
  then show ?thesis
    using assms by (cases str) (auto simp: skip_char_def line_end_def le_imp_less_Suc length_dropWhile_le)
next
  case False
  then have "0 < length (takeWhile (\<lambda>c. \<not> line_end c) str)" using assms by (cases str) auto
  then have "length (drop (length (takeWhile (\<lambda>c. \<not> line_end c) str)) str) < length str" using assms by simp
  then show ?thesis using length_dropWhile_le le_less_trans by blast
qed

function queue_cmds :: "int \<Rightarrow> string \<Rightarrow> cmd_ring \<Rightarrow> nat \<times> cmd_ring" where
  "queue_cmds pd str q =
     (if str = [] then (0, q)
      else let line = takeWhile (\<lambda>c. \<not> line_end c) str;
               rest = dropWhile skip_char (drop (length line) str);
               cmd = mp_input_parse_cmd pd line
           in case queue_cmds pd rest (snd (mp_input_queue_cmd cmd q)) of
                (n, q') \<Rightarrow> (if cmd = None then n else Suc n, q'))"
  by auto

termination
  by (relation "measure (\<lambda>(pd, str, q). length str)") (auto simp: queue_cmds_shorter simp del: length_drop)

declare queue_cmds.simps [simp del]

definition mp_input_parse_and_queue_cmds :: "int \<Rightarrow> string \<Rightarrow> cmd_ring \<Rightarrow> nat \<times> cmd_ring" where
  "mp_input_parse_and_queue_cmds pd str q = queue_cmds pd (dropWhile skip_char str) q"

subsection \<open>The command queue is a bounded queue\<close>

definition ring_inv :: "cmd_ring \<Rightarrow> bool" where
  "ring_inv q \<longleftrightarrow> length (cmd_queue q) = CMD_QUEUE_SIZE \<and> cmd_queue_start q < CMD_QUEUE_SIZE
     \<and> cmd_queue_length q \<le> CMD_QUEUE_SIZE
     \<and> cmd_queue_end q = (cmd_queue_start q + cmd_queue_length q) mod CMD_QUEUE_SIZE"

definition ring_list :: "cmd_ring \<Rightarrow> mp_cmd option list" where
  "ring_list q = map (\<lambda>i. cmd_queue q ! ((cmd_queue_start q + i) mod CMD_QUEUE_SIZE)) [0..<cmd_queue_length q]"

definition ring_accept :: "cmd_ring \<Rightarrow> mp_cmd option \<Rightarrow> mp_cmd option list" where
  "ring_accept q c = (if c = None \<or> cmd_queue_length q \<ge> CMD_QUEUE_SIZE then [] else [c])"

definition put_cmd :: "mp_cmd option \<Rightarrow> cmd_ring \<Rightarrow> cmd_ring" where
  "put_cmd c q = snd (mp_input_queue_cmd c q)"

definition get_cmd :: "cmd_ring \<Rightarrow> mp_cmd option \<times> cmd_ring" where
  "get_cmd q = mp_input_get_queued_cmd False q"

lemma size_pos: "0 < CMD_QUEUE_SIZE" by (simp add: CMD_QUEUE_SIZE_def)

lemma ring_list_length [simp]: "length (ring_list q) = cmd_queue_length q"
  by (simp add: ring_list_def)

lemma step_mod: "((a :: nat) mod m + b) mod m = (a + b) mod m"
  by (rule mod_add_left_eq)

lemma put_cmd_inv:
  assumes "ring_inv q"
  shows "ring_inv (put_cmd c q)"
proof (cases "c = None \<or> cmd_queue_length q \<ge> CMD_QUEUE_SIZE")
  case True
  with assms show ?thesis by (auto simp: put_cmd_def mp_input_queue_cmd_def)
next
  case False
  have "((cmd_queue_start q + cmd_queue_length q) mod CMD_QUEUE_SIZE + 1) mod CMD_QUEUE_SIZE
      = (cmd_queue_start q + (cmd_queue_length q + 1)) mod CMD_QUEUE_SIZE"
    by (simp only: step_mod add.assoc)
  with assms False show ?thesis by (simp add: put_cmd_def mp_input_queue_cmd_def ring_inv_def)
qed

lemma put_cmd_list:
  assumes "ring_inv q"
  shows "ring_list (put_cmd c q) = ring_list q @ ring_accept q c"
proof (cases "c = None \<or> cmd_queue_length q \<ge> CMD_QUEUE_SIZE")
  case True
  then show ?thesis by (auto simp: put_cmd_def mp_input_queue_cmd_def ring_accept_def)
next
  case False
  let ?N = CMD_QUEUE_SIZE and ?s = "cmd_queue_start q" and ?n = "cmd_queue_length q"
  let ?e = "(?s + ?n) mod ?N"
  have q: "length (cmd_queue q) = ?N" "cmd_queue_end q = ?e" using assms by (simp_all add: ring_inv_def)
  have put: "put_cmd c q = q\<lparr>cmd_queue := (cmd_queue q)[?e := c], cmd_queue_end := (?e + 1) mod ?N,
      cmd_queue_length := ?n + 1\<rparr>"
    using False q by (auto simp: put_cmd_def mp_input_queue_cmd_def)
  have other: "(cmd_queue q)[?e := c] ! ((?s + i) mod ?N) = cmd_queue q ! ((?s + i) mod ?N)" if "i < ?n" for i
  proof -
    have "(?s + i) mod ?N \<noteq> ?e" using mod_add_inj [of ?s i ?N ?n] that False by auto
    then show ?thesis by simp
  qed
  have same: "(cmd_queue q)[?e := c] ! ?e = c" using q(1) size_pos by simp
  show ?thesis
    using False other same by (simp add: put ring_list_def ring_accept_def)
qed

lemma get_cmd_Nil: "ring_list q = [] \<Longrightarrow> get_cmd q = (None, q)"
  by (simp add: get_cmd_def mp_input_get_queued_cmd_def ring_list_def)

lemma ring_list_Cons:
  assumes "ring_inv q" and "ring_list q = y # ys"
  shows "cmd_queue_length q = Suc (length ys)" and "cmd_queue q ! cmd_queue_start q = y"
    and "ys = map (\<lambda>i. cmd_queue q ! ((cmd_queue_start q + Suc i) mod CMD_QUEUE_SIZE)) [0..<length ys]"
proof -
  show n: "cmd_queue_length q = Suc (length ys)"
    using arg_cong [OF assms(2), of length] by simp
  have "y # ys = map (\<lambda>i. cmd_queue q ! ((cmd_queue_start q + i) mod CMD_QUEUE_SIZE)) [0..<Suc (length ys)]"
    using assms(2) n by (simp add: ring_list_def)
  then show "cmd_queue q ! cmd_queue_start q = y"
    and "ys = map (\<lambda>i. cmd_queue q ! ((cmd_queue_start q + Suc i) mod CMD_QUEUE_SIZE)) [0..<length ys]"
    using assms(1) unfolding map_upt_Suc_cons by (simp_all add: ring_inv_def)
qed

lemma get_cmd_Cons:
  assumes inv: "ring_inv q" and l: "ring_list q = y # ys"
  shows "fst (get_cmd q) = y" and "ring_list (snd (get_cmd q)) = ys" and "ring_inv (snd (get_cmd q))"
proof -
  note c = ring_list_Cons [OF assms]
  have get: "get_cmd q = (y, q\<lparr>cmd_queue_length := length ys, cmd_queue_start := (cmd_queue_start q + 1) mod CMD_QUEUE_SIZE\<rparr>)"
    using c by (simp add: get_cmd_def mp_input_get_queued_cmd_def)
  show "fst (get_cmd q) = y" by (simp add: get)
  show "ring_list (snd (get_cmd q)) = ys"
    by (subst c(3)) (simp add: get ring_list_def step_mod [of "Suc s" for s, simplified])
  have "((cmd_queue_start q + 1) mod CMD_QUEUE_SIZE + length ys) mod CMD_QUEUE_SIZE
      = (cmd_queue_start q + Suc (length ys)) mod CMD_QUEUE_SIZE"
    by (simp only: step_mod) simp
  then show "ring_inv (snd (get_cmd q))"
    using inv c(1) size_pos by (simp add: get ring_inv_def)
qed

interpretation cmd_queue: bounded_queue ring_inv ring_list "\<lambda>_. n" ring_accept put_cmd get_cmd None for n
  by unfold_locales (auto simp: put_cmd_list put_cmd_inv get_cmd_Nil get_cmd_Cons)

lemma cmd_queue_order:
  assumes "ring_inv q"
  shows "q_returned ring_list put_cmd get_cmd ops q @ ring_list (q_exec put_cmd get_cmd ops q)
    = ring_list q @ q_accepted ring_accept put_cmd get_cmd ops q"
  using cmd_queue.run_order [OF assms, of ops "length ops"] by simp

lemma empty_ring_inv: "ring_inv empty_ring" "ring_list empty_ring = []"
  by (simp_all add: ring_inv_def empty_ring_def ring_list_def CMD_QUEUE_SIZE_def)

subsection \<open>Removing drivers\<close>

lemma rm_fd_here:
  assumes "f \<notin> set xs" and "fd_num f \<notin> fd_num ` set xs"
  shows "rm_fd (fd_num f) (xs @ f # ys) w = (xs @ ys, close_fds [f] w)"
  using assms by (induction xs) (auto simp: close_fds_def)

text \<open>With different numbers the loop removes exactly the drivers that are to go, and closes them in order.\<close>

lemma prune_distinct:
  assumes "distinct (map fd_num (xs @ fs))"
  shows "prune_fds gone (length xs) (xs @ fs) w got =
    (xs @ filter (\<lambda>f. \<not> gone f) fs, close_fds (filter gone fs) w,
     got \<or> list_ex fd_got_cmd (filter (\<lambda>f. \<not> gone f) fs))"
  using assms
proof (induction fs arbitrary: xs w got)
  case Nil
  then show ?case by (simp add: prune_fds.simps close_fds_def)
next
  case (Cons f fs)
  have at: "(xs @ f # fs) ! length xs = f" "length xs < length (xs @ f # fs)" by simp_all
  show ?case
  proof (cases "gone f")
    case True
    have rm: "rm_fd (fd_num f) (xs @ f # fs) w = (xs @ fs, close_fds [f] w)"
      using Cons.prems by (intro rm_fd_here) auto
    have "prune_fds gone (length xs) (xs @ f # fs) w got = prune_fds gone (length xs) (xs @ fs) (close_fds [f] w) got"
      using True by (subst prune_fds.simps) (simp add: at rm)
    also have "\<dots> = (xs @ filter (\<lambda>f. \<not> gone f) fs, close_fds (filter gone fs) (close_fds [f] w),
        got \<or> list_ex fd_got_cmd (filter (\<lambda>f. \<not> gone f) fs))"
      using Cons.prems by (intro Cons.IH) simp
    finally show ?thesis using True by (simp add: close_fds_def)
  next
    case False
    have "prune_fds gone (length xs) (xs @ f # fs) w got
        = prune_fds gone (length (xs @ [f])) ((xs @ [f]) @ fs) w (got \<or> fd_got_cmd f)"
      using False by (subst prune_fds.simps) (simp add: at)
    also have "\<dots> = ((xs @ [f]) @ filter (\<lambda>f. \<not> gone f) fs, close_fds (filter gone fs) w,
        (got \<or> fd_got_cmd f) \<or> list_ex fd_got_cmd (filter (\<lambda>f. \<not> gone f) fs))"
      using Cons.prems by (intro Cons.IH) simp
    finally show ?thesis using False by auto
  qed
qed

text \<open>Two drivers without a descriptor share the number: the one that lives is closed, the dead one stays.\<close>

lemma prune_shared_number:
  assumes "fd_num a = fd_num b" and "\<not> gone a" and "gone b"
  shows "fst (prune_fds gone 0 [a, b] w got) = [b]"
  using assms by (subst prune_fds.simps, simp, subst prune_fds.simps, simp, subst prune_fds.simps, simp)

subsection \<open>Looking before taking\<close>

lemma key_driver_queue:
  assumes "key_driver sys i s = Some (stop, c, t)" and "c \<noteq> None \<or> \<not> stop"
    and "cmd_queue_length (in_queue s) = 0"
  shows "cmd_queue_length (in_queue t) = 0"
proof (cases "fd_read (in_key_fds s ! i)")
  case (Key_func f)
  then show ?thesis
    using assms by (auto simp: key_driver_def take_key_def split: sum.splits prod.splits option.splits if_splits)
next
  case (Event_func f)
  then show ?thesis
    using assms by (auto simp: key_driver_def take_key_def Let_def split: prod.splits option.splits if_splits)
next
  case (Cmd_func f)
  then show ?thesis using assms by (simp add: key_driver_def)
qed

lemma key_loop_queue:
  "key_loop sys ready is s = Some (stop, c, t) \<Longrightarrow> c \<noteq> None \<or> \<not> stop \<Longrightarrow> cmd_queue_length (in_queue s) = 0 \<Longrightarrow>
   cmd_queue_length (in_queue t) = 0"
proof (induction "is" arbitrary: s)
  case Nil
  then show ?case by simp
next
  case (Cons i "is")
  show ?case
  proof (cases "\<not> fd_no_select (in_key_fds s ! i) \<and> fd_num (in_key_fds s ! i) \<notin> set ready")
    case True
    with Cons show ?thesis by simp
  next
    case False
    then obtain st d u where d: "key_driver sys i s = Some (st, d, u)"
      "if st then (stop, c, t) = (True, d, u) else key_loop sys ready is u = Some (stop, c, t)"
      using Cons.prems(1) by (auto split: option.splits if_splits)
    show ?thesis
    proof (cases st)
      case True
      with d Cons.prems(2,3) show ?thesis using key_driver_queue [OF d(1)] by auto
    next
      case False
      then have "cmd_queue_length (in_queue u) = 0" using key_driver_queue [OF d(1)] Cons.prems(3) by simp
      with Cons.IH [of u] d(2) False Cons.prems(2) show ?thesis by simp
    qed
  qed
qed

lemma cmd_driver_queue: "cmd_driver i s = Some (c, t) \<Longrightarrow> in_queue t = in_queue s"
  by (auto simp: cmd_driver_def Let_def split: read_func.splits option.splits)

lemma cmd_loop_queue: "cmd_loop ready is s = Some (c, t) \<Longrightarrow> in_queue t = in_queue s"
proof (induction "is" arbitrary: s)
  case Nil
  then show ?case by simp
next
  case (Cons i "is")
  then show ?case
    by (auto simp: Let_def dest: cmd_driver_queue split: if_splits option.splits)
qed

lemma read_events_queue:
  assumes "read_events sys time s = Some (Some c, t)" and "cmd_queue_length (in_queue s) = 0"
  shows "cmd_queue_length (in_queue t) = 0"
proof -
  obtain ks w b where ks: "prune_fds fd_dead 0 (in_key_fds s) (in_world s) False = (ks, w, b)" by (metis prod_cases3)
  obtain cs v got where cs: "prune_fds (\<lambda>f. fd_dead f \<or> fd_eof f) 0 (in_cmd_fds s) w False = (cs, v, got)" by (metis prod_cases3)
  obtain ready u where wait: "wait_fds sys time got (ks @ cs) v = (ready, u)" by fastforce
  define s1 where "s1 = s\<lparr>in_key_fds := ks, in_cmd_fds := cs, in_world := u\<rparr>"
  have s1: "cmd_queue_length (in_queue s1) = 0" using assms(2) by (simp add: s1_def)
  obtain stop d x where kl: "key_loop sys ready [0..<length ks] s1 = Some (stop, d, x)"
    using assms(1) by (auto simp: read_events_def ks cs wait s1_def split: option.splits)
  show ?thesis
  proof (cases stop)
    case True
    then have "d = Some c" "t = x"
      using assms(1) kl by (auto simp: read_events_def ks cs wait s1_def)
    then show ?thesis using key_loop_queue [OF kl _ s1] by simp
  next
    case False
    then have x: "cmd_queue_length (in_queue x) = 0" using key_loop_queue [OF kl _ s1] by simp
    obtain a k where ar: "check_autorepeat (os_timer sys (in_world x)) (in_keys x) = (a, k)" by fastforce
    have "case a of Some e \<Rightarrow> t = x\<lparr>in_keys := k\<rparr> | None \<Rightarrow> cmd_loop ready [0..<length cs] (x\<lparr>in_keys := k\<rparr>) = Some (Some c, t)"
      using assms(1) kl False ar by (auto simp: read_events_def ks cs wait s1_def split: option.splits)
    then show ?thesis
      using cmd_loop_queue [of ready "[0..<length cs]" "x\<lparr>in_keys := k\<rparr>" "Some c" t] x by (cases a) auto
  qed
qed

text \<open>A round leaves the filters and the request to quit alone, and the queue in order.\<close>

definition ring_ok :: "cmd_ring \<Rightarrow> bool" where
  "ring_ok q \<longleftrightarrow> ring_inv q \<and> None \<notin> set (ring_list q)"

lemma put_cmd_ok: "ring_ok q \<Longrightarrow> ring_ok (put_cmd c q)"
  by (auto simp: ring_ok_def put_cmd_inv put_cmd_list ring_accept_def)

definition same_frame :: "'w input_state \<Rightarrow> 'w input_state \<Rightarrow> bool" where
  "same_frame s t \<longleftrightarrow> in_filters t = in_filters s \<and> in_quit_request t = in_quit_request s
     \<and> (ring_ok (in_queue s) \<longrightarrow> ring_ok (in_queue t))"

lemma same_frame_refl [simp]: "same_frame s s"
  by (simp add: same_frame_def)

lemma same_frame_trans [trans]: "same_frame s t \<Longrightarrow> same_frame t u \<Longrightarrow> same_frame s u"
  by (simp add: same_frame_def)

lemma ui_frame: "same_frame s (ui_apply e s)"
  using put_cmd_ok by (cases e) (simp_all add: same_frame_def put_cmd_def)

lemma ui_fold_frame: "same_frame s (fold ui_apply es s)"
  by (induction es arbitrary: s) (auto intro: same_frame_trans ui_frame)

lemma frame_updates:
  "same_frame s (s\<lparr>in_world := w\<rparr>) " "same_frame s (s\<lparr>in_keys := k\<rparr>)" "same_frame s (s\<lparr>in_fifo := f\<rparr>)"
  "same_frame s (s\<lparr>in_key_fds := ks\<rparr>)" "same_frame s (s\<lparr>in_cmd_fds := cs\<rparr>)"
  by (simp_all add: same_frame_def)

lemma take_key_frame: "take_key sys code s = Some (c, t) \<Longrightarrow> same_frame s t"
  by (auto simp: take_key_def frame_updates split: option.splits)

lemma key_driver_frame:
  assumes "key_driver sys i s = Some (stop, c, t)"
  shows "same_frame s t"
proof (cases "fd_read (in_key_fds s ! i)")
  case (Key_func f)
  then obtain r w where f: "f (fd_num (in_key_fds s ! i)) (in_world s) = (r, w)" by fastforce
  have w: "same_frame s (s\<lparr>in_world := w\<rparr>)" by (rule frame_updates)
  show ?thesis
  proof (cases r)
    case (Inl e)
    then show ?thesis
      using assms Key_func f by (auto simp: key_driver_def same_frame_def split: if_splits)
  next
    case (Inr code)
    then consider "t = s\<lparr>in_world := w\<rparr>" | d where "take_key sys code (s\<lparr>in_world := w\<rparr>) = Some (d, t)"
      using assms Key_func f by (auto simp: key_driver_def split: if_splits)
    then show ?thesis using w by cases (auto intro: same_frame_trans take_key_frame)
  qed
next
  case (Event_func f)
  obtain es w where f: "f (in_world s) = (es, w)" by fastforce
  define t0 where "t0 = fold ui_apply es (s\<lparr>in_world := w\<rparr>)"
  have t0: "same_frame s t0"
    unfolding t0_def by (rule same_frame_trans [OF frame_updates(1) ui_fold_frame])
  obtain code ff where g: "mplayer_get_key (fifo (in_fifo t0)) = (code, ff)" by fastforce
  define t1 where "t1 = t0\<lparr>in_fifo := (in_fifo t0)\<lparr>fifo := ff\<rparr>\<rparr>"
  have t1: "same_frame s t1" unfolding t1_def by (rule same_frame_trans [OF t0 frame_updates(3)])
  consider "t = t0" | "t = t1" | d where "take_key sys code t1 = Some (d, t)"
    using assms Event_func f g by (auto simp: key_driver_def t0_def [symmetric] t1_def [symmetric] Let_def split: if_splits)
  then show ?thesis using t0 t1 by cases (auto intro: same_frame_trans take_key_frame)
next
  case (Cmd_func f)
  then show ?thesis using assms by (simp add: key_driver_def)
qed

lemma key_loop_frame: "key_loop sys ready is s = Some (stop, c, t) \<Longrightarrow> same_frame s t"
proof (induction "is" arbitrary: s)
  case Nil
  then show ?case by simp
next
  case (Cons i "is")
  then show ?case
    by (auto split: if_splits option.splits intro: same_frame_trans dest: key_driver_frame)
qed

lemma cmd_driver_frame: "cmd_driver i s = Some (c, t) \<Longrightarrow> same_frame s t"
  by (auto simp: cmd_driver_def Let_def same_frame_def split: read_func.splits option.splits)

lemma cmd_loop_frame: "cmd_loop ready is s = Some (c, t) \<Longrightarrow> same_frame s t"
proof (induction "is" arbitrary: s)
  case Nil
  then show ?case by simp
next
  case (Cons i "is")
  then show ?case
    by (auto simp: Let_def split: if_splits option.splits intro: same_frame_trans dest: cmd_driver_frame)
qed

lemma read_events_frame:
  assumes "read_events sys time s = Some (c, t)"
  shows "same_frame s t"
proof -
  obtain ks w b where ks: "prune_fds fd_dead 0 (in_key_fds s) (in_world s) False = (ks, w, b)" by (metis prod_cases3)
  obtain cs v got where cs: "prune_fds (\<lambda>f. fd_dead f \<or> fd_eof f) 0 (in_cmd_fds s) w False = (cs, v, got)" by (metis prod_cases3)
  obtain ready u where wait: "wait_fds sys time got (ks @ cs) v = (ready, u)" by fastforce
  define s1 where "s1 = s\<lparr>in_key_fds := ks, in_cmd_fds := cs, in_world := u\<rparr>"
  have s1: "same_frame s s1" by (simp add: s1_def same_frame_def)
  obtain stop d x where kl: "key_loop sys ready [0..<length ks] s1 = Some (stop, d, x)"
    using assms by (auto simp: read_events_def ks cs wait s1_def split: option.splits)
  have x: "same_frame s x" using s1 key_loop_frame [OF kl] by (rule same_frame_trans)
  obtain a k where ar: "check_autorepeat (os_timer sys (in_world x)) (in_keys x) = (a, k)" by fastforce
  have k: "same_frame s (x\<lparr>in_keys := k\<rparr>)" using x frame_updates(2) by (rule same_frame_trans)
  consider "t = x" | "t = x\<lparr>in_keys := k\<rparr>" | "cmd_loop ready [0..<length cs] (x\<lparr>in_keys := k\<rparr>) = Some (c, t)"
    using assms kl ar by (cases stop; cases a) (auto simp: read_events_def ks cs wait s1_def)
  then show ?thesis using x k by cases (auto intro: same_frame_trans cmd_loop_frame)
qed

text \<open>A command that was looked at is the first of the queue.\<close>

lemma queued_peek:
  assumes "ring_inv q"
  shows "mp_input_get_queued_cmd True q = (case ring_list q of [] \<Rightarrow> None | y # ys \<Rightarrow> y, q)"
proof (cases "ring_list q")
  case Nil
  then have "cmd_queue_length q = 0" using ring_list_length [of q] by simp
  with Nil show ?thesis by (simp add: mp_input_get_queued_cmd_def)
next
  case (Cons y ys)
  then show ?thesis using ring_list_Cons [OF assms Cons] by (simp add: mp_input_get_queued_cmd_def)
qed

definition plain_state :: "'w input_state \<Rightarrow> bool" where
  "plain_state s \<longleftrightarrow> ring_ok (in_queue s) \<and> in_filters s = [] \<and> \<not> in_quit_request s"

lemma plain_frame: "plain_state s \<Longrightarrow> same_frame s t \<Longrightarrow> plain_state t"
  by (simp add: plain_state_def same_frame_def)

lemma get_queued_peek:
  assumes "ring_ok (in_queue s)"
  shows "mp_input_get_queued True s = (case ring_list (in_queue s) of [] \<Rightarrow> None | y # ys \<Rightarrow> y, s)"
  using assms queued_peek by (auto simp: mp_input_get_queued_def ring_ok_def)

lemma get_queued_take:
  assumes "ring_ok (in_queue s)" and "ring_list (in_queue s) = Some c # rest"
  shows "\<exists>q. mp_input_get_queued False s = (Some c, s\<lparr>in_queue := q\<rparr>) \<and> ring_ok q \<and> ring_list q = rest"
  using assms get_cmd_Cons [of "in_queue s" "Some c" rest]
  by (cases "get_cmd (in_queue s)") (auto simp: mp_input_get_queued_def get_cmd_def ring_ok_def)

lemma next_cmd_peek:
  assumes ok: "ring_ok (in_queue s)" and nx: "next_cmd sys time True s = Some (c, fq, u)"
  shows "same_frame s u" and "fq \<Longrightarrow> c = (case ring_list (in_queue u) of [] \<Rightarrow> None | y # ys \<Rightarrow> y)"
    and "\<not> fq \<Longrightarrow> ring_list (in_queue u) = []"
proof -
  consider y ys where "ring_list (in_queue s) = Some y # ys" | "ring_list (in_queue s) = []"
    using ok by (cases "ring_list (in_queue s)"; cases "hd (ring_list (in_queue s))") (auto simp: ring_ok_def)
  then have "same_frame s u \<and> (fq \<longrightarrow> c = (case ring_list (in_queue u) of [] \<Rightarrow> None | y # ys \<Rightarrow> y))
      \<and> (\<not> fq \<longrightarrow> ring_list (in_queue u) = [])"
  proof cases
    case 1
    then show ?thesis using nx by (simp add: next_cmd_def get_queued_peek [OF ok])
  next
    case 2
    then have len: "cmd_queue_length (in_queue s) = 0" using ring_list_length [of "in_queue s"] by simp
    obtain d v where ev: "read_events sys time s = Some (d, v)"
      using nx 2 by (auto simp: next_cmd_def get_queued_peek [OF ok] split: option.splits)
    have fr: "same_frame s v" by (rule read_events_frame [OF ev])
    then have okv: "ring_ok (in_queue v)" using ok by (simp add: same_frame_def)
    show ?thesis
    proof (cases d)
      case None
      then show ?thesis
        using nx 2 ev fr by (auto simp: next_cmd_def get_queued_peek [OF ok] get_queued_peek [OF okv])
    next
      case (Some e)
      have "ring_list (in_queue v) = []"
        using read_events_queue [of sys time s e v] ev Some len by (simp add: ring_list_def)
      then show ?thesis using nx 2 ev fr Some by (simp add: next_cmd_def get_queued_peek [OF ok])
    qed
  qed
  then show "same_frame s u" and "fq \<Longrightarrow> c = (case ring_list (in_queue u) of [] \<Rightarrow> None | y # ys \<Rightarrow> y)"
    and "\<not> fq \<Longrightarrow> ring_list (in_queue u) = []"
    by simp_all
qed

lemma peek_keeps:
  assumes p: "plain_state s" and get: "mp_input_get_cmd sys time paused True s = Some (Some c, t)"
  shows "plain_state t" and "\<exists>rest. ring_list (in_queue t) = Some c # rest"
proof -
  have ok: "ring_ok (in_queue s)" using p by (simp add: plain_state_def)
  obtain d fq u where nx: "next_cmd sys time True s = Some (d, fq, u)"
    using get p by (auto simp: mp_input_get_cmd_def plain_state_def split: option.splits)
  note n = next_cmd_peek [OF ok nx]
  have pu: "plain_state u" by (rule plain_frame [OF p n(1)])
  then have u: "in_filters u = []" "ring_ok (in_queue u)" by (simp_all add: plain_state_def)
  have d: "d = Some c" "(Some c, t) = keep_peeked fq True (Some c) u"
    using get p nx u(1) by (cases d; auto simp: mp_input_get_cmd_def plain_state_def keep_peeked_def
      split: if_splits prod.splits bool.splits)+
  have "plain_state t \<and> (\<exists>rest. ring_list (in_queue t) = Some c # rest)"
  proof (cases fq)
    case True
    then have "t = u" using d(2) by (simp add: keep_peeked_def)
    with n(2) True d(1) pu show ?thesis by (cases "ring_list (in_queue u)") auto
  next
    case False
    have e: "ring_list (in_queue u) = []" using n(3) False by simp
    then have "cmd_queue_length (in_queue u) = 0" using ring_list_length [of "in_queue u"] by simp
    then have q: "mp_input_queue_cmd (Some c) (in_queue u) = (True, put_cmd (Some c) (in_queue u))"
      and acc: "ring_accept (in_queue u) (Some c) = [Some c]"
      using size_pos by (simp_all add: put_cmd_def mp_input_queue_cmd_def ring_accept_def)
    have t: "t = u\<lparr>in_queue := put_cmd (Some c) (in_queue u)\<rparr>" using d(2) False q by (simp add: keep_peeked_def)
    have "ring_list (in_queue t) = [Some c]" using u(2) e acc by (simp add: t put_cmd_list ring_ok_def)
    moreover have "plain_state t" using pu put_cmd_ok [OF u(2)] by (simp add: plain_state_def t)
    ultimately show ?thesis by simp
  qed
  then show "plain_state t" and "\<exists>rest. ring_list (in_queue t) = Some c # rest" by simp_all
qed

lemma get_after_peek:
  assumes p: "plain_state t" and q: "ring_list (in_queue t) = Some c # rest"
  shows "\<exists>u. mp_input_get_cmd sys time paused False t = Some (Some c, u) \<and> plain_state u
    \<and> ring_list (in_queue u) = rest"
proof -
  have ok: "ring_ok (in_queue t)" "in_filters t = []" "\<not> in_quit_request t" using p by (simp_all add: plain_state_def)
  obtain r where r: "mp_input_get_queued False t = (Some c, t\<lparr>in_queue := r\<rparr>)" "ring_ok r" "ring_list r = rest"
    using get_queued_take [OF ok(1) q] by blast
  then show ?thesis
    using ok by (simp add: mp_input_get_cmd_def next_cmd_def keep_peeked_def plain_state_def)
qed

abbreviation stops_playback :: "mp_cmd \<Rightarrow> bool" where
  "stops_playback c \<equiv> cmd_id c \<in> {MP_CMD_QUIT, MP_CMD_PLAY_TREE_STEP, MP_CMD_PLAY_TREE_UP_STEP, MP_CMD_PLAY_ALT_SRC_STEP}"

lemma check_interrupt_cmd:
  assumes p: "plain_state s" and get: "mp_input_get_cmd sys time 0 True s = Some (Some c, t)"
  shows "\<exists>u rest. ring_list (in_queue t) = Some c # rest \<and> plain_state u
    \<and> mp_input_check_interrupt sys time s = Some (stops_playback c, u)
    \<and> ring_list (in_queue u) = (if stops_playback c then Some c # rest else rest)"
proof -
  obtain rest where rest: "ring_list (in_queue t) = Some c # rest" using peek_keeps [OF p get] by blast
  show ?thesis
  proof (cases "stops_playback c")
    case True
    then show ?thesis
      using rest peek_keeps(1) [OF p get] get by (intro exI [of _ t] exI [of _ rest]) (simp add: mp_input_check_interrupt_def)
  next
    case False
    obtain u where "mp_input_get_cmd sys time 0 False t = Some (Some c, u)" "plain_state u" "ring_list (in_queue u) = rest"
      using get_after_peek [OF peek_keeps(1) [OF p get] rest] by blast
    then show ?thesis
      using rest get False by (intro exI [of _ u] exI [of _ rest]) (auto simp: mp_input_check_interrupt_def)
  qed
qed

lemma drop_cmds_empty:
  "ring_ok q \<Longrightarrow> cmd_queue_length q \<le> n \<Longrightarrow> cmd_queue_length (drop_cmds n q) = 0"
proof (induction n arbitrary: q)
  case 0
  then show ?case by simp
next
  case (Suc n)
  show ?case
  proof (cases "ring_list q")
    case Nil
    then have "get_cmd q = (None, q)" "cmd_queue_length q = 0"
      using ring_list_length [of q] by (simp_all add: get_cmd_Nil)
    then show ?thesis by (simp add: get_cmd_def)
  next
    case (Cons y ys)
    have inv: "ring_inv q" and y: "y \<noteq> None"
      using Suc.prems(1) Cons by (cases y; auto simp: ring_ok_def)+
    obtain r where r: "get_cmd q = (y, r)" "ring_list r = ys" "ring_inv r"
      using get_cmd_Cons [OF inv Cons] by (cases "get_cmd q") auto
    have "cmd_queue_length r \<le> n" using r(2) Suc.prems(2) Cons ring_list_length [of q] ring_list_length [of r] by simp
    moreover have "ring_ok r" using r Suc.prems(1) Cons by (simp add: ring_ok_def)
    ultimately show ?thesis using Suc.IH r(1) y by (auto simp: get_cmd_def)
  qed
qed

text \<open>After the end no command and no key is left.\<close>

lemma uninit_empty:
  assumes "ring_ok (in_queue s)"
  shows "cmd_queue_length (in_queue (snd (mp_input_uninit ss s))) = 0"
    and "mplayer_get_key (fifo (in_fifo (snd (mp_input_uninit ss s)))) =
      (MP_INPUT_NOTHING, fifo (in_fifo (snd (mp_input_uninit ss s))))"
  using drop_cmds_empty [OF assms, of "Suc (cmd_queue_length (in_queue s))"]
  by (simp_all add: mp_input_uninit_def mplayer_key_fifo_uninit_def mplayer_get_key_def del: drop_cmds.simps)

end
