(* ===== verification/Input_Props.thy ===== *)
theory Input_Props
  imports Input_Events
begin

text \<open>
  The properties of the input layer: commands and their arguments, keys and their names, the file of
  bindings, command lines from a descriptor, and the command that a look at the queue leaves in it.
\<close>

text \<open>C18. Whatever line is parsed, the command has the number and the name of an entry of the table, at least the
  arguments that the entry asks for, and arguments of exactly the types of its signature.\<close>

theorem parsed_command_typed:
  assumes "mp_input_parse_cmd pd line = Some c"
  shows "\<exists>d \<in> set mp_cmds. cmd_id c = cmd_id d \<and> cmd_name c = cmd_name d \<and> cmd_nargs d \<le> cmd_nargs c
    \<and> list_all2 same_type (cmd_args c) (cmd_args d)"
proof -
  obtain p str where pre: "pausing_prefix (dropWhile blank line) = (p, str)" by fastforce
  let ?w = "takeWhile (\<lambda>c. \<not> blank c) str"
  obtain d where d: "find_cmd ?w = Some d" "?w \<noteq> []"
    using assms by (auto simp: mp_input_parse_cmd_def pre Let_def split: if_splits option.splits)
  obtain vs n where loop: "cmd_args_loop MP_CMD_MAX_ARGS (cmd_args d) str = (vs, n)" by fastforce
  have c: "cmd_nargs d \<le> n" "c = \<lparr>cmd_id = cmd_id d, cmd_name = cmd_name d, cmd_nargs = n,
      cmd_args = vs @ drop n (cmd_args d),
      cmd_pausing = (if p = - 1 then default_pausing pd (cmd_id d) else p)\<rparr>"
    using assms d by (simp_all add: mp_input_parse_cmd_def pre loop split: if_splits)
  then show ?thesis
    using find_cmd_in [OF d(1)] args_loop_full [OF loop] by (intro bexI [of _ d]) simp_all
qed

theorem parsed_command_typed_witness:
  "\<exists>c. mp_input_parse_cmd 0 ''seek -10 1'' = Some c \<and> (\<exists>d \<in> set mp_cmds. cmd_id c = cmd_id d
    \<and> cmd_name c = cmd_name d \<and> cmd_nargs d \<le> cmd_nargs c \<and> list_all2 same_type (cmd_args c) (cmd_args d))"
proof -
  have "mp_input_parse_cmd 0 ''seek -10 1'' \<noteq> None" by code_simp
  then obtain c where "mp_input_parse_cmd 0 ''seek -10 1'' = Some c" by auto
  with parsed_command_typed [OF this] show ?thesis by blast
qed



definition plain_word :: "string \<Rightarrow> bool" where
  "plain_word w \<longleftrightarrow> w \<noteq> [] \<and> list_all (\<lambda>c. \<not> blank c \<and> c \<noteq> backslash) w
     \<and> hd w \<notin> {quote, apostrophe, CHR ''#''}"

lemma arg_end_word:
  "list_all (\<lambda>c. \<not> blank c \<and> c \<noteq> backslash) w \<Longrightarrow>
   arg_end (CHR '' '') (w @ s) False = map_option (\<lambda>k. length w + k) (arg_end (CHR '' '') s False)"
proof (induction w)
  case Nil
  then show ?case by (cases "arg_end (CHR '' '') s False") simp_all
next
  case (Cons a w)
  then show ?case by (cases "arg_end (CHR '' '') s False") (auto simp: blank_def)
qed

lemma unescape_word: "list_all (\<lambda>c. \<not> blank c \<and> c \<noteq> backslash) w \<Longrightarrow> unescape (w @ s) = w @ unescape s"
  by (induction w) auto

lemma round_at_word:
  assumes "\<forall>c \<in> set w. \<not> blank c" and "plain_word v"
  shows "dropWhile blank (dropWhile (\<lambda>c. \<not> blank c) (w @ CHR '' '' # v @ s)) = v @ s"
    and "v @ s \<noteq> []" and "hd (v @ s) \<noteq> CHR ''#''" and "hd (v @ s) \<noteq> quote" and "hd (v @ s) \<noteq> apostrophe"
proof -
  have v: "v \<noteq> []" "\<not> blank (hd v)" "hd v \<notin> {quote, apostrophe, CHR ''#''}"
    using assms(2) by (cases v; auto simp: plain_word_def)+
  have "dropWhile (\<lambda>c. \<not> blank c) (w @ CHR '' '' # v @ s) = CHR '' '' # v @ s"
    using assms(1) by (intro dropWhile_word) (simp_all add: blank_simps)
  with v show "dropWhile blank (dropWhile (\<lambda>c. \<not> blank c) (w @ CHR '' '' # v @ s)) = v @ s"
    by (cases v) (simp_all add: blank_simps)
  show "v @ s \<noteq> []" and "hd (v @ s) \<noteq> CHR ''#''" and "hd (v @ s) \<noteq> quote" and "hd (v @ s) \<noteq> apostrophe"
    using v by auto
qed

lemma loop_round:
  assumes "dropWhile blank (dropWhile (\<lambda>c. \<not> blank c) ptr) = p" and "p \<noteq> []" and "hd p \<noteq> CHR ''#''"
  shows "cmd_args_loop (Suc room) defs ptr = (case defs of
        [] \<Rightarrow> ([], 1)
      | d # ds \<Rightarrow>
          (case cmd_arg_value d p of
             (v, None) \<Rightarrow> ([v], 1)
           | (v, Some rest) \<Rightarrow> (case cmd_args_loop room ds rest of (vs, n) \<Rightarrow> (v # vs, Suc n))))"
  using assms by (simp add: Let_def)

lemma word_arg:
  assumes "plain_word v"
  shows "string_arg (v @ CHR '' '' # s) = (Some v, Some (v @ CHR '' '' # s))"
proof -
  have w: "list_all (\<lambda>c. \<not> blank c \<and> c \<noteq> backslash) v" "hd v \<noteq> quote" "hd v \<noteq> apostrophe" "v \<noteq> []"
    using assms by (simp_all add: plain_word_def)
  show ?thesis
    using w unescape_word [OF w(1), of "[]"] by (simp add: string_arg_def arg_end_word)
qed

lemma escaped_blank_arg:
  assumes "plain_word x" and "plain_word y"
  shows "string_arg (x @ backslash # CHR '' '' # y @ CHR '' '' # z)
    = (Some (x @ CHR '' '' # y), Some (x @ CHR '' '' # y @ CHR '' '' # z))"
proof -
  have w: "list_all (\<lambda>c. \<not> blank c \<and> c \<noteq> backslash) x" "hd x \<noteq> quote" "hd x \<noteq> apostrophe" "x \<noteq> []"
    "list_all (\<lambda>c. \<not> blank c \<and> c \<noteq> backslash) y"
    using assms by (simp_all add: plain_word_def)
  have "arg_end (CHR '' '') (x @ backslash # CHR '' '' # y @ CHR '' '' # z) False = Some (length x + 2 + length y)"
    using w by (simp add: arg_end_word)
  moreover have "take (length x + 2 + length y) (x @ backslash # CHR '' '' # y @ CHR '' '' # z)
      = x @ backslash # CHR '' '' # y"
    and "drop (length x + 2 + length y) (x @ backslash # CHR '' '' # y @ CHR '' '' # z) = CHR '' '' # z"
    by simp_all
  moreover have "unescape (x @ backslash # CHR '' '' # y) = x @ CHR '' '' # y"
    using w unescape_word [of y "[]"] by (simp add: unescape_word)
  ultimately show ?thesis using w(2-4) by (simp add: string_arg_def)
qed

lemma unterminated_arg:
  assumes "quote \<notin> set s"
  shows "string_arg (quote # s) = (None, None)"
proof -
  have "arg_end quote s esc = None" for esc using assms by (induction s arbitrary: esc) auto
  then show ?thesis by (simp add: string_arg_def)
qed

text \<open>C32. A string argument whose closing quote is missing is reported and then accepted: the command is returned with
  a null pointer for it. A blank that a backslash keeps in an unquoted argument ends it for the next one all the same:
  that argument starts inside the first, and what was meant for it is dropped.\<close>

theorem string_arguments_wrong:
  assumes d: "d \<in> set mp_cmds" "cmd_args d = Arg_string u # ds" "cmd_nargs d \<le> 1" and s: "quote \<notin> set s"
    and e: "e \<in> set mp_cmds" "cmd_args e = [Arg_string v, Arg_string w]"
    and words: "plain_word x" "plain_word y" "plain_word z"
  shows "mp_input_parse_cmd pd (cmd_name d @ CHR '' '' # quote # s) =
      Some \<lparr>cmd_id = cmd_id d, cmd_name = cmd_name d, cmd_nargs = 1, cmd_args = Arg_string None # ds,
            cmd_pausing = default_pausing pd (cmd_id d)\<rparr>
    \<and> mp_input_parse_cmd pd (cmd_name e @ CHR '' '' # x @ backslash # CHR '' '' # y @ CHR '' '' # z) =
      Some \<lparr>cmd_id = cmd_id e, cmd_name = cmd_name e, cmd_nargs = 3,
            cmd_args = [Arg_string (Some (x @ CHR '' '' # y)), Arg_string (Some y)],
            cmd_pausing = default_pausing pd (cmd_id e)\<rparr>"
proof
  have six: "MP_CMD_MAX_ARGS = Suc (Suc (Suc 3))" by (simp add: MP_CMD_MAX_ARGS_def)
  have nd: "\<forall>c \<in> set (cmd_name d). \<not> blank c" and ne: "\<forall>c \<in> set (cmd_name e). \<not> blank c"
    using cmd_name_chars d(1) e(1) by (auto simp: list_all_iff name_char_not_blank)
  have "dropWhile (\<lambda>c. \<not> blank c) (cmd_name d @ CHR '' '' # quote # s) = CHR '' '' # quote # s"
    using nd by (intro dropWhile_word) (simp_all add: blank_simps)
  then have "dropWhile blank (dropWhile (\<lambda>c. \<not> blank c) (cmd_name d @ CHR '' '' # quote # s)) = quote # s"
    by (simp add: blank_simps)
  note r0 = loop_round [OF this]
  have "cmd_args_loop MP_CMD_MAX_ARGS (cmd_args d) (cmd_name d @ CHR '' '' # quote # s) = ([Arg_string None], 1)"
    unfolding six d(2) by (subst r0) (simp_all add: cmd_arg_value_def unterminated_arg [OF s])
  then show "mp_input_parse_cmd pd (cmd_name d @ CHR '' '' # quote # s) =
      Some \<lparr>cmd_id = cmd_id d, cmd_name = cmd_name d, cmd_nargs = 1, cmd_args = Arg_string None # ds,
            cmd_pausing = default_pausing pd (cmd_id d)\<rparr>"
    using d by (simp add: parse_name)
  have xw: "\<forall>c \<in> set x. \<not> blank c" and yw: "\<forall>c \<in> set y. \<not> blank c"
    using words by (auto simp: plain_word_def list_all_iff)
  let ?t = "x @ backslash # CHR '' '' # y @ CHR '' '' # z"
  note r1 = round_at_word [OF ne words(1), of "backslash # CHR '' '' # y @ CHR '' '' # z"]
    and r2 = round_at_word [OF xw words(2), of "CHR '' '' # z"]
    and r3 = round_at_word [OF yw words(3), of "[]", simplified]
  have third: "cmd_args_loop (Suc 3) [] (y @ CHR '' '' # z) = ([], 1)"
    by (subst loop_round [OF r3(1-3)]) simp
  have second: "cmd_args_loop (Suc (Suc 3)) [Arg_string w] (x @ CHR '' '' # y @ CHR '' '' # z) = ([Arg_string (Some y)], 2)"
    by (subst loop_round [OF r2(1-3)]) (simp add: cmd_arg_value_def word_arg [OF words(2)] third [simplified])
  have "cmd_args_loop MP_CMD_MAX_ARGS (cmd_args e) (cmd_name e @ CHR '' '' # ?t)
      = ([Arg_string (Some (x @ CHR '' '' # y)), Arg_string (Some y)], 3)"
    unfolding six e(2)
    by (subst loop_round [OF r1(1-3)])
      (simp add: cmd_arg_value_def escaped_blank_arg [OF words(1,2)] second [simplified])
  moreover have "cmd_nargs e \<le> 2" using table_rows(2) [OF e(1)] e(2) by simp
  ultimately show "mp_input_parse_cmd pd (cmd_name e @ CHR '' '' # ?t) =
      Some \<lparr>cmd_id = cmd_id e, cmd_name = cmd_name e, cmd_nargs = 3,
            cmd_args = [Arg_string (Some (x @ CHR '' '' # y)), Arg_string (Some y)],
            cmd_pausing = default_pausing pd (cmd_id e)\<rparr>"
    using e by (simp add: parse_name [OF e(1)])
qed

theorem string_arguments_wrong_witness:
  "mp_input_parse_cmd 0 (''loadfile '' @ quote # ''a b'') =
      Some \<lparr>cmd_id = 28, cmd_name = ''loadfile'', cmd_nargs = 1, cmd_args = [Arg_string None, Arg_int 0], cmd_pausing = 0\<rparr>
    \<and> mp_input_parse_cmd 0 (''set_property a'' @ backslash # '' b c'') =
      Some \<lparr>cmd_id = 71, cmd_name = ''set_property'', cmd_nargs = 3,
            cmd_args = [Arg_string (Some ''a b''), Arg_string (Some ''b'')], cmd_pausing = 0\<rparr>"
proof -
  let ?d = "cmd_def 28 ''loadfile'' 1 [Arg_string None, Arg_int 0]"
    and ?e = "cmd_def 71 ''set_property'' 2 [Arg_string None, Arg_string None]"
  have "?d \<in> set mp_cmds" "?e \<in> set mp_cmds" by (simp_all add: mp_cmds_def)
  then show ?thesis
    using string_arguments_wrong [of ?d None "[Arg_int 0]" "''a b''" ?e None None "''a''" "''b''" "''c''" 0]
    by (simp add: cmd_def_def plain_word_def blank_def default_pausing_def MP_CMD_KEYDOWN_EVENTS_def
        MP_CMD_SET_MOUSE_POS_def)
qed

text \<open>The static variables as the program starts.\<close>

definition first_keys :: key_state where
  "first_keys = \<lparr>key_down = [], last_key_down = 0, ar_state = - 1, ar_cmd = None, ar_delay = 100,
     ar_rate = 8, last_ar = 0, cmd_binds = None, cmd_binds_default = None, default_bindings = True,
     pausing_default = 0, mp_input_key_cb = None\<rparr>"

text \<open>C19. The array of the keys that are down has eight elements. One event, and no other, makes the key machine write
  behind its end: the press of another key while eight are down, when no menu takes the keys and the event does not
  release all keys first. In every other case the keys that are down stay distinct and at most eight, and a command
  that is repeated exists.\<close>

theorem key_array_bound:
  assumes "key_inv s"
  shows "(interpret_key now code s = None \<longleftrightarrow>
      code AND MP_KEY_DOWN \<noteq> 0 \<and> code AND MP_KEY_RELEASE_ALL = 0 \<and> mp_input_key_cb s = None
      \<and> length (key_down s) = MP_MAX_KEY_DOWN \<and> code AND NOT MP_KEY_DOWN \<notin> set (key_down s))
    \<and> pred_option (\<lambda>(c, t). key_inv t) (interpret_key now code s)
    \<and> key_inv (snd (check_autorepeat now s))"
proof (intro conjI)
  show "interpret_key now code s = None \<longleftrightarrow>
      code AND MP_KEY_DOWN \<noteq> 0 \<and> code AND MP_KEY_RELEASE_ALL = 0 \<and> mp_input_key_cb s = None
      \<and> length (key_down s) = MP_MAX_KEY_DOWN \<and> code AND NOT MP_KEY_DOWN \<notin> set (key_down s)"
    by (rule interpret_key_overflow [OF assms])
  show "pred_option (\<lambda>(c, t). key_inv t) (interpret_key now code s)"
    using interpret_key_inv [OF assms, of now code] by (cases "interpret_key now code s") auto
  show "key_inv (snd (check_autorepeat now s))" by (rule check_autorepeat_inv [OF assms])
qed

theorem key_array_bound_witness:
  "interpret_key 5 (press 109) (first_keys\<lparr>key_down := [101, 102, 103, 104, 105, 106, 107, 108]\<rparr>) = None"
proof -
  let ?s = "first_keys\<lparr>key_down := [101, 102, 103, 104, 105, 106, 107, 108]\<rparr>"
  have "key_inv ?s" by (simp add: key_inv_def first_keys_def MP_MAX_KEY_DOWN_def)
  moreover have "plain_key 109" by (simp add: plain_key_def key_consts)
  ultimately show ?thesis
    using key_array_bound [of ?s 5 "press 109"] press_flags [of 109] by (simp add: first_keys_def MP_MAX_KEY_DOWN_def)
qed

text \<open>C26. The name that the player prints for a key reads back as the key, and so do the names of a combination of up to
  eight keys joined by hyphens, as long as the hyphen itself is only its first key.\<close>

theorem key_names_round_trip:
  assumes "k \<noteq> 0" and "length ks \<le> MP_MAX_KEY_DOWN" and "list_all (\<lambda>k. 0 <s k) ks" and "hyphen \<notin> set (tl ks)"
  shows "mp_input_get_key_from_name (mp_input_get_key_name k) = k
    \<and> mp_input_get_input_from_name (show_keys ks) = Some ks"
  using key_round_trip [OF assms(1)] keys_round_trip [OF assms(2-4)] by (simp add: mp_input_get_input_from_name_def)

theorem key_names_round_trip_witness:
  "mp_input_get_key_from_name (mp_input_get_key_name 0x1000013) = 0x1000013
    \<and> mp_input_get_input_from_name (show_keys [hyphen, 0x1000030, 113]) = Some [hyphen, 0x1000030, 113]"
  by (rule key_names_round_trip) (simp_all add: MP_MAX_KEY_DOWN_def word_sless_alt)

text \<open>C8. From the file to the command: a file of bindings and comments, with any space and blank lines between them and
  comments of any length, is read whole, and when the keys of a combination are then pressed one after the other and
  released in any order, exactly one command comes out, that of the last line for the combination, else that of the
  default bindings, and no key stays down.\<close>

theorem configured_combination:
  assumes conf: "list_all line_ok ls" "default_lines ls" "all_space ws" "CHR 0x00 \<notin> set (show_lines ls)"
    and keys: "list_all plain_key ks" "ks \<noteq> []" "distinct ks" "length ks \<le> MP_MAX_KEY_DOWN"
    and rs: "distinct rs" "set rs = set ks"
    and s: "key_down s = []" "mp_input_key_cb s = None"
    and ts: "length ts = length ks" "length us = length rs" "last ts \<noteq> 0"
  shows "\<exists>ss n t. mp_input_parse_config (Some (show_lines ls @ ws)) [] = (True, ss, n)
    \<and> run_keys (zip ts (map press ks) @ zip us rs) (snd (mp_input_set_section None ss s)) =
        Some (case first_some (file_cmd ks ls)
                  (if default_bindings s then mp_input_find_bind_for_key def_cmd_binds ks else None) of
                None \<Rightarrow> []
              | Some cmd \<Rightarrow> if cmd = ''ignore'' then []
                  else (case mp_input_parse_cmd (pausing_default s) cmd of None \<Rightarrow> [] | Some c \<Rightarrow> [c]), t)
    \<and> key_down t = []"
proof -
  let ?ss = "fold apply_line ls []"
  obtain ss2 s2 where set: "mp_input_set_section None ?ss s = (ss2, s2)" by fastforce
  note b = bound_after_config [OF keys(2) conf(2) set]
  obtain t where run: "run_keys (zip ts (map press ks) @ zip us rs) s2 =
      Some (case mp_input_get_cmd_from_keys s2 ks of None \<Rightarrow> [] | Some c \<Rightarrow> [c], t)" "key_down t = []"
    using run_combination [OF keys rs _ _ ts, of s2] b(4,5) s by auto
  have "(case mp_input_get_cmd_from_keys s2 ks of None \<Rightarrow> [] | Some c \<Rightarrow> [c]) =
      (case first_some (file_cmd ks ls)
          (if default_bindings s then mp_input_find_bind_for_key def_cmd_binds ks else None) of
         None \<Rightarrow> []
       | Some cmd \<Rightarrow> if cmd = ''ignore'' then []
           else (case mp_input_parse_cmd (pausing_default s) cmd of None \<Rightarrow> [] | Some c \<Rightarrow> [c]))"
    unfolding mp_input_get_cmd_from_keys_def b(1,3) by (simp split: option.split)
  with run set parse_config_lines [OF conf(1,3,4), of "[]"] show ?thesis by simp
qed

lemma ctrl_q_name: "mp_input_get_input_from_name ''CTRL-q'' = Some [0x1000030, 113]"
proof -
  have "map_of key_names 0x1000030 = Some ''CTRL''" "map_of key_names 113 = None" by code_simp+
  moreover have "char_of (113 :: nat) = CHR ''q''" by code_simp
  ultimately have "show_keys [0x1000030, 113] = ''CTRL-q''" by (simp add: mp_input_get_key_name_def)
  then show ?thesis
    using keys_round_trip [of "[0x1000030, 113]" MP_MAX_KEY_DOWN]
    by (simp add: mp_input_get_input_from_name_def MP_MAX_KEY_DOWN_def word_sless_alt)
qed

theorem configured_combination_witness:
  "\<exists>ss n t. mp_input_parse_config (Some (''# keys'' @ [CHR 0x0A, CHR 0x0A] @ ''CTRL-q quit 1'' @ [CHR 0x0A])) [] = (True, ss, n)
    \<and> run_keys [(5, press 0x1000030), (9, press 113), (12, 113), (20, 0x1000030)]
        (snd (mp_input_set_section None ss first_keys))
      = Some ([\<lparr>cmd_id = MP_CMD_QUIT, cmd_name = ''quit'', cmd_nargs = 1, cmd_args = [Arg_int 1], cmd_pausing = 0\<rparr>], t)
    \<and> key_down t = []"
proof -
  let ?d = "cmd_def 2 ''quit'' 0 [Arg_int 0]"
  let ?ls = "[Comment_line [] '' keys'', Bind_line [CHR 0x0A] ''CTRL-q'' ''quit 1'']"
  have "digit_char 1 = CHR ''1''" by code_simp
  moreover have "?d \<in> set mp_cmds" by (simp add: mp_cmds_def)
  ultimately have cmd: "mp_input_parse_cmd 0 ''quit 1'' = Some \<lparr>cmd_id = MP_CMD_QUIT, cmd_name = ''quit'',
      cmd_nargs = 1, cmd_args = [Arg_int 1], cmd_pausing = 0\<rparr>"
    using parse_show_cmd [of ?d "[Arg_int 1]" 0]
    by (simp add: cmd_def_def quotable_def default_pausing_def MP_CMD_KEYDOWN_EVENTS_def MP_CMD_SET_MOUSE_POS_def
        MP_CMD_QUIT_def show_cmd_def show_arg_def show_int_def show_nat.simps)
  have lines: "list_all line_ok ?ls" "default_lines ?ls" "CHR 0x00 \<notin> set (show_lines ?ls)"
    by (simp_all add: ctrl_q_name space_char_def key_word_def command_word_def not_newline_def blank_def
        default_lines_def split_section_def)
  have found: "file_cmd [0x1000030, 113] ?ls = Some ''quit 1''"
    by (simp add: file_cmd_def ctrl_q_name split_section_def first_some_def)
  have "plain_key 0x1000030" "plain_key 113" by (simp_all add: plain_key_def key_consts)
  then show ?thesis
    using configured_combination [OF lines(1,2) _ lines(3), of "[]" "[0x1000030, 113]" "[113, 0x1000030]" first_keys
        "[5, 9]" "[12, 20]"] found cmd
    by (simp add: MP_MAX_KEY_DOWN_def first_keys_def first_some_def insert_commute)
qed

text \<open>C36. Two flaws of the file reader. A file whose last line lacks its newline is rejected with that binding lost,
  so that the file of the installation is read as well, although the bindings before it were made. And a key
  with nothing behind it on its line takes the whole next line, a binding itself, as its command.\<close>

theorem config_lines_wrong:
  assumes lines: "list_all line_ok ls" and last: "line_ok (Bind_line [] name cmd)" and next_line: "command_word other"
    and plain: "CHR 0x00 \<notin> set (show_lines ls @ name @ cmd @ other)"
  shows "mp_input_parse_config (Some (show_lines ls @ name @ CHR '' '' # cmd)) ss =
      (False, fold apply_line ls ss, length (filter is_bind ls))
    \<and> mp_input_parse_config (Some (show_lines ls @ name @ CHR 0x0A # other @ [CHR 0x0A])) ss =
      (True, apply_line (Bind_line [] name other) (fold apply_line ls ss), Suc (length (filter is_bind ls)))"
proof
  show "mp_input_parse_config (Some (show_lines ls @ name @ CHR '' '' # cmd)) ss =
      (False, fold apply_line ls ss, length (filter is_bind ls))"
    using parse_config_cut [OF lines last] plain by simp
  define t where "t = show_lines ls @ name @ CHR 0x0A # other @ [CHR 0x0A]"
  have "CHR 0x00 \<notin> set t" using plain by (simp add: t_def)
  then have "reader_at (config_start t ss) (show_lines ls @ name @ CHR 0x0A # other @ [CHR 0x0A])"
    using config_start_at by (simp only: t_def)
  then have "reads_to (config_start t ss) (name @ CHR 0x0A # other @ [CHR 0x0A]) (fold apply_line ls ss)
      (length (filter is_bind ls))"
    using lines_read [of "config_start t ss" ls] lines by simp
  then obtain r where r: "parse_config_loop (config_start t ss) = parse_config_loop r"
    "reader_at r ([] @ name @ CHR 0x0A # other @ [CHR 0x0A])" "\<not> cr_comments r" "cr_keys r = []"
    "cr_sections r = fold apply_line ls ss" "cr_binds r = length (filter is_bind ls)"
    unfolding reads_to_def by auto
  obtain k ks where keys: "mp_input_get_input_from_name name = Some (k # ks)" "k \<noteq> 0"
    using last by (auto split: option.splits list.splits)
  have l: "key_word name" "length [] + length name < 255" using last by auto
  obtain q where q: "parse_config_loop r = parse_config_loop q" "reader_at q (other @ CHR 0x0A # [])" "\<not> cr_comments q"
    "cr_keys q = k # ks" "cr_sections q = cr_sections r" "cr_binds q = cr_binds r"
    using key_found [OF r(2) _ l(1) _ l(2) keys(1) r(3,4)] by (metis space_char_def all_space_simps(1))
  have "reads_to q [] (mp_input_bind_keys (takeWhile (\<lambda>k. k \<noteq> 0) (k # ks)) other (cr_sections q)) (Suc (cr_binds q))"
    by (rule command_read [OF q(2) next_line q(3,4) keys(2)])
  from reads_to_end [OF this] obtain q' where "parse_config_loop q = (True, q')"
    "cr_sections q' = mp_input_bind_keys (takeWhile (\<lambda>k. k \<noteq> 0) (k # ks)) other (cr_sections q)"
    "cr_binds q' = Suc (cr_binds q)" by blast
  then show "mp_input_parse_config (Some (show_lines ls @ name @ CHR 0x0A # other @ [CHR 0x0A])) ss =
      (True, apply_line (Bind_line [] name other) (fold apply_line ls ss), Suc (length (filter is_bind ls)))"
    unfolding t_def [symmetric] using r q keys(1) by (simp add: mp_input_parse_config_def)
qed

theorem config_lines_wrong_witness:
  "fst (mp_input_parse_config (Some ''CTRL-q quit 1'') []) = False
    \<and> fst (snd (mp_input_parse_config (Some (''CTRL-q'' @ CHR 0x0A # ''p pause'' @ [CHR 0x0A])) []))
      = [(''default'', Some [\<lparr>bind_input = [0x1000030, 113], bind_cmd = ''p pause''\<rparr>])]"
proof -
  have "line_ok (Bind_line [] ''CTRL-q'' ''quit 1'')" "command_word ''p pause''"
    by (simp_all add: ctrl_q_name key_word_def command_word_def not_newline_def blank_def space_char_def)
  then show ?thesis
    using config_lines_wrong [of "[]" "''CTRL-q''" "''quit 1''" "''p pause''" "[]"]
    by (simp add: ctrl_q_name mp_input_bind_keys_def split_section_def mp_input_get_bind_section_def section_binds_def Let_def)
qed

text \<open>C10. Command lines come out of a descriptor as they went in: whatever pieces the reads give, with interruptions,
  errors and pauses between them, enough calls return, and together they hand out exactly the complete lines of
  the text in order, without those of 4095 characters and more. A last line without its end is not handed out.\<close>

theorem command_lines_complete:
  assumes "descriptor_ok d" and "2 * descriptor_size d \<le> n"
  shows "\<exists>fd v. read_lines mp_input_default_cmd_func n (new_fd k select f c) d =
    Some (filter (\<lambda>l. length l < 4095) (complete_lines (descriptor_text d)), fd, v)"
  using assms by (rule new_fd_lines)

theorem command_lines_complete_witness:
  "\<exists>fd v. read_lines mp_input_default_cmd_func 40 (new_fd 3 True (Cmd_func (\<lambda>_. mp_input_default_cmd_func)) None)
      \<lparr>events = [Text ''pau'', Interrupted, Text (''se'' @ CHR 0x0D # ''qu''), Again, Failed, Text (CHR 0x0A # ''rest'')],
       closed = True\<rparr>
    = Some ([''pause'', ''qu''], fd, v)"
proof -
  let ?d = "\<lparr>events = [Text ''pau'', Interrupted, Text (''se'' @ CHR 0x0D # ''qu''), Again, Failed,
    Text (CHR 0x0A # ''rest'')], closed = True\<rparr>"
  have "descriptor_ok ?d" by (simp add: descriptor_ok_def)
  moreover have "2 * descriptor_size ?d \<le> 40" by (simp add: descriptor_size_def descriptor_text_def)
  ultimately show ?thesis
    using command_lines_complete [of ?d 40 3 True "Cmd_func (\<lambda>_. mp_input_default_cmd_func)" None]
    by (simp add: descriptor_text_def complete_lines_def line_end_def)
qed

text \<open>C16. A blocking part of the player that looks for an interruption learns whether the next command ends the playback of
  the file, and loses nothing of it: a command that does is still the first of the queue when the main loop asks,
  with the others behind it. Any other command is taken off the queue, so that it is lost.\<close>

theorem interrupt_keeps_command:
  assumes "plain_state s" and "mp_input_get_cmd sys time 0 True s = Some (Some c, t)"
  shows "\<exists>u rest. ring_list (in_queue t) = Some c # rest \<and> plain_state u
    \<and> mp_input_check_interrupt sys time s = Some (stops_playback c, u)
    \<and> ring_list (in_queue u) = (if stops_playback c then Some c # rest else rest)"
  using assms by (rule check_interrupt_cmd)

definition idle_input :: "unit input_state" where
  "idle_input = \<lparr>in_keys = first_keys,
     in_fifo = \<lparr>fifo = \<lparr>key_fifo_size = 7, key_fifo_data = None, key_fifo_read = 0, key_fifo_write = 0,
       previous_down_key = 0\<rparr>, doubleclick_time = 300, last_key_time0 = 0, last_key_time1 = 0, last_key0 = 0, last_key1 = 0\<rparr>,
     in_key_fds = [], in_cmd_fds = [], in_queue = empty_ring, in_filters = [], in_quit_request = False, in_world = ()\<rparr>"

lemma idle_peek:
  defines "s c \<equiv> idle_input\<lparr>in_queue := put_cmd (Some c) empty_ring\<rparr>"
  shows "plain_state (s c)" and "ring_list (in_queue (s c)) = [Some c]"
    and "mp_input_get_cmd sys time p True (s c) = Some (Some c, s c)"
proof -
  have acc: "ring_accept empty_ring (Some c) = [Some c]"
    by (simp add: ring_accept_def empty_ring_def CMD_QUEUE_SIZE_def)
  show list: "ring_list (in_queue (s c)) = [Some c]"
    by (simp add: s_def put_cmd_list [OF empty_ring_inv(1)] empty_ring_inv(2) acc)
  have ok: "ring_ok (in_queue (s c))"
    using put_cmd_inv [OF empty_ring_inv(1)] list by (simp add: ring_ok_def s_def)
  then show plain: "plain_state (s c)" by (simp add: plain_state_def s_def idle_input_def)
  show "mp_input_get_cmd sys time p True (s c) = Some (Some c, s c)"
    using plain list by (simp add: mp_input_get_cmd_def next_cmd_def get_queued_peek [OF ok] keep_peeked_def plain_state_def)
qed

theorem interrupt_keeps_command_witness:
  "\<forall>sys. \<exists>u. mp_input_check_interrupt sys 0 (idle_input\<lparr>in_queue := put_cmd (Some (cmd_def 6 ''pt_step'' 1 [Arg_int 1])) empty_ring\<rparr>)
      = Some (True, u) \<and> ring_list (in_queue u) = [Some (cmd_def 6 ''pt_step'' 1 [Arg_int 1])]"
proof -
  define c where "c = cmd_def 6 ''pt_step'' 1 [Arg_int 1]"
  have "stops_playback c" by (simp add: c_def cmd_def_def MP_CMD_PLAY_TREE_STEP_def)
  with interrupt_keeps_command [OF idle_peek(1,3), of c _ 0] idle_peek(2) [of c]
  have "\<exists>u. mp_input_check_interrupt sys 0 (idle_input\<lparr>in_queue := put_cmd (Some c) empty_ring\<rparr>) = Some (True, u)
      \<and> ring_list (in_queue u) = [Some c]" for sys
    by auto
  then show ?thesis unfolding c_def by blast
qed

end
