(* ===== verification/Spec2Isabelle.thy ===== *)
theory Spec2Isabelle
  imports Key_Fifo Url Subopt Reorder_Ch Stream_Props Cache_Props Play_Props Demux_Props Ebml_Props Input_Props
begin

text \<open>
  A verification development for the core logic of MPlayer.

  \<^bold>\<open>The program.\<close> MPlayer reads a play tree of files (\<^verbatim>\<open>playtree.c\<close>), sets the parameters of each
  item in a configuration with nested contexts (\<^verbatim>\<open>m_config.c\<close>), opens the item as a byte stream
  (\<^verbatim>\<open>stream/\<close>) named by a URL (\<^verbatim>\<open>stream/url.c\<close>), demultiplexes, decodes and filters it (the channel
  layout is changed by \<^verbatim>\<open>libaf/reorder_ch.c\<close>) with drivers configured by suboptions
  (\<^verbatim>\<open>subopt-helper.c\<close>). The packets of a file wait in queues (\<^verbatim>\<open>libmpdemux/demuxer.c\<close>) that the parsers
  of the file formats fill, Matroska's with the help of \<^verbatim>\<open>libmpdemux/ebml.c\<close>. The user's keys go through a
  queue (\<^verbatim>\<open>mp_fifo.c\<close>) to the bindings and become, like the lines of a control program, commands
  (\<^verbatim>\<open>input/input.c\<close>) that the main loop takes one at a time. The development models these parts, each
  in theories of its own.

  \<^bold>\<open>The theories.\<close>

  \<^item> \<open>MP_Prelude\<close>, \<open>C_String\<close>: machine types, lists read through modular indices, and the string functions
    of the C library the sources call.

  \<^item> \<open>Key_Fifo\<close>: \<^verbatim>\<open>mp_fifo.c\<close>, the ring of key events with its 32-bit counters. Contract: a bounded queue
    (locales \<open>bounded_queue\<close> and \<open>key_queue\<close>, interpreted on the ring); events come out in the order
    they were let in, and a release always follows its press.

  \<^item> \<open>Url\<close>: \<^verbatim>\<open>stream/url.c\<close>, escaping and unescaping, splitting a URL, proxies and redirects. Rendering
    then parsing gives the parts back; spans stay inside the string.

  \<^item> \<open>Subopt\<close>: \<^verbatim>\<open>subopt-helper.c\<close>, the parser of suboption strings, with its round trip and the variables
    it leaves alone.

  \<^item> \<open>Reorder_Ch\<close>: \<^verbatim>\<open>libaf/reorder_ch.c\<close>, the tables of channel copies and in-place exchanges, byte for
    byte, against a permutation of the channels of each frame.

  \<^item> \<open>Config\<close>: \<^verbatim>\<open>m_config.c\<close>, options, their save slots in a heap, contexts pushed and popped, suboptions and
    profiles. What is nested between a push and its pop is undone.

  \<^item> \<open>Stream\<close>, \<open>Byte_Source\<close>, \<open>Stream_Props\<close>: \<^verbatim>\<open>stream/stream.[ch]\<close> with the callbacks of
    \<^verbatim>\<open>stream/stream_file.c\<close>. A stream is a record, its function pointers a record of operations. The
    locales \<open>byte_source\<close> and \<open>seekable_source\<close> state what the buffer needs of the device; they are
    interpreted on files, pipes (whose reads may be cut short arbitrarily) and memory. Inside them the
    stream refines a cursor into the content.

  \<^item> \<open>Cache\<close>, \<open>Cache_Ring\<close>, \<open>Cache_Threads\<close>, \<open>Cache_Props\<close>: \<^verbatim>\<open>stream/cache2.c\<close>, the ring of bytes shared by a
    filling thread and a reader. Their calls are cut into the steps at which they touch shared
    variables, an event per step, and a run interleaves them. The locale \<open>cached_source\<close> extends
    \<open>seekable_source\<close>; its invariant holds after every step, so that what the reader copies out of the
    ring is the content of the stream below.

  \<^item> \<open>Play_Tree\<close>, \<open>Play_Links\<close>, \<open>Play_Iter\<close>, \<open>Play_Props\<close>: \<^verbatim>\<open>playtree.c\<close>. Items live in a heap; the linking
    operations keep doubly linked lists; the iterator is a transition function between its three
    mutually recursive calls. On a clean tree it visits the playing order. Its configuration is a
    parameter with the contract \<open>config_stack\<close>, interpreted on \<open>Config\<close>: this joins the two
    components, playing a playlist leaves the options as they were.

  \<^item> \<open>Demux\<close>, \<open>Demux_Control\<close>, \<open>Demux_Queue\<close>, \<open>Demux_Raw\<close>, \<open>Demux_Props\<close>: \<^verbatim>\<open>libmpdemux/demuxer.[ch]\<close> with the raw
    video parser \<^verbatim>\<open>demux_rawvideo.c\<close>: the queues of the elementary streams, the readers of bytes and
    packets, the search for start codes, seeking, tracks and chapters. The contract of a parser is the locale
    \<open>packet_source\<close>: what it delivers comes out once and in order, and every call returns. It is
    interpreted on the raw video parser, whose reads go through the regular file of \<open>Byte_Source\<close>.

  \<^item> \<open>Ebml\<close>, \<open>Ebml_Numbers\<close>, \<open>Ebml_Reader\<close>, \<open>Ebml_Props\<close>: \<^verbatim>\<open>libmpdemux/ebml.c\<close>, a client of \<open>byte_source\<close> and
    \<open>seekable_source\<close>: what a writer made of numbers, values of elements and a header is read back.

  \<^item> \<open>Input_Cmd\<close>, \<open>Input_Keys\<close>, \<open>Input_Config\<close>, \<open>Input_Lines\<close>, \<open>Input_Events\<close>, \<open>Input_Props\<close>: \<^verbatim>\<open>input/input.c\<close> in the
    order of its data flow. \<open>Input_Cmd\<close> has the table of commands and the parser, with its round trip;
    \<open>Input_Keys\<close> the default bindings, the keys that are down and their repetition; \<open>Input_Config\<close> the names
    of keys, the sections of bindings and the reader of \<^verbatim>\<open>input.conf\<close>; \<open>Input_Lines\<close> the drivers and the lines
    of a control program, under the locale \<open>line_source\<close>, interpreted on \<^verbatim>\<open>mp_input_default_cmd_func\<close>;
    \<open>Input_Events\<close> the lists of drivers, their round and the queue of commands, the second
    interpretation of \<open>bounded_queue\<close>. The key queue of \<open>Key_Fifo\<close> is part of its state.

  \<^bold>\<open>Errors, loops and bounds.\<close> A dereference of \<^verbatim>\<open>NULL\<close> or of freed memory, a write outside an array and
  undefined arithmetic are \<open>None\<close>. Loops whose end depends on callbacks or on the shape of a heap are
  partial functions with \<open>None\<close> for not ending, and the theorems state that they return. The fuel of
  \<open>Config\<close> bounds the depth of suboptions, which the code bounds by its recursion; \<open>seek_forward_steps\<close>
  has the distance to go as fuel, and each of its turns covers at least one byte. Integers have their C
  width where wrap-around matters (the counters of the key ring, the words read from a stream, the flags
  and codes of keys, the times of the repetition); file positions are unbounded, time stamps are real
  numbers, and a floating-point argument of a command is the decimal number that was written. Command
  numbers and key codes are the values that the enumerations of the headers have.

  \<^bold>\<open>Defects.\<close> Theorems named \<open>..._defects\<close>, \<open>..._races\<close>, \<open>..._wrap_reorders\<close>, \<open>..._not_restored\<close>, \<open>..._misses\<close> and
  \<open>..._wrong\<close> prove by concrete runs where the code departs from what it means to do; the other theorems
  of a component carry the hypotheses that exclude these cases.

  \<^bold>\<open>Not modelled.\<close> What the commands do (\<^verbatim>\<open>command.c\<close>) and the main programs, which are calls over global
  state; the readers of the command line and of playlists; network and disc streams and the opening of
  input devices, which are calls of the operating system; the file formats other than raw video and
  the elements of EBML; the filters on floating-point samples and pictures, the decoders, the drivers of sound and
  display, subtitles and the graphical interface; the bundled libraries, which are other projects.
  Of the modelled files: messages, freeing of memory where nothing depends on it, allocation failure,
  the control commands of the stream cache, UTF-16 lines, the option table and the printed
  lists of \<^verbatim>\<open>input.c\<close>.
\<close>

end
